(* ===== verification/Prelude.thy ===== *)
theory Prelude
  imports Main "HOL-Library.Word"
begin

text \<open>
  The prelude of the development: the C integer types, the result type in which every
  panic and every fault of the kernel is a value, the byte-addressed memory that the
  kernel reads and writes through pointers, and the lemmas on words, lists and memory
  that the component theories share.
\<close>

unbundle bit_operations_syntax

section \<open>C integers (kernel/types.h)\<close>

type_synonym uint8 = "8 word"
type_synonym uint16 = "16 word"
type_synonym uint32 = "32 word"
type_synonym uint64 = "64 word"

type_synonym bytes = "uint8 list"

section \<open>Results: panics and faults as values\<close>

text \<open>
  A kernel routine either returns, calls \<open>panic\<close> (with its message), touches memory it may
  not touch (a null pointer, an index outside an array), or goes to sleep on a channel.
\<close>

datatype stop = Panic string | Fault string | Asleep string

type_synonym 'a res = "stop + 'a"

definition rbind :: "'a res \<Rightarrow> ('a \<Rightarrow> 'b res) \<Rightarrow> 'b res" where
  "rbind r f = (case r of Inl e \<Rightarrow> Inl e | Inr x \<Rightarrow> f x)"

lemma rbind_Inl [simp]: "rbind (Inl e) f = Inl e"
  by (simp add: rbind_def)

lemma rbind_Inr [simp]: "rbind (Inr x) f = f x"
  by (simp add: rbind_def)

lemma rbind_eq_Inr [simp]: "rbind r f = Inr y \<longleftrightarrow> (\<exists>x. r = Inr x \<and> f x = Inr y)"
  by (cases r) (auto simp: rbind_def)

lemma rbind_eq_Inl: "rbind r f = Inl e \<longleftrightarrow> r = Inl e \<or> (\<exists>x. r = Inr x \<and> f x = Inl e)"
  by (cases r) (auto simp: rbind_def)

lemma rbind_assoc: "rbind (rbind r f) g = rbind r (\<lambda>x. rbind (f x) g)"
  by (cases r) auto

lemma rbind_cong [cong, fundef_cong]: "r = r' \<Longrightarrow> (\<And>x. r' = Inr x \<Longrightarrow> f x = g x) \<Longrightarrow> rbind r f = rbind r' g"
  by (cases r') auto

section \<open>Proof collections\<close>

named_theorems page_arith \<open>arithmetic of page-aligned addresses\<close>
named_theorems mem_simps \<open>reads over writes of the byte memory\<close>

section \<open>Byte-addressed memory\<close>

type_synonym memory = "uint64 \<Rightarrow> uint8"

definition mem_read :: "memory \<Rightarrow> uint64 \<Rightarrow> nat \<Rightarrow> bytes" where
  "mem_read m a n = map (\<lambda>i. m (a + of_nat i)) [0..<n]"

definition mem_write :: "memory \<Rightarrow> uint64 \<Rightarrow> bytes \<Rightarrow> memory" where
  "mem_write m a bs = (\<lambda>x. if unat (x - a) < length bs then bs ! unat (x - a) else m x)"

text \<open>The addresses of a block of \<open>n\<close> bytes at \<open>a\<close>.\<close>

definition region :: "uint64 \<Rightarrow> nat \<Rightarrow> uint64 set" where
  "region a n = {x. unat (x - a) < n}"

lemma in_region: "x \<in> region a n \<longleftrightarrow> unat (x - a) < n"
  by (simp add: region_def)

lemma length_mem_read [simp]: "length (mem_read m a n) = n"
  by (simp add: mem_read_def)

lemma nth_mem_read [simp]: "i < n \<Longrightarrow> mem_read m a n ! i = m (a + of_nat i)"
  by (simp add: mem_read_def)

lemma mem_read_0 [simp]: "mem_read m a 0 = []"
  by (simp add: mem_read_def)

lemma mem_read_Suc: "mem_read m a (Suc n) = m a # mem_read m (a + 1) n"
  by (rule nth_equalityI) (auto simp: nth_Cons' add.assoc less_Suc_eq_0_disj)

lemma mem_write_Nil [simp]: "mem_write m a [] = m"
  by (simp add: mem_write_def)

lemma mem_write_outside [mem_simps]: "x \<notin> region a (length bs) \<Longrightarrow> mem_write m a bs x = m x"
  by (simp add: mem_write_def region_def)

lemma mem_write_inside:
  "x \<in> region a (length bs) \<Longrightarrow> mem_write m a bs x = bs ! unat (x - a)"
  by (simp add: mem_write_def region_def)

lemma unat_less64: "unat (a :: uint64) < 2 ^ 64"
  using unsigned_less [of a, where ?'a = nat] by simp

lemma unat_of_nat64: "n < 2 ^ 64 \<Longrightarrow> unat (of_nat n :: uint64) = n"
  by (simp add: unat_of_nat take_bit_nat_eq_self)

lemma unat_add_of_nat64:
  "unat (a :: uint64) + n < 2 ^ 64 \<Longrightarrow> unat (a + of_nat n) = unat a + n"
proof -
  assume h: "unat a + n < 2 ^ 64"
  then have n: "unat (of_nat n :: uint64) = n"
    by (intro unat_of_nat64) simp
  have "unat a + unat (of_nat n :: uint64) < 2 ^ 64" using h n by simp
  then have "unat (a + of_nat n) = unat a + unat (of_nat n :: uint64)"
    by (simp add: unat_arith_simps)
  then show ?thesis using n by simp
qed

lemma offset_unique: "n < 2 ^ 64 \<Longrightarrow> x = (d :: uint64) + of_nat n \<longleftrightarrow> unat (x - d) = n"
proof
  assume "n < 2 ^ 64" "x = d + of_nat n"
  then show "unat (x - d) = n" by (simp add: unat_of_nat64)
next
  assume "unat (x - d) = n"
  then have "of_nat n = x - d" by (metis word_nat_cases unat_of_nat64 of_nat_unat ucast_id)
  then show "x = d + of_nat n" by simp
qed

lemma region_offset: "i < n \<Longrightarrow> n \<le> 2 ^ 64 \<Longrightarrow> a + of_nat i \<in> region a n"
  by (simp add: region_def unat_of_nat64)

lemma region_elem:
  assumes "x \<in> region a n"
  obtains i where "i < n" and "x = a + of_nat i"
proof
  show "unat (x - a) < n" using assms by (simp add: region_def)
  show "x = a + of_nat (unat (x - a))" by simp
qed

lemma mem_read_write_same [mem_simps]:
  "length bs \<le> 2 ^ 64 \<Longrightarrow> mem_read (mem_write m a bs) a (length bs) = bs"
  by (intro nth_equalityI) (auto simp: mem_write_def unat_of_nat64)

lemma mem_read_cong:
  "(\<And>x. x \<in> region a n \<Longrightarrow> m x = m' x) \<Longrightarrow> n \<le> 2 ^ 64 \<Longrightarrow> mem_read m a n = mem_read m' a n"
  by (intro nth_equalityI) (auto simp: region_offset)

lemma mem_read_write_disjoint [mem_simps]:
  "region b n \<inter> region a (length bs) = {} \<Longrightarrow> n \<le> 2 ^ 64 \<Longrightarrow>
   mem_read (mem_write m a bs) b n = mem_read m b n"
  by (rule mem_read_cong) (auto intro!: mem_write_outside)

lemma mem_write_read_id: "n \<le> 2 ^ 64 \<Longrightarrow> mem_write m a (mem_read m a n) = m"
  by (auto simp: mem_write_def fun_eq_iff)

section \<open>Little-endian words in memory\<close>

definition word_bytes :: "nat \<Rightarrow> 'a::len word \<Rightarrow> bytes" where
  "word_bytes n w = map (\<lambda>i. ucast (drop_bit (8 * i) w)) [0..<n]"

definition bytes_word :: "bytes \<Rightarrow> 'a::len word" where
  "bytes_word bs = foldr (\<lambda>b w. ucast b OR push_bit 8 w) bs 0"

lemma length_word_bytes [simp]: "length (word_bytes n w) = n"
  by (simp add: word_bytes_def)

lemma bytes_word_Nil [simp]: "bytes_word [] = 0"
  by (simp add: bytes_word_def)

lemma bytes_word_Cons [simp]: "bytes_word (b # bs) = ucast b OR push_bit 8 (bytes_word bs)"
  by (simp add: bytes_word_def)

lemma bit_bytes_word:
  "bit (bytes_word bs :: 'a::len word) k \<longleftrightarrow>
     k < LENGTH('a) \<and> k div 8 < length bs \<and> bit (bs ! (k div 8)) (k mod 8)"
proof (induction bs arbitrary: k)
  case Nil
  then show ?case by simp
next
  case (Cons b bs)
  show ?case
  proof (cases "k < 8")
    case True
    then show ?thesis by (auto simp: bit_or_iff bit_push_bit_iff bit_ucast_iff)
  next
    case False
    then have d: "k div 8 = Suc ((k - 8) div 8)" "k mod 8 = (k - 8) mod 8"
      by (simp_all add: le_div_geq le_mod_geq)
    have "\<not> bit b k" using False bit_imp_le_length [of b k] by auto
    then show ?thesis using False Cons[of "k - 8"] d
      by (auto simp: bit_or_iff bit_push_bit_iff bit_ucast_iff)
  qed
qed

lemma bit_word_bytes:
  "i < n \<Longrightarrow> bit (word_bytes n w ! i) j \<longleftrightarrow> j < 8 \<and> bit w (8 * i + j)"
  by (auto simp: word_bytes_def bit_ucast_iff bit_drop_bit_eq)

lemma bytes_word_word_bytes:
  fixes w :: "'a::len word"
  assumes "LENGTH('a) \<le> 8 * n"
  shows "bytes_word (word_bytes n w) = w"
proof (rule bit_eqI)
  fix k assume "possible_bit TYPE('a word) k"
  then have k: "k < LENGTH('a)" by (simp add: possible_bit_word)
  then have "k div 8 < n" using assms by linarith
  then show "bit (bytes_word (word_bytes n w) :: 'a word) k \<longleftrightarrow> bit w k"
    using k by (simp add: bit_bytes_word bit_word_bytes)
qed

definition load64 :: "memory \<Rightarrow> uint64 \<Rightarrow> uint64" where
  "load64 m a = bytes_word (mem_read m a 8)"

definition store64 :: "memory \<Rightarrow> uint64 \<Rightarrow> uint64 \<Rightarrow> memory" where
  "store64 m a v = mem_write m a (word_bytes 8 v)"

lemma load64_store64_same [simp]: "load64 (store64 m a v) a = v"
  using mem_read_write_same [of "word_bytes 8 v" m a]
  by (simp add: load64_def store64_def bytes_word_word_bytes)

lemma load64_mem_write_disjoint:
  "region b 8 \<inter> region a (length bs) = {} \<Longrightarrow> load64 (mem_write m a bs) b = load64 m b"
  by (simp add: load64_def mem_simps)

lemma load64_store64_disjoint:
  "region b 8 \<inter> region a 8 = {} \<Longrightarrow> load64 (store64 m a v) b = load64 m b"
  by (simp add: store64_def load64_mem_write_disjoint)

lemma load64_cong: "(\<And>x. x \<in> region a 8 \<Longrightarrow> m x = m' x) \<Longrightarrow> load64 m a = load64 m' a"
  by (simp add: load64_def cong: mem_read_cong)

lemma store64_outside: "x \<notin> region a 8 \<Longrightarrow> store64 m a v x = m x"
  by (simp add: store64_def mem_write_outside)

section \<open>Fields of structures stored in a block of bytes\<close>

text \<open>
  On-disk structures are read and written in place in a buffer: \<open>get_bytes\<close> and \<open>put_bytes\<close>
  access a slice, \<open>get32\<close>, \<open>put32\<close>, \<open>get16\<close> and \<open>put16\<close> a little-endian field.
\<close>

definition get_bytes :: "nat \<Rightarrow> nat \<Rightarrow> bytes \<Rightarrow> bytes" where
  "get_bytes off n bs = take n (drop off bs)"

definition put_bytes :: "nat \<Rightarrow> bytes \<Rightarrow> bytes \<Rightarrow> bytes" where
  "put_bytes off xs bs = take off bs @ xs @ drop (off + length xs) bs"

definition get32 :: "nat \<Rightarrow> bytes \<Rightarrow> uint32" where
  "get32 off bs = bytes_word (get_bytes off 4 bs)"

definition put32 :: "nat \<Rightarrow> uint32 \<Rightarrow> bytes \<Rightarrow> bytes" where
  "put32 off v bs = put_bytes off (word_bytes 4 v) bs"

definition get16 :: "nat \<Rightarrow> bytes \<Rightarrow> uint16" where
  "get16 off bs = bytes_word (get_bytes off 2 bs)"

definition put16 :: "nat \<Rightarrow> uint16 \<Rightarrow> bytes \<Rightarrow> bytes" where
  "put16 off v bs = put_bytes off (word_bytes 2 v) bs"

named_theorems block_simps \<open>reads over writes of the fields of a block\<close>

lemma length_put_bytes [simp]: "off + length xs \<le> length bs \<Longrightarrow> length (put_bytes off xs bs) = length bs"
  by (simp add: put_bytes_def)

lemma length_put [simp]:
  "off + 4 \<le> length bs \<Longrightarrow> length (put32 off v bs) = length bs"
  "off + 2 \<le> length bs \<Longrightarrow> length (put16 off w bs) = length bs"
  by (simp_all add: put32_def put16_def)

lemma length_get_bytes [simp]: "off + n \<le> length bs \<Longrightarrow> length (get_bytes off n bs) = n"
  by (simp add: get_bytes_def)

lemma get_put_bytes_same [block_simps]:
  "off + length xs \<le> length bs \<Longrightarrow> n = length xs \<Longrightarrow> get_bytes off n (put_bytes off xs bs) = xs"
  by (simp add: get_bytes_def put_bytes_def)

lemma get_put_bytes_before [block_simps]:
  "o1 + n \<le> off \<Longrightarrow> off + length xs \<le> length bs \<Longrightarrow> get_bytes o1 n (put_bytes off xs bs) = get_bytes o1 n bs"
  by (simp add: get_bytes_def put_bytes_def take_drop min_def)

lemma get_put_bytes_after [block_simps]:
  "off + length xs \<le> o1 \<Longrightarrow> off + length xs \<le> length bs \<Longrightarrow>
   get_bytes o1 n (put_bytes off xs bs) = get_bytes o1 n bs"
  by (simp add: get_bytes_def put_bytes_def)

lemma put_get_bytes: "off + n \<le> length bs \<Longrightarrow> put_bytes off (get_bytes off n bs) bs = bs"
  by (simp add: get_bytes_def put_bytes_def)
     (metis append_assoc append_take_drop_id drop_drop add.commute)

lemma get32_put32_same [block_simps]: "off + 4 \<le> length bs \<Longrightarrow> get32 off (put32 off v bs) = v"
  by (simp add: get32_def put32_def block_simps bytes_word_word_bytes)

lemma get32_put32_other [block_simps]:
  "off + 4 \<le> length bs \<Longrightarrow> o1 + 4 \<le> off \<or> off + 4 \<le> o1 \<Longrightarrow> get32 o1 (put32 off v bs) = get32 o1 bs"
  by (auto simp: get32_def put32_def block_simps)

lemma get16_put16_same [block_simps]: "off + 2 \<le> length bs \<Longrightarrow> get16 off (put16 off v bs) = v"
  by (simp add: get16_def put16_def block_simps bytes_word_word_bytes)

lemma get16_put16_other [block_simps]:
  "off + 2 \<le> length bs \<Longrightarrow> o1 + 2 \<le> off \<or> off + 2 \<le> o1 \<Longrightarrow> get16 o1 (put16 off v bs) = get16 o1 bs"
  by (auto simp: get16_def put16_def block_simps)

section \<open>Lists\<close>

text \<open>
  Many tables of the kernel are searched for the first entry that satisfies a condition
  (a free file, a free descriptor, an unused process).
\<close>

fun first_index :: "('a \<Rightarrow> bool) \<Rightarrow> 'a list \<Rightarrow> nat option" where
  "first_index P [] = None"
| "first_index P (x # xs) = (if P x then Some 0 else map_option Suc (first_index P xs))"

lemma first_index_None: "first_index P xs = None \<longleftrightarrow> (\<forall>x \<in> set xs. \<not> P x)"
  by (induction xs) auto

lemma first_index_Some:
  "first_index P xs = Some i \<longleftrightarrow> i < length xs \<and> P (xs ! i) \<and> (\<forall>j < i. \<not> P (xs ! j))"
proof (induction xs arbitrary: i)
  case Nil
  then show ?case by simp
next
  case (Cons x xs)
  show ?case
    by (cases i) (auto simp: Cons nth_Cons' less_Suc_eq_0_disj split: if_splits)
qed

end
