(* ===== verification/Riscv.thy ===== *)
theory Riscv
  imports Prelude
begin

text \<open>
  The constants and macros of \<open>kernel/riscv.h\<close>, \<open>kernel/memlayout.h\<close> and
  \<open>kernel/param.h\<close> that the memory system uses, and the arithmetic of page-aligned
  addresses and Sv39 page-table entries: rounding, the split of a virtual address into
  three table indices, and the round trip between physical addresses and entries.
\<close>

section \<open>Pages and page-table entries (kernel/riscv.h)\<close>

definition PGSIZE :: uint64 where [simp]: "PGSIZE = 4096"

definition PGROUNDUP :: "uint64 \<Rightarrow> uint64" where
  "PGROUNDUP sz = (sz + PGSIZE - 1) AND NOT (PGSIZE - 1)"

definition PGROUNDDOWN :: "uint64 \<Rightarrow> uint64" where
  "PGROUNDDOWN a = a AND NOT (PGSIZE - 1)"

definition PTE_V :: uint64 where "PTE_V = push_bit 0 1"
definition PTE_R :: uint64 where "PTE_R = push_bit 1 1"
definition PTE_W :: uint64 where "PTE_W = push_bit 2 1"
definition PTE_X :: uint64 where "PTE_X = push_bit 3 1"
definition PTE_U :: uint64 where "PTE_U = push_bit 4 1"
definition PTE_COW :: uint64 where "PTE_COW = push_bit 8 1"

lemmas pte_bits = PTE_V_def PTE_R_def PTE_W_def PTE_X_def PTE_U_def PTE_COW_def

definition PA2PTE :: "uint64 \<Rightarrow> uint64" where
  "PA2PTE pa = push_bit 10 (drop_bit 12 pa)"

definition PTE2PA :: "uint64 \<Rightarrow> uint64" where
  "PTE2PA pte = push_bit 12 (drop_bit 10 pte)"

definition PTE_FLAGS :: "uint64 \<Rightarrow> uint64" where
  "PTE_FLAGS pte = pte AND 0x3FF"

definition PXSHIFT :: "nat \<Rightarrow> nat" where
  "PXSHIFT level = 12 + 9 * level"

definition PX :: "nat \<Rightarrow> uint64 \<Rightarrow> uint64" where
  "PX level va = drop_bit (PXSHIFT level) va AND 0x1FF"

definition MAXVA :: uint64 where
  "MAXVA = push_bit (9 + 9 + 9 + 12 - 1) 1"

definition MAKE_SATP :: "uint64 \<Rightarrow> uint64" where
  "MAKE_SATP pagetable = push_bit 60 8 OR drop_bit 12 pagetable"

section \<open>Physical memory layout (kernel/memlayout.h)\<close>

definition KERNBASE :: uint64 where "KERNBASE = 0x80000000"
definition PHYSTOP :: uint64 where "PHYSTOP = KERNBASE + 128 * 1024 * 1024"
definition TRAMPOLINE :: uint64 where "TRAMPOLINE = MAXVA - PGSIZE"
definition TRAPFRAME :: uint64 where "TRAPFRAME = TRAMPOLINE - PGSIZE"

definition KSTACK :: "nat \<Rightarrow> uint64" where
  "KSTACK p = TRAMPOLINE - (of_nat p + 1) * 2 * PGSIZE"

lemma MAXVA_eq: "MAXVA = 0x4000000000"
  by (simp add: MAXVA_def)

lemma PHYSTOP_eq: "PHYSTOP = 0x88000000"
  by (simp add: PHYSTOP_def KERNBASE_def)

section \<open>Page arithmetic\<close>

lemma page_mask: "(4095 :: uint64) = mask 12" and flag_mask: "(1023 :: uint64) = mask 10"
  and px_mask: "(511 :: uint64) = mask 9"
  by (simp_all add: mask_eq_exp_minus_1)

lemma bit_PGROUNDDOWN: "bit (PGROUNDDOWN a) k \<longleftrightarrow> 12 \<le> k \<and> bit a k"
  by (auto simp: PGROUNDDOWN_def page_mask bit_and_iff bit_not_iff bit_mask_iff
      dest: bit_imp_le_length)

lemma bit_PA2PTE: "bit (PA2PTE pa) k \<longleftrightarrow> 10 \<le> k \<and> bit pa (k + 2)"
  by (auto simp: PA2PTE_def bit_push_bit_iff bit_drop_bit_eq dest: bit_imp_le_length)

lemma bit_PTE2PA: "bit (PTE2PA pte) k \<longleftrightarrow> 12 \<le> k \<and> k < 64 \<and> bit pte (k - 2)"
  by (auto simp: PTE2PA_def bit_push_bit_iff bit_drop_bit_eq dest: bit_imp_le_length)

lemma bit_PTE_FLAGS: "bit (PTE_FLAGS pte) k \<longleftrightarrow> k < 10 \<and> bit pte k"
  by (auto simp: PTE_FLAGS_def flag_mask bit_and_iff bit_mask_iff)

lemma bit_PX: "bit (PX l va) k \<longleftrightarrow> k < 9 \<and> bit va (k + PXSHIFT l)"
  by (auto simp: PX_def px_mask bit_and_iff bit_mask_iff bit_drop_bit_eq add.commute)

definition page_aligned :: "uint64 \<Rightarrow> bool" where
  "page_aligned a \<longleftrightarrow> a mod PGSIZE = 0"

lemma PGROUNDDOWN_eq: "PGROUNDDOWN a = push_bit 12 (drop_bit 12 a)"
  by (rule bit_eqI) (auto simp: bit_PGROUNDDOWN bit_push_bit_iff bit_drop_bit_eq)

lemma unat_PGROUNDDOWN: "unat (PGROUNDDOWN a) = unat a div 4096 * 4096"
proof -
  have "unat a div 4096 * 4096 \<le> unat a" by simp
  also have "\<dots> < 2 ^ 64" using unat_less64 [of a] by simp
  finally show ?thesis
    by (simp add: PGROUNDDOWN_eq push_bit_eq_mult drop_bit_eq_div unat_word_ariths unat_div)
qed

lemma page_aligned_unat: "page_aligned a \<longleftrightarrow> unat a mod 4096 = 0"
  by (simp add: page_aligned_def unat_arith_simps)

lemma page_aligned_PGROUNDDOWN [simp]: "page_aligned (PGROUNDDOWN a)"
  by (simp add: page_aligned_unat unat_PGROUNDDOWN)

lemma PGROUNDDOWN_aligned [simp]: "page_aligned a \<Longrightarrow> PGROUNDDOWN a = a"
  by (auto simp: page_aligned_unat word_unat_eq_iff unat_PGROUNDDOWN)

lemma PGROUNDDOWN_idem [simp]: "PGROUNDDOWN (PGROUNDDOWN a) = PGROUNDDOWN a"
  by simp

lemma page_offset: "unat (a - PGROUNDDOWN a) = unat a mod 4096"
proof -
  have "unat a div 4096 * 4096 \<le> unat a" by simp
  then have "unat (PGROUNDDOWN a) \<le> unat a" by (simp add: unat_PGROUNDDOWN)
  then have "unat (a - PGROUNDDOWN a) = unat a - unat (PGROUNDDOWN a)"
    by (simp add: unat_arith_simps)
  also have "\<dots> = unat a mod 4096"
    by (simp add: unat_PGROUNDDOWN minus_div_mult_eq_mod)
  finally show ?thesis .
qed

lemma page_offset_bound: "unat (a - PGROUNDDOWN a) < 4096"
  by (simp add: page_offset)

lemma page_room: "unat (PGROUNDDOWN a) + 4096 \<le> 2 ^ 64"
proof -
  have "unat a < 2 ^ 64" using unat_less64 [of a] by simp
  then have "unat a div 4096 < 2 ^ 52" by simp
  then have "unat a div 4096 * 4096 + 4096 \<le> 2 ^ 52 * 4096" by linarith
  then show ?thesis by (simp add: unat_PGROUNDDOWN)
qed

lemma PGROUNDUP_eq: "PGROUNDUP a = PGROUNDDOWN (a + 4095)"
proof -
  have "a + 4096 - 1 = a + 4095" by (simp add: algebra_simps)
  then show ?thesis by (simp add: PGROUNDUP_def PGROUNDDOWN_def add.commute)
qed

lemma page_aligned_PGROUNDUP [simp]: "page_aligned (PGROUNDUP a)"
  by (simp add: PGROUNDUP_eq)

lemma unat_PGROUNDUP:
  "unat a + 4095 < 2 ^ 64 \<Longrightarrow> unat (PGROUNDUP a) = (unat a + 4095) div 4096 * 4096"
  using unat_add_of_nat64 [of a 4095] by (simp add: PGROUNDUP_eq unat_PGROUNDDOWN)

lemma PGROUNDUP_le_iff:
  assumes "unat a + 4095 < 2 ^ 64" and "page_aligned q"
  shows "PGROUNDUP a \<le> q \<longleftrightarrow> a \<le> q"
proof -
  from assms(2) obtain k where "unat q = k * 4096"
    by (auto simp: page_aligned_unat mod_eq_0_iff_dvd elim!: dvdE)
  then show ?thesis using assms(1) by (simp add: word_le_nat_alt unat_PGROUNDUP) linarith
qed

text \<open>A page is the set of addresses that round down to its base.\<close>

lemma region_page:
  assumes "page_aligned p"
  shows "region p 4096 = {x. PGROUNDDOWN x = p}"
proof (intro set_eqI iffI)
  fix x assume "x \<in> region p 4096"
  then obtain i where i: "i < 4096" "x = p + of_nat i" by (rule region_elem)
  have "unat p + 4096 \<le> 2 ^ 64" using page_room [of p] assms by simp
  then have "unat x = unat p + i" using i unat_add_of_nat64 [of p i] by simp
  then have "unat (PGROUNDDOWN x) = unat p"
    using assms i(1) by (auto simp: unat_PGROUNDDOWN page_aligned_unat)
  then show "x \<in> {x. PGROUNDDOWN x = p}" by (simp add: word_unat_eq_iff)
next
  fix x assume "x \<in> {x. PGROUNDDOWN x = p}"
  then show "x \<in> region p 4096" using page_offset_bound [of x] by (auto simp: in_region)
qed

lemma page_member: "page_aligned p \<Longrightarrow> x \<in> region p 4096 \<longleftrightarrow> PGROUNDDOWN x = p"
  by (simp add: region_page)

lemma pages_disjoint:
  "page_aligned p \<Longrightarrow> page_aligned q \<Longrightarrow> p \<noteq> q \<Longrightarrow> region p 4096 \<inter> region q 4096 = {}"
  by (auto simp: region_page)

section \<open>Entries and indices\<close>

lemma page_aligned_bits: "page_aligned a \<longleftrightarrow> (\<forall>k < 12. \<not> bit a k)"
proof
  assume "page_aligned a"
  then have "PGROUNDDOWN a = a" by simp
  then show "\<forall>k < 12. \<not> bit a k" by (metis bit_PGROUNDDOWN not_le)
next
  assume h: "\<forall>k < 12. \<not> bit a k"
  have "PGROUNDDOWN a = a"
    by (rule bit_eqI) (use h in \<open>auto simp: bit_PGROUNDDOWN not_less [symmetric]\<close>)
  then show "page_aligned a" by (metis page_aligned_PGROUNDDOWN)
qed

lemma page_aligned_PTE2PA [simp]: "page_aligned (PTE2PA pte)"
  by (simp add: page_aligned_bits bit_PTE2PA)

text \<open>A physical address below \<open>2^56\<close> survives the trip through an entry, and so do its
  ten flag bits.\<close>

lemma PTE2PA_PA2PTE [simp]:
  assumes "page_aligned pa" and "PTE_FLAGS fl = fl"
  shows "PTE2PA (PA2PTE pa OR fl) = pa"
proof (rule bit_eqI)
  fix k assume "possible_bit TYPE(uint64) k"
  have fl: "\<not> bit fl j" if "10 \<le> j" for j using that assms(2) bit_PTE_FLAGS [of fl j] by auto
  have lo: "\<not> bit pa k" if "k < 12" using that assms(1) by (simp add: page_aligned_bits)
  show "bit (PTE2PA (PA2PTE pa OR fl)) k \<longleftrightarrow> bit pa k"
  proof (cases "k < 12")
    case True
    then show ?thesis using lo by (simp add: bit_PTE2PA)
  next
    case False
    define j where "j = k - 2"
    have "k = j + 2" "10 \<le> j" using False by (simp_all add: j_def)
    then show ?thesis using fl bit_imp_le_length [of pa k]
      by (auto simp: bit_PTE2PA bit_or_iff bit_PA2PTE)
  qed
qed

lemma PTE_FLAGS_PA2PTE [simp]:
  "PTE_FLAGS fl = fl \<Longrightarrow> PTE_FLAGS (PA2PTE pa OR fl) = fl"
  by (rule bit_eqI) (metis bit_PA2PTE bit_PTE_FLAGS bit_or_iff not_le)

lemma PTE_FLAGS_idem [simp]: "PTE_FLAGS (PTE_FLAGS x) = PTE_FLAGS x"
  by (rule bit_eqI) (auto simp: bit_PTE_FLAGS)

lemma PX_less: "PX l va < 512"
proof -
  have "PX l va = take_bit 9 (drop_bit (PXSHIFT l) va)"
    by (simp add: PX_def px_mask take_bit_eq_mask)
  then have "unat (PX l va) < 2 ^ 9"
    using take_bit_nat_less_exp [of 9] by (simp add: unsigned_take_bit_eq)
  then show ?thesis by (simp add: word_less_nat_alt)
qed

lemma unat_PX_less: "unat (PX l va) < 512"
  using PX_less [of l va] by (simp add: word_less_nat_alt)

text \<open>Below \<open>MAXVA\<close> the three indices determine the page.\<close>

lemma MAXVA_bits: "va < MAXVA \<Longrightarrow> 38 \<le> k \<Longrightarrow> \<not> bit va k"
proof -
  assume "va < MAXVA" and k: "38 \<le> k"
  then have "va < 2 ^ 38" by (simp add: MAXVA_eq)
  then have "take_bit 38 va = va"
    by (simp add: word_less_nat_alt take_bit_nat_eq_self unsigned_take_bit_eq word_unat_eq_iff)
  then show "\<not> bit va k" using k by (metis bit_take_bit_iff not_le)
qed

lemma PX_inject:
  assumes "va < MAXVA" and "va' < MAXVA"
    and "PX 2 va = PX 2 va'" and "PX 1 va = PX 1 va'" and "PX 0 va = PX 0 va'"
  shows "PGROUNDDOWN va = PGROUNDDOWN va'"
proof (rule bit_eqI)
  fix k assume "possible_bit TYPE(uint64) k"
  have idx: "bit va (j + PXSHIFT l) = bit va' (j + PXSHIFT l)" if "j < 9" "l \<in> {0, 1, 2}" for j l
    using that assms(3-5) bit_PX [of l va j] bit_PX [of l va' j] by auto
  show "bit (PGROUNDDOWN va) k = bit (PGROUNDDOWN va') k"
  proof (cases "12 \<le> k \<and> k < 39")
    case True
    define j l where "j = (k - 12) mod 9" and "l = (k - 12) div 9"
    have "l < 3" using True unfolding l_def by linarith
    moreover have "j < 9" by (simp add: j_def)
    moreover have "k = j + PXSHIFT l"
      using True by (simp add: j_def l_def PXSHIFT_def)
    moreover have "l \<in> {0, 1, 2}" using \<open>l < 3\<close> by auto
    ultimately have "bit va k = bit va' k" using idx [of j l] by simp
    then show ?thesis by (simp add: bit_PGROUNDDOWN)
  next
    case False
    then show ?thesis using assms(1,2) MAXVA_bits [of va k] MAXVA_bits [of va' k]
      by (auto simp: bit_PGROUNDDOWN)
  qed
qed

end
