(* ===== verification/CString.thy ===== *)
theory CString
  imports Prelude
begin

text \<open>
  The kernel's string library, \<open>kernel/string.c\<close>.  The block operations \<open>memset\<close>,
  \<open>memcmp\<close> and \<open>memmove\<close> work on the byte memory, since their arguments may overlap.
  The string operations read through a pointer, modelled as the bytes found at each offset
  from it, and write into a buffer of the same type.  The lemmas replace each loop by a
  closed form, which the other components use.
\<close>

section \<open>Block operations\<close>

function memset_loop :: "memory \<Rightarrow> uint64 \<Rightarrow> uint8 \<Rightarrow> nat \<Rightarrow> nat \<Rightarrow> memory" where
  "memset_loop m cdst c i n =
     (if i < n then memset_loop (m(cdst + of_nat i := c)) cdst c (Suc i) n else m)"
  by pat_completeness auto
termination
  by (relation "measure (\<lambda>(m, d, c, i, n). n - i)") auto

declare memset_loop.simps [simp del]

definition memset :: "memory \<Rightarrow> uint64 \<Rightarrow> uint32 \<Rightarrow> nat \<Rightarrow> memory" where
  "memset m dst c n = memset_loop m dst (ucast c) 0 n"

fun memcmp :: "memory \<Rightarrow> uint64 \<Rightarrow> uint64 \<Rightarrow> nat \<Rightarrow> int" where
  "memcmp m s1 s2 0 = 0"
| "memcmp m s1 s2 (Suc n) =
     (if m s1 \<noteq> m s2 then uint (m s1) - uint (m s2) else memcmp m (s1 + 1) (s2 + 1) n)"

fun memmove_down :: "memory \<Rightarrow> uint64 \<Rightarrow> uint64 \<Rightarrow> nat \<Rightarrow> memory" where
  "memmove_down m d s 0 = m"
| "memmove_down m d s (Suc n) = memmove_down (m(d - 1 := m (s - 1))) (d - 1) (s - 1) n"

fun memmove_up :: "memory \<Rightarrow> uint64 \<Rightarrow> uint64 \<Rightarrow> nat \<Rightarrow> memory" where
  "memmove_up m d s 0 = m"
| "memmove_up m d s (Suc n) = memmove_up (m(d := m s)) (d + 1) (s + 1) n"

definition memmove :: "memory \<Rightarrow> uint64 \<Rightarrow> uint64 \<Rightarrow> nat \<Rightarrow> memory" where
  "memmove m dst src n =
     (if n = 0 then m
      else if src < dst \<and> dst < src + of_nat n
      then memmove_down m (dst + of_nat n) (src + of_nat n) n
      else memmove_up m dst src n)"

definition memcpy :: "memory \<Rightarrow> uint64 \<Rightarrow> uint64 \<Rightarrow> nat \<Rightarrow> memory" where
  "memcpy m dst src n = memmove m dst src n"

section \<open>String operations\<close>

type_synonym ptr = "nat \<Rightarrow> uint8"

text \<open>The pointer to a string constant or a stored name: the bytes, then NULs.\<close>

definition cstr :: "bytes \<Rightarrow> ptr" where
  "cstr xs = (\<lambda>i. if i < length xs then xs ! i else 0)"

fun strncmp :: "ptr \<Rightarrow> ptr \<Rightarrow> nat \<Rightarrow> int" where
  "strncmp p q 0 = 0"
| "strncmp p q (Suc n) =
     (if p 0 \<noteq> 0 \<and> p 0 = q 0 then strncmp (p \<circ> Suc) (q \<circ> Suc) n
      else uint (p 0) - uint (q 0))"

fun strncpy_pad :: "ptr \<Rightarrow> nat \<Rightarrow> nat \<Rightarrow> ptr" where
  "strncpy_pad s i 0 = s"
| "strncpy_pad s i (Suc n) = strncpy_pad (s(i := 0)) (Suc i) n"

fun strncpy_loop :: "ptr \<Rightarrow> nat \<Rightarrow> ptr \<Rightarrow> nat \<Rightarrow> ptr" where
  "strncpy_loop s i t 0 = s"
| "strncpy_loop s i t (Suc n) =
     (if t i \<noteq> 0 then strncpy_loop (s(i := t i)) (Suc i) t n
      else strncpy_pad (s(i := t i)) (Suc i) n)"

definition strncpy :: "ptr \<Rightarrow> ptr \<Rightarrow> int \<Rightarrow> ptr" where
  "strncpy s t n = strncpy_loop s 0 t (nat n)"

fun safestrcpy_loop :: "ptr \<Rightarrow> nat \<Rightarrow> ptr \<Rightarrow> nat \<Rightarrow> ptr" where
  "safestrcpy_loop s i t 0 = s(i := 0)"
| "safestrcpy_loop s i t (Suc n) =
     (if t i \<noteq> 0 then safestrcpy_loop (s(i := t i)) (Suc i) t n
      else s(i := t i, Suc i := 0))"

definition safestrcpy :: "ptr \<Rightarrow> ptr \<Rightarrow> int \<Rightarrow> ptr" where
  "safestrcpy s t n = (if n \<le> 0 then s else safestrcpy_loop s 0 t (nat n - 1))"

text \<open>The scan for the terminator need not end; not ending is \<open>None\<close>.\<close>

partial_function (option) strlen_loop :: "ptr \<Rightarrow> nat \<Rightarrow> nat option" where
  "strlen_loop s n = (if s n \<noteq> 0 then strlen_loop s (Suc n) else Some n)"

definition strlen :: "ptr \<Rightarrow> nat option" where
  "strlen s = strlen_loop s 0"

section \<open>Closed forms of the block operations\<close>

lemma memset_loop_eq:
  assumes "i \<le> n" and "n \<le> 2 ^ 64"
  shows "memset_loop m d c i n =
    (\<lambda>x. if i \<le> unat (x - d) \<and> unat (x - d) < n then c else m x)"
  using assms
proof (induction m d c i n rule: memset_loop.induct)
  case (1 m d c i n)
  show ?case
  proof (cases "i < n")
    case False
    with 1 show ?thesis by (subst memset_loop.simps) (auto simp: fun_eq_iff)
  next
    case True
    have off: "x = d + of_nat i \<longleftrightarrow> unat (x - d) = i" for x
      using True 1(3) by (intro offset_unique) simp
    have "memset_loop (m(d + of_nat i := c)) d c (Suc i) n =
        (\<lambda>x. if Suc i \<le> unat (x - d) \<and> unat (x - d) < n then c else (m(d + of_nat i := c)) x)"
      using 1 True by (simp add: fun_upd_def)
    then show ?thesis
      by (subst memset_loop.simps) (auto simp: True fun_eq_iff off Suc_le_eq)
  qed
qed

lemma memset_eq: "n \<le> 2 ^ 64 \<Longrightarrow> memset m d c n = mem_write m d (replicate n (ucast c))"
  by (auto simp: memset_def memset_loop_eq mem_write_def fun_eq_iff)

lemma memmove_up_eq:
  assumes "unat d + n < 2 ^ 64" and "unat s + n < 2 ^ 64" and "s \<ge> d \<or> unat s + n \<le> unat d"
  shows "memmove_up m d s n = mem_write m d (mem_read m s n)"
  using assms
proof (induction n arbitrary: m d s)
  case 0
  then show ?case by simp
next
  case (Suc n)
  have d1: "unat (d + 1) = unat d + 1" and s1: "unat (s + 1) = unat s + 1"
    using Suc.prems unat_add_of_nat64 [of d 1] unat_add_of_nat64 [of s 1] by simp_all
  have IH: "memmove_up (m(d := m s)) (d + 1) (s + 1) n =
      mem_write (m(d := m s)) (d + 1) (mem_read (m(d := m s)) (s + 1) n)"
    using Suc.prems d1 s1 by (intro Suc.IH) (auto simp: word_le_nat_alt)
  have nd: "s + 1 + of_nat i \<noteq> d" if "i < n" for i
  proof
    assume "s + 1 + of_nat i = d"
    moreover have "unat (s + 1 + of_nat i) = unat s + 1 + i"
      using Suc.prems that s1 unat_add_of_nat64 [of "s + 1" i] by simp
    ultimately show False using Suc.prems(3) that by (auto simp: word_le_nat_alt)
  qed
  have rd: "mem_read (m(d := m s)) (s + 1) n = mem_read m (s + 1) n"
    by (intro nth_equalityI) (use nd in auto)
  have "mem_write (m(d := m s)) (d + 1) (mem_read m (s + 1) n) x =
      mem_write m d (mem_read m s (Suc n)) x" for x
  proof (cases "unat (x - d)")
    case 0
    then have "x = d" by (simp add: unat_eq_zero)
    moreover have "unat (d - (d + 1)) = 2 ^ 64 - 1"
      by (simp add: unsigned_minus_1_eq_mask mask_eq_exp_minus_1)
    ultimately show ?thesis using Suc.prems by (simp add: mem_write_def)
  next
    case (Suc k)
    have "x - (d + 1) = x - d - 1" by simp
    then have "unat (x - (d + 1)) = k" using Suc by (metis Suc_eq_plus1 add_diff_cancel_right' unat_minus_one unat_eq_zero nat.distinct(1) unsigned_0)
    moreover have "x \<noteq> d" using Suc by auto
    moreover have "s + 1 + of_nat k = s + of_nat (Suc k)" by simp
    ultimately show ?thesis using Suc by (auto simp: mem_write_def)
  qed
  then show ?case using IH rd by auto
qed

lemma memmove_down_eq:
  assumes "unat d + n < 2 ^ 64" and "unat s + n < 2 ^ 64" and "s \<le> d"
  shows "memmove_down m (d + of_nat n) (s + of_nat n) n = mem_write m d (mem_read m s n)"
  using assms
proof (induction n arbitrary: m)
  case 0
  then show ?case by simp
next
  case (Suc n)
  have sh: "d + of_nat (Suc n) - 1 = d + of_nat n" "s + of_nat (Suc n) - 1 = s + of_nat n" by simp_all
  define m' where "m' = m(d + of_nat n := m (s + of_nat n))"
  have IH: "memmove_down m' (d + of_nat n) (s + of_nat n) n = mem_write m' d (mem_read m' s n)"
    using Suc.prems by (intro Suc.IH) auto
  have un: "unat (d + of_nat n) = unat d + n"
    using Suc.prems by (intro unat_add_of_nat64) simp
  have "s + of_nat i \<noteq> d + of_nat n" if "i < n" for i
    using Suc.prems that un unat_add_of_nat64 [of s i] by (auto simp: word_le_nat_alt)
  then have rd: "mem_read m' s n = mem_read m s n"
    by (intro nth_equalityI) (auto simp: m'_def)
  have off: "x = d + of_nat n \<longleftrightarrow> unat (x - d) = n" for x
    using Suc.prems by (intro offset_unique) simp
  have "mem_write m' d (mem_read m s n) = mem_write m d (mem_read m s (Suc n))"
    by (auto simp: mem_write_def fun_eq_iff m'_def off less_Suc_eq)
  then show ?case using IH rd by (simp add: sh m'_def del: of_nat_Suc)
qed

text \<open>\<open>memmove\<close> copies the source as it was, whether or not the blocks overlap.\<close>

lemma memmove_eq:
  assumes "unat d + n < 2 ^ 64" and "unat s + n < 2 ^ 64"
  shows "memmove m d s n = mem_write m d (mem_read m s n)"
proof -
  have "unat (s + of_nat n) = unat s + n" using assms by (intro unat_add_of_nat64)
  then have "d < s + of_nat n \<longleftrightarrow> unat d < unat s + n" by (simp add: word_less_nat_alt)
  then show ?thesis
    using assms memmove_up_eq [of d n s m] memmove_down_eq [of d n s m]
    by (auto simp: memmove_def word_less_nat_alt word_le_nat_alt)
qed

lemma memcmp_eq: "n \<le> 2 ^ 64 \<Longrightarrow> memcmp m a b n = 0 \<longleftrightarrow> mem_read m a n = mem_read m b n"
proof (induction n arbitrary: a b)
  case 0
  then show ?case by (simp add: mem_read_def)
next
  case (Suc n)
  then show ?case by (auto simp: mem_read_Suc word_uint_eq_iff)
qed

section \<open>String operations\<close>

lemma strncmp_eq_0:
  "strncmp p q n = 0 \<longleftrightarrow> (\<forall>i < n. (\<forall>j < i. p j \<noteq> 0) \<longrightarrow> p i = q i)"
proof (induction p q n rule: strncmp.induct)
  case (1 p q)
  then show ?case by simp
next
  case (2 p q n)
  show ?case
  proof (cases "p 0 \<noteq> 0 \<and> p 0 = q 0")
    case True
    have "(\<forall>i < Suc n. (\<forall>j < i. p j \<noteq> 0) \<longrightarrow> p i = q i) \<longleftrightarrow>
        (\<forall>i < n. (\<forall>j < i. p (Suc j) \<noteq> 0) \<longrightarrow> p (Suc i) = q (Suc i))"
      using True by (auto simp: All_less_Suc2)
    with True 2 show ?thesis by (auto simp: comp_def)
  next
    case False
    then have "strncmp p q (Suc n) = 0 \<longleftrightarrow> p 0 = q 0"
      by (auto simp: word_uint_eq_iff)
    moreover have "p 0 = q 0 \<Longrightarrow> p 0 = 0" using False by auto
    ultimately show ?thesis by (auto simp: gr0_conv_Suc)
  qed
qed

lemma strncpy_pad_eq: "strncpy_pad s i n k = (if i \<le> k \<and> k < i + n then 0 else s k)"
  by (induction n arbitrary: s i) auto

lemma strncpy_loop_eq:
  "(\<forall>j < i. t j \<noteq> 0) \<Longrightarrow>
   strncpy_loop s i t n k =
     (if i \<le> k \<and> k < i + n then (if \<forall>j < k. t j \<noteq> 0 then t k else 0) else s k)"
proof (induction n arbitrary: s i)
  case 0
  then show ?case by auto
next
  case (Suc n)
  show ?case
  proof (cases "t i = 0")
    case True
    then have "i < k \<Longrightarrow> \<not> (\<forall>j < k. t j \<noteq> 0)" by auto
    with Suc.prems True show ?thesis
      by (cases k i rule: linorder_cases) (auto simp: strncpy_pad_eq)
  next
    case False
    with Suc.prems have "\<forall>j < Suc i. t j \<noteq> 0" by (simp add: less_Suc_eq)
    with False Suc.IH [of "Suc i" "s(i := t i)"] Suc.prems show ?thesis
      by (auto simp: fun_upd_def le_less_Suc_eq Suc_le_eq order_le_less)
  qed
qed

lemma strncpy_eq:
  "strncpy s t n k = (if int k < n then (if \<forall>j < k. t j \<noteq> 0 then t k else 0) else s k)"
  by (auto simp: strncpy_def strncpy_loop_eq zless_nat_eq_int_zless)

lemma safestrcpy_loop_eq:
  assumes "\<forall>j < i. t j \<noteq> 0"
  shows "\<exists>k \<le> i + n. i \<le> k \<and> safestrcpy_loop s i t n k = 0 \<and>
    (\<forall>j. i \<le> j \<and> j < k \<longrightarrow> safestrcpy_loop s i t n j = t j \<and> t j \<noteq> 0) \<and>
    (k < i + n \<longrightarrow> t k = 0) \<and>
    (\<forall>j. j < i \<or> i + n < j \<longrightarrow> safestrcpy_loop s i t n j = s j)"
  using assms
proof (induction n arbitrary: s i)
  case 0
  then show ?case by (intro exI [of _ i]) simp
next
  case (Suc n)
  show ?case
  proof (cases "t i = 0")
    case True
    then show ?thesis by (intro exI [of _ i]) auto
  next
    case False
    with Suc.prems have "\<forall>j < Suc i. t j \<noteq> 0" by (simp add: less_Suc_eq)
    from Suc.IH [OF this, of "s(i := t i)"] obtain k where k: "k \<le> Suc i + n" "Suc i \<le> k"
      "safestrcpy_loop (s(i := t i)) (Suc i) t n k = 0"
      "\<forall>j. Suc i \<le> j \<and> j < k \<longrightarrow>
         safestrcpy_loop (s(i := t i)) (Suc i) t n j = t j \<and> t j \<noteq> 0"
      "k < Suc i + n \<longrightarrow> t k = 0"
      "\<forall>j. j < Suc i \<or> Suc i + n < j \<longrightarrow>
         safestrcpy_loop (s(i := t i)) (Suc i) t n j = (s(i := t i)) j" by blast
    show ?thesis
    proof (intro exI [of _ k] conjI allI impI)
      fix j assume "i \<le> j \<and> j < k"
      then show "safestrcpy_loop s i t (Suc n) j = t j" and "t j \<noteq> 0"
        using False k(4,6) by (cases "j = i"; auto)+
    qed (use False k in auto)
  qed
qed

lemma strlen_loop_eq:
  "n \<le> k \<Longrightarrow> s k = 0 \<Longrightarrow> (\<forall>i. n \<le> i \<and> i < k \<longrightarrow> s i \<noteq> 0) \<Longrightarrow> strlen_loop s n = Some k"
proof (induction "k - n" arbitrary: n)
  case 0
  then show ?case by (subst strlen_loop.simps) simp
next
  case (Suc d)
  then show ?case by (subst strlen_loop.simps) (simp add: Suc_le_eq)
qed

lemma strlen_eq: "s k = 0 \<Longrightarrow> (\<forall>i < k. s i \<noteq> 0) \<Longrightarrow> strlen s = Some k"
  by (simp add: strlen_def strlen_loop_eq)

lemma strlen_cstr: "0 \<notin> set xs \<Longrightarrow> strlen (cstr xs) = Some (length xs)"
  by (rule strlen_eq) (auto simp: cstr_def dest: nth_mem)

section \<open>Properties\<close>

text \<open>C15: \<open>memmove\<close> leaves in the destination the bytes the source held before the call, even
  when source and destination overlap in either direction, and changes nothing else; the
  only requirement is that neither block runs past the top of the address space.\<close>

theorem memmove_overlap_safe:
  assumes "unat d + n < 2 ^ 64" and "unat s + n < 2 ^ 64"
  shows "mem_read (memmove m d s n) d n = mem_read m s n \<and>
    (\<forall>x. x \<notin> region d n \<longrightarrow> memmove m d s n x = m x)"
proof -
  have e: "memmove m d s n = mem_write m d (mem_read m s n)" using assms by (rule memmove_eq)
  have "n \<le> 2 ^ 64" using assms by simp
  then show ?thesis
    using mem_read_write_same [of "mem_read m s n" m d] by (auto simp: e mem_write_outside)
qed

theorem memmove_overlap_safe_witness:
  "mem_read (memmove (\<lambda>x. ucast x) 101 100 4) 101 4 = [100, 101, 102, 103]"
proof -
  have "mem_read (memmove (\<lambda>x. ucast x) 101 100 4) 101 4 = mem_read (\<lambda>x. ucast x) 100 4"
    using memmove_overlap_safe [of 101 4 100 "\<lambda>x. ucast x"] by simp
  then show ?thesis by (simp add: mem_read_def upt_rec)
qed


text \<open>C17: \<open>safestrcpy\<close> always terminates its destination within the \<open>n\<close> bytes it was given: some
  position below \<open>n\<close> holds NUL, everything before it is the source's text, the text is cut
  only when the source is too long, and no byte from \<open>n\<close> on is written.\<close>

theorem safestrcpy_terminates_string:
  assumes "0 < n"
  shows "\<exists>k < nat n. safestrcpy s t n k = 0 \<and>
    (\<forall>j < k. safestrcpy s t n j = t j \<and> t j \<noteq> 0) \<and> (Suc k < nat n \<longrightarrow> t k = 0) \<and>
    (\<forall>j \<ge> nat n. safestrcpy s t n j = s j)"
proof -
  define N where "N = nat n - 1"
  have N: "nat n = Suc N" using assms by (simp add: N_def)
  have e: "safestrcpy s t n = safestrcpy_loop s 0 t N" using assms by (simp add: safestrcpy_def N_def)
  from safestrcpy_loop_eq [of 0 t N s] show ?thesis
    unfolding e N by (auto simp: less_Suc_eq_le)
qed

theorem safestrcpy_terminates_string_witness:
  "\<exists>k < 3. safestrcpy (\<lambda>_. 7) (cstr [65, 66, 67, 68]) 3 k = 0"
  using safestrcpy_terminates_string [of 3 "\<lambda>_. 7" "cstr [65, 66, 67, 68]"] by auto

end
