(* ===== verification/Kalloc.thy ===== *)
theory Kalloc
  imports Riscv CString
begin

text \<open>
  The physical page allocator with copy-on-write reference counts, \<open>kernel/kalloc.c\<close>.
  The state holds the byte memory, the head of the free list (whose links are stored in the
  free pages themselves) and the array \<open>page_refcnt\<close>.  The invariant relates the linked list
  in memory to an abstract list of free pages; the locale \<open>page_alloc\<close> is the contract the
  virtual-memory code relies on, and it is interpreted on \<open>kalloc\<close> and \<open>kfree\<close>.
\<close>

section \<open>State and operations\<close>

text \<open>
  \<open>kern_end\<close> is the linker symbol \<open>end\<close>, the first address after the kernel.  A count is an
  \<open>int\<close>: it is at most the number of page-table entries that can point to one page.
\<close>

record kmem =
  pmem :: memory
  freelist :: uint64
  page_refcnt :: "uint64 \<Rightarrow> int"
  kern_end :: uint64

definition kfree :: "uint64 \<Rightarrow> 'a kmem_scheme \<Rightarrow> 'a kmem_scheme res" where
  "kfree pa s =
     (let i = pa div PGSIZE in
      if PHYSTOP div PGSIZE \<le> i then Inl (Fault ''page_refcnt'')
      else
        let s = (if 0 < page_refcnt s i
                 then s\<lparr>page_refcnt := (page_refcnt s)(i := page_refcnt s i - 1)\<rparr> else s) in
        if 0 < page_refcnt s i then Inr s
        else if pa mod PGSIZE \<noteq> 0 \<or> pa < kern_end s \<or> PHYSTOP \<le> pa then Inl (Panic ''kfree'')
        else
          let s = s\<lparr>pmem := memset (pmem s) pa 1 4096\<rparr>;
              s = s\<lparr>pmem := store64 (pmem s) pa (freelist s)\<rparr> in
          Inr (s\<lparr>freelist := pa\<rparr>))"

definition kalloc :: "'a kmem_scheme \<Rightarrow> uint64 \<times> 'a kmem_scheme" where
  "kalloc s =
     (let r = freelist s;
          s = (if r \<noteq> 0 then s\<lparr>freelist := load64 (pmem s) r\<rparr> else s);
          s = (if r \<noteq> 0 then s\<lparr>pmem := memset (pmem s) r 5 4096\<rparr> else s);
          s = s\<lparr>page_refcnt := (page_refcnt s)(r div PGSIZE := 1)\<rparr>
      in (r, s))"

lemma kfree_Inr_below: "kfree pa s = Inr s' \<Longrightarrow> pa < PHYSTOP"
  by (auto simp: kfree_def Let_def PHYSTOP_eq word_less_nat_alt word_le_nat_alt unat_div
      split: if_splits)

function freerange_loop :: "uint64 \<Rightarrow> uint64 \<Rightarrow> 'a kmem_scheme \<Rightarrow> 'a kmem_scheme res" where
  "freerange_loop p pa_end s =
     (if p + PGSIZE \<le> pa_end
      then rbind (kfree p s) (\<lambda>s. freerange_loop (p + PGSIZE) pa_end s)
      else Inr s)"
  by pat_completeness auto
termination
proof (relation "measure (\<lambda>(p, e, s). unat e - unat p)", simp, clarsimp)
  fix p e :: uint64 and s s' :: "'a kmem_scheme"
  assume le: "p + 4096 \<le> e" and "kfree p s = Inr s'"
  then have "unat p < 2281701376"
    by (auto dest!: kfree_Inr_below simp: PHYSTOP_eq word_less_nat_alt)
  then have "unat (p + 4096) = unat p + 4096"
    using unat_add_of_nat64 [of p 4096] by simp
  then show "unat e - unat (p + 4096) < unat e - unat p"
    using le by (simp add: word_le_nat_alt)
qed

declare freerange_loop.simps [simp del]

definition freerange :: "uint64 \<Rightarrow> uint64 \<Rightarrow> 'a kmem_scheme \<Rightarrow> 'a kmem_scheme res" where
  "freerange pa_start pa_end s = freerange_loop (PGROUNDUP pa_start) pa_end s"

definition kinit :: "'a kmem_scheme \<Rightarrow> 'a kmem_scheme res" where
  "kinit s = freerange (kern_end s) PHYSTOP s"

section \<open>The free list in memory\<close>

fun flist :: "memory \<Rightarrow> uint64 \<Rightarrow> uint64 list \<Rightarrow> bool" where
  "flist m p [] = (p = 0)"
| "flist m p (q # qs) = (p = q \<and> q \<noteq> 0 \<and> flist m (load64 m q) qs)"

definition ram_page :: "'a kmem_scheme \<Rightarrow> uint64 \<Rightarrow> bool" where
  "ram_page s p \<longleftrightarrow> page_aligned p \<and> kern_end s \<le> p \<and> p < PHYSTOP"

text \<open>The invariant: the links spell out \<open>fl\<close>, whose pages are distinct RAM pages of count
  zero, and no count is negative.\<close>

definition kmem_inv :: "'a kmem_scheme \<Rightarrow> uint64 list \<Rightarrow> bool" where
  "kmem_inv s fl \<longleftrightarrow> flist (pmem s) (freelist s) fl \<and> distinct fl \<and>
     (\<forall>p \<in> set fl. ram_page s p \<and> page_refcnt s (p div PGSIZE) = 0) \<and>
     PGSIZE \<le> kern_end s \<and> (\<forall>i. 0 \<le> page_refcnt s i)"

lemma region_sub: "n \<le> k \<Longrightarrow> region a n \<subseteq> region a k"
  by (auto simp: region_def)

lemma flist_cong:
  "(\<And>p x. p \<in> set fl \<Longrightarrow> x \<in> region p 8 \<Longrightarrow> m x = m' x) \<Longrightarrow> flist m q fl = flist m' q fl"
proof (induction fl arbitrary: q)
  case Nil
  then show ?case by simp
next
  case (Cons a fl)
  have "load64 m a = load64 m' a"
    by (rule load64_cong) (rule Cons.prems [of a], simp_all)
  with Cons show ?case by auto
qed

text \<open>Writes that stay inside one page do not disturb a list of other pages.\<close>

lemma flist_other_page:
  assumes "\<And>x. x \<notin> region a 4096 \<Longrightarrow> m x = m' x"
    and "page_aligned a" and "\<forall>p \<in> set fl. page_aligned p" and "a \<notin> set fl"
  shows "flist m q fl = flist m' q fl"
proof (rule flist_cong)
  fix p x assume p: "p \<in> set fl" and x: "x \<in> region p 8"
  have "p \<noteq> a" using p assms(4) by auto
  then have "region p 4096 \<inter> region a 4096 = {}"
    using p assms(2,3) by (intro pages_disjoint) auto
  moreover have "x \<in> region p 4096" using x region_sub [of 8 4096 p] by auto
  ultimately show "m x = m' x" using assms(1) by auto
qed

lemma page_index_inj:
  "page_aligned p \<Longrightarrow> page_aligned q \<Longrightarrow> p div PGSIZE = q div PGSIZE \<longleftrightarrow> p = q"
proof
  assume "page_aligned p" "page_aligned q" "p div PGSIZE = q div PGSIZE"
  then have "unat p mod 4096 = 0" "unat q mod 4096 = 0" "unat p div 4096 = unat q div 4096"
    by (auto simp: page_aligned_unat word_unat_eq_iff unat_div)
  then show "p = q" by (metis add.right_neutral div_mult_mod_eq word_unat_eq_iff)
qed simp

lemma ram_page_index: "ram_page s p \<Longrightarrow> p div PGSIZE < PHYSTOP div PGSIZE"
  by (auto simp: ram_page_def PHYSTOP_eq word_less_nat_alt unat_div page_aligned_unat)

lemma ram_page_nonzero: "PGSIZE \<le> kern_end s \<Longrightarrow> ram_page s p \<Longrightarrow> p \<noteq> 0 \<and> p div PGSIZE \<noteq> 0"
  by (auto simp: ram_page_def word_le_nat_alt word_unat_eq_iff unat_div div_eq_0_iff)

lemma memset_page_outside: "x \<notin> region a 4096 \<Longrightarrow> memset m a c 4096 x = m x"
  by (simp add: memset_eq mem_write_outside)

lemma memset_page_inside: "x \<in> region a 4096 \<Longrightarrow> memset m a c 4096 x = ucast c"
  by (simp add: memset_eq mem_write_inside in_region)

lemma memset_page_read: "mem_read (memset m a c 4096) a 4096 = replicate 4096 (ucast c)"
  using mem_read_write_same [of "replicate 4096 (ucast c)" m a] by (simp add: memset_eq)

section \<open>Allocation\<close>

lemma kalloc_empty:
  assumes "kmem_inv s []"
  shows "kalloc s = (0, s\<lparr>page_refcnt := (page_refcnt s)(0 := 1)\<rparr>)"
    and "kmem_inv (snd (kalloc s)) []"
  using assms by (auto simp: kalloc_def kmem_inv_def Let_def)

lemma kalloc_page:
  assumes inv: "kmem_inv s (p # ps)"
  defines "s' \<equiv> snd (kalloc s)"
  shows "fst (kalloc s) = p" and "kmem_inv s' ps" and "ram_page s p" and "p \<notin> set ps"
    and "page_refcnt s' = (page_refcnt s)(p div PGSIZE := 1)"
    and "\<And>x. x \<notin> region p 4096 \<Longrightarrow> pmem s' x = pmem s x"
    and "mem_read (pmem s') p 4096 = replicate 4096 5" and "kern_end s' = kern_end s"
proof -
  from inv have p: "freelist s = p" "p \<noteq> 0" "flist (pmem s) (load64 (pmem s) p) ps"
    "p \<notin> set ps" "distinct ps" "ram_page s p" "\<forall>q \<in> set ps. ram_page s q"
    by (auto simp: kmem_inv_def)
  have s': "s' = s\<lparr>freelist := load64 (pmem s) p, pmem := memset (pmem s) p 5 4096,
      page_refcnt := (page_refcnt s)(p div PGSIZE := 1)\<rparr>"
    using p by (simp add: s'_def kalloc_def Let_def)
  show "fst (kalloc s) = p" by (simp add: kalloc_def p Let_def)
  show "ram_page s p" "p \<notin> set ps" by fact+
  show "page_refcnt s' = (page_refcnt s)(p div PGSIZE := 1)" by (simp add: s')
  show "pmem s' x = pmem s x" if "x \<notin> region p 4096" for x
    using that by (simp add: s' memset_page_outside)
  show "mem_read (pmem s') p 4096 = replicate 4096 5" by (simp add: s' memset_page_read)
  show "kern_end s' = kern_end s" by (simp add: s')
  have al: "page_aligned p" "\<forall>q \<in> set ps. page_aligned q" using p by (auto simp: ram_page_def)
  have "flist (pmem s') (load64 (pmem s) p) ps = flist (pmem s) (load64 (pmem s) p) ps"
    by (rule flist_other_page [of p]) (use al p in \<open>auto simp: s' memset_page_outside\<close>)
  moreover have "page_refcnt s' (q div PGSIZE) = 0" if "q \<in> set ps" for q
    using that al p inv page_index_inj [of q p] by (auto simp: s' kmem_inv_def)
  ultimately show "kmem_inv s' ps"
    using inv p by (auto simp: kmem_inv_def s' ram_page_def)
qed

section \<open>Freeing\<close>

lemma kfree_shared:
  assumes "1 < page_refcnt s (pa div PGSIZE)" and "pa div PGSIZE < PHYSTOP div PGSIZE"
  shows "kfree pa s =
    Inr (s\<lparr>page_refcnt := (page_refcnt s)(pa div PGSIZE := page_refcnt s (pa div PGSIZE) - 1)\<rparr>)"
  using assms by (simp add: kfree_def Let_def)

lemma kfree_last:
  assumes "page_refcnt s (pa div PGSIZE) \<in> {0, 1}" and "ram_page s pa"
  shows "kfree pa s = Inr (s\<lparr>page_refcnt := (page_refcnt s)(pa div PGSIZE := 0),
    pmem := store64 (memset (pmem s) pa 1 4096) pa (freelist s), freelist := pa\<rparr>)"
proof -
  have ok: "pa mod PGSIZE = 0" "\<not> pa < kern_end s" "\<not> PHYSTOP \<le> pa"
    using assms(2) by (auto simp: ram_page_def page_aligned_def)
  show ?thesis
  proof (cases "page_refcnt s (pa div PGSIZE) = 0")
    case True
    then have "(page_refcnt s)(pa div PGSIZE := 0) = page_refcnt s" by (metis fun_upd_triv)
    with True ok ram_page_index [OF assms(2)] show ?thesis by (simp add: kfree_def Let_def)
  next
    case False
    with assms(1) have "page_refcnt s (pa div PGSIZE) = 1" by simp
    with ok ram_page_index [OF assms(2)] show ?thesis by (simp add: kfree_def Let_def)
  qed
qed

lemma kfree_panics:
  assumes "page_refcnt s (pa div PGSIZE) \<le> 1" and "pa div PGSIZE < PHYSTOP div PGSIZE"
    and "\<not> ram_page s pa"
  shows "kfree pa s = Inl (Panic ''kfree'')"
  using assms by (auto simp: kfree_def Let_def ram_page_def page_aligned_def)

lemma kfree_last_inv:
  assumes inv: "kmem_inv s fl" and "ram_page s p" and "p \<notin> set fl"
    and "page_refcnt s (p div PGSIZE) \<in> {0, 1}"
  shows "\<exists>s'. kfree p s = Inr s' \<and> kmem_inv s' (p # fl) \<and> freelist s' = p \<and>
    page_refcnt s' = (page_refcnt s)(p div PGSIZE := 0) \<and> kern_end s' = kern_end s \<and>
    (\<forall>x. x \<notin> region p 4096 \<longrightarrow> pmem s' x = pmem s x)"
proof -
  let ?m = "store64 (memset (pmem s) p 1 4096) p (freelist s)"
  let ?s = "s\<lparr>page_refcnt := (page_refcnt s)(p div PGSIZE := 0), pmem := ?m, freelist := p\<rparr>"
  have p: "page_aligned p" using assms(2) by (simp add: ram_page_def)
  have out: "?m x = pmem s x" if "x \<notin> region p 4096" for x
  proof -
    have "x \<notin> region p 8" using that region_sub [of 8 4096 p] by auto
    then show ?thesis using that by (simp add: store64_outside memset_page_outside)
  qed
  have "flist ?m (freelist s) fl = flist (pmem s) (freelist s) fl"
    by (rule flist_other_page [of p]) (use assms p out in \<open>auto simp: kmem_inv_def ram_page_def\<close>)
  then have "kmem_inv ?s (p # fl)"
    using inv assms ram_page_nonzero [of s p]
    by (auto simp: kmem_inv_def ram_page_def)
  then show ?thesis using kfree_last [OF assms(4,2)] out by auto
qed

lemma kfree_shared_inv:
  assumes "kmem_inv s fl" and "1 < page_refcnt s (p div PGSIZE)" and "ram_page s p"
  shows "\<exists>s'. kfree p s = Inr s' \<and> kmem_inv s' fl \<and> pmem s' = pmem s \<and>
    freelist s' = freelist s \<and> kern_end s' = kern_end s \<and>
    page_refcnt s' = (page_refcnt s)(p div PGSIZE := page_refcnt s (p div PGSIZE) - 1)"
proof -
  have "page_refcnt s (q div PGSIZE) = 0" if "q \<in> set fl" for q
    using assms(1) that by (auto simp: kmem_inv_def)
  then have ne: "q div PGSIZE \<noteq> p div PGSIZE" if "q \<in> set fl" for q using assms(2) that by force
  let ?s = "s\<lparr>page_refcnt := (page_refcnt s)(p div PGSIZE := page_refcnt s (p div PGSIZE) - 1)\<rparr>"
  have "kmem_inv ?s fl" using assms ne by (auto simp: kmem_inv_def ram_page_def)
  then show ?thesis using kfree_shared [OF assms(2) ram_page_index [OF assms(3)]] by auto
qed

section \<open>Initialisation\<close>

lemma page_step:
  assumes "page_aligned p" and "p < PHYSTOP"
  shows "unat (p + 4096) = unat p + 4096" and "page_aligned (p + 4096)" and "p + 4096 \<le> PHYSTOP"
    and "\<And>q. page_aligned q \<Longrightarrow> p + 4096 \<le> q \<longleftrightarrow> p \<le> q \<and> q \<noteq> p"
proof -
  have b: "unat p < 2281701376" using assms(2) by (simp add: PHYSTOP_eq word_less_nat_alt)
  show u: "unat (p + 4096) = unat p + 4096" using b unat_add_of_nat64 [of p 4096] by simp
  show "page_aligned (p + 4096)" using assms(1) by (simp add: page_aligned_unat u)
  from assms(1) obtain k where k: "unat p = k * 4096"
    by (auto simp: page_aligned_unat mod_eq_0_iff_dvd elim!: dvdE)
  show "p + 4096 \<le> PHYSTOP" using b k by (simp add: PHYSTOP_eq word_le_nat_alt u)
  fix q assume "page_aligned q"
  then obtain j where "unat q = j * 4096"
    by (auto simp: page_aligned_unat mod_eq_0_iff_dvd elim!: dvdE)
  then show "p + 4096 \<le> q \<longleftrightarrow> p \<le> q \<and> q \<noteq> p"
    using k by (auto simp: word_le_nat_alt u word_unat_eq_iff)
qed

lemma freerange_loop_frees:
  assumes "kmem_inv s fl" and "page_aligned p" and "kern_end s \<le> p" and "p \<le> PHYSTOP"
    and "\<forall>q \<in> set fl. q < p" and "\<forall>q. ram_page s q \<and> p \<le> q \<longrightarrow> page_refcnt s (q div PGSIZE) = 0"
  shows "\<exists>s' fl'. freerange_loop p PHYSTOP s = Inr s' \<and> kmem_inv s' fl' \<and> kern_end s' = kern_end s \<and>
    set fl' = set fl \<union> {q. ram_page s q \<and> p \<le> q}"
  using assms
proof (induction "unat PHYSTOP - unat p" arbitrary: p s fl rule: less_induct)
  case less
  show ?case
  proof (cases "p < PHYSTOP")
    case False
    with less.prems(4) have p: "p = PHYSTOP" by simp
    then have "freerange_loop p PHYSTOP s = Inr s"
      by (subst freerange_loop.simps) (simp add: PHYSTOP_eq)
    moreover have "{q. ram_page s q \<and> p \<le> q} = {}" using p by (auto simp: ram_page_def)
    ultimately show ?thesis using less.prems(1) by auto
  next
    case True
    note st = page_step [OF less.prems(2) True]
    have ram: "ram_page s p" using less.prems True by (simp add: ram_page_def)
    have "p \<notin> set fl" using less.prems(5) by auto
    with kfree_last_inv [OF less.prems(1) ram] less.prems(6) ram
    obtain s1 where s1: "kfree p s = Inr s1" "kmem_inv s1 (p # fl)" "kern_end s1 = kern_end s"
      "page_refcnt s1 = (page_refcnt s)(p div PGSIZE := 0)" by auto
    have rp: "ram_page s1 = ram_page s" using s1(3) by (auto simp: ram_page_def fun_eq_iff)
    have "unat PHYSTOP - unat (p + 4096) < unat PHYSTOP - unat p"
      using True st(1) by (simp add: word_less_nat_alt)
    moreover have "kern_end s1 \<le> p + 4096" and below: "\<forall>q \<in> set (p # fl). q < p + 4096"
      using less.prems(3,5) s1(3) st(1) by (auto simp: word_le_nat_alt word_less_nat_alt)
    moreover have "page_refcnt s1 (q div PGSIZE) = 0" if "ram_page s1 q" "p + 4096 \<le> q" for q
    proof -
      have "page_aligned q" using that by (simp add: ram_page_def)
      then have "p \<le> q" using st(4) [of q] that by simp
      then show ?thesis using that less.prems(6) rp s1(4) by simp
    qed
    ultimately have "\<exists>s' fl'. freerange_loop (p + 4096) PHYSTOP s1 = Inr s' \<and> kmem_inv s' fl' \<and>
        kern_end s' = kern_end s1 \<and> set fl' = set (p # fl) \<union> {q. ram_page s1 q \<and> p + 4096 \<le> q}"
      using less.hyps [of "p + 4096" s1 "p # fl"] s1(2) st(2,3) by blast
    then obtain s' fl' where r: "freerange_loop (p + 4096) PHYSTOP s1 = Inr s'" "kmem_inv s' fl'"
      "kern_end s' = kern_end s" "set fl' = set (p # fl) \<union> {q. ram_page s q \<and> p + 4096 \<le> q}"
      using s1(3) rp by auto
    have "freerange_loop p PHYSTOP s = Inr s'"
      by (subst freerange_loop.simps) (use st(3) s1(1) r(1) in simp)
    moreover have "set fl' = set fl \<union> {q. ram_page s q \<and> p \<le> q}"
      using r(4) st(4) ram by (auto simp: ram_page_def)
    ultimately show ?thesis using r by blast
  qed
qed

section \<open>The allocator's contract\<close>

text \<open>
  What the virtual-memory code relies on: \<open>frees s fl\<close> says that \<open>fl\<close> are the pages that can
  still be handed out, \<open>refs s p\<close> counts the references to a page.
\<close>

locale page_alloc =
  fixes alloc :: "'s \<Rightarrow> uint64 \<times> 's" and dealloc :: "uint64 \<Rightarrow> 's \<Rightarrow> 's res"
    and frees :: "'s \<Rightarrow> uint64 list \<Rightarrow> bool" and refs :: "'s \<Rightarrow> uint64 \<Rightarrow> int"
    and page :: "'s \<Rightarrow> uint64 \<Rightarrow> bool"
  assumes alloc_none: "frees s [] \<Longrightarrow> fst (alloc s) = 0 \<and> frees (snd (alloc s)) []"
    and alloc_some: "frees s (p # ps) \<Longrightarrow>
      fst (alloc s) = p \<and> frees (snd (alloc s)) ps \<and> refs (snd (alloc s)) p = 1 \<and> p \<noteq> 0"
    and alloc_page: "page (snd (alloc s)) q = page s q"
    and alloc_other: "frees s (p # ps) \<Longrightarrow> page s q \<Longrightarrow> q \<noteq> p \<Longrightarrow> refs (snd (alloc s)) q = refs s q"
    and frees_page: "frees s fl \<Longrightarrow> q \<in> set fl \<Longrightarrow> page s q \<and> refs s q = 0"
    and frees_distinct: "frees s fl \<Longrightarrow> distinct fl"
    and dealloc_shared: "frees s fl \<Longrightarrow> page s p \<Longrightarrow> 1 < refs s p \<Longrightarrow>
      \<exists>s'. dealloc p s = Inr s' \<and> frees s' fl \<and> refs s' p = refs s p - 1 \<and> page s' = page s"
    and dealloc_last: "frees s fl \<Longrightarrow> page s p \<Longrightarrow> refs s p = 1 \<Longrightarrow>
      \<exists>s'. dealloc p s = Inr s' \<and> frees s' (p # fl) \<and> refs s' p = 0 \<and> page s' = page s"
begin

lemma alloc_fresh:
  assumes "frees s fl" and "fst (alloc s) \<noteq> 0"
  shows "page s (fst (alloc s)) \<and> refs s (fst (alloc s)) = 0 \<and> fst (alloc s) \<in> set fl"
  using assms alloc_none [of s] alloc_some [of s] frees_page [of s fl] by (cases fl) auto

lemma alloc_twice_distinct:
  assumes "frees s fl" and "fst (alloc s) \<noteq> 0" and "fst (alloc (snd (alloc s))) \<noteq> 0"
  shows "fst (alloc (snd (alloc s))) \<noteq> fst (alloc s)"
proof (cases fl)
  case Nil
  then show ?thesis using assms alloc_none by auto
next
  case (Cons p ps)
  then have "frees (snd (alloc s)) ps" "fst (alloc s) = p" using assms(1) alloc_some by auto
  then show ?thesis
    using alloc_fresh [of "snd (alloc s)" ps] assms(3) frees_distinct [OF assms(1)] Cons by auto
qed

text \<open>Freeing \<open>n\<close> times: a page with \<open>n\<close> references returns to the free list with the last.\<close>

fun dealloc_n :: "nat \<Rightarrow> uint64 \<Rightarrow> 's \<Rightarrow> 's res" where
  "dealloc_n 0 p s = Inr s"
| "dealloc_n (Suc n) p s = rbind (dealloc p s) (dealloc_n n p)"

lemma dealloc_n_frees:
  assumes "frees s fl" and "page s p" and "refs s p = int (Suc n)"
  shows "\<exists>s'. dealloc_n (Suc n) p s = Inr s' \<and> frees s' (p # fl) \<and> refs s' p = 0"
  using assms
proof (induction n arbitrary: s)
  case 0
  then show ?case using dealloc_last [of s fl p] by auto
next
  case (Suc n)
  then obtain s1 where "dealloc p s = Inr s1" "frees s1 fl" "refs s1 p = int (Suc n)" "page s1 = page s"
    using dealloc_shared [of s fl p] by auto
  with Suc.IH [of s1] Suc.prems show ?case by auto
qed

lemma dealloc_n_keeps:
  assumes "frees s fl" and "page s p" and "int n < refs s p"
  shows "\<exists>s'. dealloc_n n p s = Inr s' \<and> frees s' fl \<and> refs s' p = refs s p - int n"
  using assms
proof (induction n arbitrary: s)
  case 0
  then show ?case by simp
next
  case (Suc n)
  then obtain s1 where "dealloc p s = Inr s1" "frees s1 fl" "refs s1 p = refs s p - 1" "page s1 = page s"
    using dealloc_shared [of s fl p] by auto
  with Suc.IH [of s1] Suc.prems show ?case by auto
qed

end

interpretation kpages: page_alloc kalloc kfree kmem_inv "\<lambda>s p. page_refcnt s (p div PGSIZE)" ram_page
proof (unfold_locales, goal_cases)
  case (1 s)
  then show ?case using kalloc_empty [of s] by simp
next
  case (2 s p ps)
  then show ?case
    using kalloc_page(1,2,3,5) [of s p ps] ram_page_nonzero [of s p] by (simp add: kmem_inv_def)
next
  case (3 s q)
  then show ?case by (simp add: kalloc_def Let_def ram_page_def)
next
  case (4 s p ps q)
  then show ?case
    using kalloc_page(3,5) [of s p ps] page_index_inj [of q p] by (simp add: ram_page_def)
next
  case (5 s fl q)
  then show ?case by (simp add: kmem_inv_def)
next
  case (6 s fl)
  then show ?case by (simp add: kmem_inv_def)
next
  case (7 s fl p)
  then show ?case using kfree_shared_inv [of s fl p] by (auto simp: ram_page_def fun_eq_iff)
next
  case (8 s fl p)
  then have "p \<notin> set fl" by (auto simp: kmem_inv_def)
  with 8 show ?case using kfree_last_inv [of s fl p] by (auto simp: ram_page_def fun_eq_iff)
qed

section \<open>Properties\<close>

text \<open>The state in which \<open>main\<close> calls \<open>kinit\<close>: the kernel's data is zero.\<close>

definition boot_kmem :: "uint64 \<Rightarrow> kmem" where
  "boot_kmem e = \<lparr>pmem = (\<lambda>_. 0), freelist = 0, page_refcnt = (\<lambda>_. 0), kern_end = e\<rparr>"

lemma kinit_frees:
  assumes "freelist s = 0" and "\<forall>i. page_refcnt s i = 0"
    and "PGSIZE \<le> kern_end s" and "kern_end s \<le> PHYSTOP"
  shows "\<exists>s' fl. kinit s = Inr s' \<and> kmem_inv s' fl \<and> set fl = {p. ram_page s p} \<and> kern_end s' = kern_end s"
proof -
  have inv: "kmem_inv s []" using assms by (simp add: kmem_inv_def)
  have room: "unat (kern_end s) + 4095 < 2 ^ 64"
    using assms(4) by (simp add: PHYSTOP_eq word_le_nat_alt)
  have lo: "kern_end s \<le> PGROUNDUP (kern_end s)"
    using PGROUNDUP_le_iff [OF room, of "PGROUNDUP (kern_end s)"] by simp
  have "page_aligned PHYSTOP" by (simp add: page_aligned_def PHYSTOP_eq)
  then have hi: "PGROUNDUP (kern_end s) \<le> PHYSTOP"
    using PGROUNDUP_le_iff [OF room, of PHYSTOP] assms(4) by simp
  from freerange_loop_frees [OF inv page_aligned_PGROUNDUP lo hi] assms(2)
  obtain s' fl where r: "freerange_loop (PGROUNDUP (kern_end s)) PHYSTOP s = Inr s'" "kmem_inv s' fl"
    "set fl = {p. ram_page s p \<and> PGROUNDUP (kern_end s) \<le> p}" "kern_end s' = kern_end s" by auto
  have "ram_page s p \<Longrightarrow> PGROUNDUP (kern_end s) \<le> p" for p
    using PGROUNDUP_le_iff [OF room] by (simp add: ram_page_def)
  then show ?thesis using r unfolding kinit_def freerange_def by blast
qed

text \<open>C11: after \<open>kinit\<close> the free list links exactly the whole pages between the end of the kernel
  and \<open>PHYSTOP\<close>, each once, all with reference count zero, and \<open>kinit\<close> does not panic.\<close>

theorem kinit_frees_all_ram:
  assumes "freelist s = 0" and "\<forall>i. page_refcnt s i = 0"
    and "PGSIZE \<le> kern_end s" and "kern_end s \<le> PHYSTOP"
  shows "\<exists>s' fl. kinit s = Inr s' \<and> kmem_inv s' fl \<and> set fl = {p. ram_page s p}"
  using kinit_frees [OF assms] by blast

theorem kinit_frees_all_ram_witness:
  "\<exists>s' fl. kinit (boot_kmem 0x80022000) = Inr s' \<and> kmem_inv s' fl \<and>
    set fl = {p. ram_page (boot_kmem 0x80022000) p}"
  by (rule kinit_frees_all_ram) (simp_all add: boot_kmem_def PHYSTOP_eq)

text \<open>C12: \<open>kalloc\<close> takes the head of the free list: it returns a RAM page that no one references,
  gives it reference count one, fills it with the byte 5, keeps the invariant for the rest
  of the list, and touches no byte outside the page and no other count.\<close>

theorem kalloc_fresh_page:
  assumes "kmem_inv s (p # ps)"
  shows "\<exists>s'. kalloc s = (p, s') \<and> kmem_inv s' ps \<and> ram_page s p \<and> p \<notin> set ps \<and>
    page_refcnt s (p div PGSIZE) = 0 \<and> page_refcnt s' = (page_refcnt s)(p div PGSIZE := 1) \<and>
    mem_read (pmem s') p 4096 = replicate 4096 5 \<and>
    (\<forall>x. x \<notin> region p 4096 \<longrightarrow> pmem s' x = pmem s x)"
proof -
  have "kalloc s = (p, snd (kalloc s))" using kalloc_page(1) [OF assms] by (metis prod.collapse)
  moreover have "page_refcnt s (p div PGSIZE) = 0" using assms by (simp add: kmem_inv_def)
  ultimately show ?thesis using kalloc_page [OF assms] by blast
qed

text \<open>A state with the two free pages \<open>0x87fff000\<close> and \<open>0x87ffe000\<close>, for the witnesses.\<close>

definition two_pages :: kmem where
  "two_pages = \<lparr>pmem = store64 (store64 (\<lambda>_. 0) 0x87fff000 0x87ffe000) 0x87ffe000 0,
     freelist = 0x87fff000, page_refcnt = (\<lambda>_. 0), kern_end = 0x80022000\<rparr>"

lemma two_pages_inv: "kmem_inv two_pages [0x87fff000, 0x87ffe000]"
proof -
  have "region 0x87fff000 8 \<inter> region 0x87ffe000 8 = {}"
    using pages_disjoint [of "0x87fff000" "0x87ffe000"] region_sub [of 8 4096] 
    by (fastforce simp: page_aligned_def)
  then have "load64 (pmem two_pages) 0x87fff000 = 0x87ffe000"
    by (simp add: two_pages_def load64_store64_disjoint)
  moreover have "load64 (pmem two_pages) 0x87ffe000 = 0" by (simp add: two_pages_def)
  ultimately show ?thesis
    by (simp add: kmem_inv_def ram_page_def page_aligned_def PHYSTOP_eq)
      (simp add: two_pages_def)
qed

theorem kalloc_fresh_page_witness:
  "\<exists>s'. kalloc two_pages = (0x87fff000, s') \<and> kmem_inv s' [0x87ffe000]"
  using kalloc_fresh_page [OF two_pages_inv] by blast

text \<open>Freeing a page several times, as the processes that share it exit one after the other.\<close>

fun kfree_times :: "nat \<Rightarrow> uint64 \<Rightarrow> 'a kmem_scheme \<Rightarrow> 'a kmem_scheme res" where
  "kfree_times 0 pa s = Inr s"
| "kfree_times (Suc n) pa s = rbind (kfree pa s) (kfree_times n pa)"

lemma kfree_times_dealloc_n: "kfree_times n pa s = kpages.dealloc_n n pa s"
  by (induction n arbitrary: s) (auto intro!: rbind_cong)

text \<open>C13: reference counting is exact: a page referenced \<open>n\<close> times survives any smaller number of
  \<open>kfree\<close> calls without returning to the free list, and the \<open>n\<close>-th call puts it there with
  count zero.\<close>

theorem kfree_last_reference_frees:
  assumes "kmem_inv s fl" and "ram_page s p" and "page_refcnt s (p div PGSIZE) = int (Suc n)"
  shows "(\<forall>k \<le> n. \<exists>s'. kfree_times k p s = Inr s' \<and> kmem_inv s' fl \<and>
            page_refcnt s' (p div PGSIZE) = int (Suc n - k)) \<and>
         (\<exists>s'. kfree_times (Suc n) p s = Inr s' \<and> kmem_inv s' (p # fl) \<and>
            page_refcnt s' (p div PGSIZE) = 0)"
proof -
  have "\<exists>s'. kfree_times k p s = Inr s' \<and> kmem_inv s' fl \<and>
      page_refcnt s' (p div PGSIZE) = int (Suc n - k)" if "k \<le> n" for k
    using kpages.dealloc_n_keeps [OF assms(1,2), of k] assms(3) that
    by (simp add: kfree_times_dealloc_n of_nat_diff del: kfree_times.simps kpages.dealloc_n.simps)
  then show ?thesis
    using kpages.dealloc_n_frees [OF assms] by (simp only: kfree_times_dealloc_n) blast
qed

theorem kfree_last_reference_frees_witness:
  "\<exists>s'. kfree_times 2 0x80100000 (two_pages\<lparr>page_refcnt := (\<lambda>_. 0)(0x80100 := 2)\<rparr>) = Inr s' \<and>
    kmem_inv s' [0x80100000, 0x87fff000, 0x87ffe000]"
proof -
  let ?s = "two_pages\<lparr>page_refcnt := (\<lambda>_. 0)(0x80100 := 2)\<rparr>"
  have inv: "kmem_inv ?s [0x87fff000, 0x87ffe000]"
    using two_pages_inv by (auto simp: kmem_inv_def ram_page_def)
  have "ram_page ?s 0x80100000"
    by (simp add: ram_page_def two_pages_def page_aligned_def PHYSTOP_eq)
  moreover have "page_refcnt ?s (0x80100000 div PGSIZE) = int (Suc 1)" by simp
  ultimately show ?thesis using kfree_last_reference_frees [OF inv, of _ 1] unfolding Suc_1 by blast
qed

text \<open>C14: freeing an address that is not a page of RAM above the kernel, and that no reference
  count protects, panics and never enters the free list.\<close>

theorem kfree_rejects_bad_page:
  assumes "pa < PHYSTOP" and "\<not> ram_page s pa" and "page_refcnt s (pa div PGSIZE) \<le> 1"
  shows "kfree pa s = Inl (Panic ''kfree'')"
proof -
  have "pa div PGSIZE < PHYSTOP div PGSIZE"
  proof -
    have "unat pa < 557056 * 4096" using assms(1) by (simp add: PHYSTOP_eq word_less_nat_alt)
    then have "unat pa div 4096 < 557056" by (simp add: div_less_iff_less_mult)
    then show ?thesis by (simp add: PHYSTOP_eq word_less_nat_alt unat_div)
  qed
  then show ?thesis using assms by (intro kfree_panics)
qed

theorem kfree_rejects_bad_page_witness: "kfree 0x80000000 two_pages = Inl (Panic ''kfree'')"
  by (rule kfree_rejects_bad_page) (simp_all add: PHYSTOP_eq ram_page_def two_pages_def)

end
