(* ===== verification/Vm.thy ===== *)
theory Vm
  imports Kalloc
begin

text \<open>
  Page tables and user memory, \<open>kernel/vm.c\<close>: the Sv39 walk, mapping and unmapping, growing
  and shrinking a process, the copy-on-write sharing of \<open>uvmcopy\<close>, the release of page tables,
  and the copies between kernel and user space.  Page tables live in the byte memory: a table is
  a page of 512 little-endian entries, exactly as the hardware reads it.
\<close>

section \<open>Walking a page table\<close>

definition pte_addr :: "uint64 \<Rightarrow> nat \<Rightarrow> uint64 \<Rightarrow> uint64" where
  "pte_addr pagetable level va = pagetable + 8 * PX level va"

fun walk_loop :: "nat \<Rightarrow> uint64 \<Rightarrow> uint64 \<Rightarrow> bool \<Rightarrow> 'a kmem_scheme \<Rightarrow> uint64 \<times> 'a kmem_scheme" where
  "walk_loop 0 pagetable va alloc s = (pte_addr pagetable 0 va, s)"
| "walk_loop (Suc l) pagetable va alloc s =
     (let pte = pte_addr pagetable (Suc l) va in
      if load64 (pmem s) pte AND PTE_V \<noteq> 0
      then walk_loop l (PTE2PA (load64 (pmem s) pte)) va alloc s
      else if \<not> alloc then (0, s)
      else
        let (pg, s) = kalloc s in
        if pg = 0 then (0, s)
        else
          let s = s\<lparr>pmem := memset (pmem s) pg 0 4096\<rparr>;
              s = s\<lparr>pmem := store64 (pmem s) pte (PA2PTE pg OR PTE_V)\<rparr> in
          walk_loop l pg va alloc s)"

definition walk :: "uint64 \<Rightarrow> uint64 \<Rightarrow> bool \<Rightarrow> 'a kmem_scheme \<Rightarrow> (uint64 \<times> 'a kmem_scheme) res" where
  "walk pagetable va alloc s =
     (if MAXVA \<le> va then Inl (Panic ''walk'') else Inr (walk_loop 2 pagetable va alloc s))"

definition walkaddr :: "uint64 \<Rightarrow> uint64 \<Rightarrow> 'a kmem_scheme \<Rightarrow> uint64 res" where
  "walkaddr pagetable va s =
     (if MAXVA \<le> va then Inr 0
      else rbind (walk pagetable va False s) (\<lambda>(pte, s).
        if pte = 0 then Inr 0
        else if load64 (pmem s) pte AND PTE_V = 0 then Inr 0
        else if load64 (pmem s) pte AND PTE_U = 0 then Inr 0
        else Inr (PTE2PA (load64 (pmem s) pte))))"

lemma walk_Inr: "walk pagetable va alloc s = Inr r \<Longrightarrow> va < MAXVA"
  by (simp add: walk_def not_le split: if_splits)

lemma below_MAXVA_step: "a < MAXVA \<Longrightarrow> unat (a + 4096) = unat a + 4096"
  using unat_add_of_nat64 [of a 4096] by (simp add: MAXVA_eq word_less_nat_alt)

section \<open>Mapping\<close>

text \<open>
  The loop stops because \<open>walk\<close> panics at \<open>MAXVA\<close>; the measure is the distance to it.
\<close>

function mappages_loop ::
  "uint64 \<Rightarrow> uint64 \<Rightarrow> uint64 \<Rightarrow> uint64 \<Rightarrow> uint64 \<Rightarrow> 'a kmem_scheme \<Rightarrow> (int \<times> 'a kmem_scheme) res"
  where
  "mappages_loop pagetable a lst pa perm s =
     rbind (walk pagetable a True s) (\<lambda>(pte, s).
       if pte = 0 then Inr (-1, s)
       else if load64 (pmem s) pte AND PTE_V \<noteq> 0 then Inl (Panic ''mappages: remap'')
       else
         let s = s\<lparr>pmem := store64 (pmem s) pte (PA2PTE pa OR perm OR PTE_V)\<rparr> in
         if a = lst then Inr (0, s)
         else mappages_loop pagetable (a + PGSIZE) lst (pa + PGSIZE) perm s)"
  by pat_completeness auto
termination
  by (relation "measure (\<lambda>(pagetable, a, lst, pa, perm, s). 2 ^ 39 - unat a)")
    (auto dest!: walk_Inr simp: below_MAXVA_step MAXVA_eq word_less_nat_alt)

definition mappages ::
  "uint64 \<Rightarrow> uint64 \<Rightarrow> uint64 \<Rightarrow> uint64 \<Rightarrow> uint64 \<Rightarrow> 'a kmem_scheme \<Rightarrow> (int \<times> 'a kmem_scheme) res" where
  "mappages pagetable va sz pa perm s =
     (if va mod PGSIZE \<noteq> 0 then Inl (Panic ''mappages: va not aligned'')
      else if sz mod PGSIZE \<noteq> 0 then Inl (Panic ''mappages: size not aligned'')
      else if sz = 0 then Inl (Panic ''mappages: size'')
      else mappages_loop pagetable va (va + sz - PGSIZE) pa perm s)"

lemma mappages_Inr: "mappages pagetable va sz pa perm s = Inr r \<Longrightarrow> va < MAXVA"
  by (auto simp: mappages_def split: if_splits dest: walk_Inr)

definition kvmmap ::
  "uint64 \<Rightarrow> uint64 \<Rightarrow> uint64 \<Rightarrow> uint64 \<Rightarrow> uint64 \<Rightarrow> 'a kmem_scheme \<Rightarrow> 'a kmem_scheme res" where
  "kvmmap kpgtbl va pa sz perm s =
     rbind (mappages kpgtbl va sz pa perm s) (\<lambda>(r, s).
       if r \<noteq> 0 then Inl (Panic ''kvmmap'') else Inr s)"

section \<open>Unmapping\<close>

function uvmunmap_loop ::
  "uint64 \<Rightarrow> uint64 \<Rightarrow> uint64 \<Rightarrow> bool \<Rightarrow> 'a kmem_scheme \<Rightarrow> 'a kmem_scheme res" where
  "uvmunmap_loop pagetable a e do_free s =
     (if a < e then
        rbind (walk pagetable a False s) (\<lambda>(pte, s).
          if pte = 0 then Inl (Panic ''uvmunmap: walk'')
          else if load64 (pmem s) pte AND PTE_V = 0 then Inl (Panic ''uvmunmap: not mapped'')
          else if PTE_FLAGS (load64 (pmem s) pte) = PTE_V then Inl (Panic ''uvmunmap: not a leaf'')
          else rbind (if do_free then kfree (PTE2PA (load64 (pmem s) pte)) s else Inr s) (\<lambda>s.
            uvmunmap_loop pagetable (a + PGSIZE) e do_free (s\<lparr>pmem := store64 (pmem s) pte 0\<rparr>)))
      else Inr s)"
  by pat_completeness auto
termination
  by (relation "measure (\<lambda>(pagetable, a, e, do_free, s). 2 ^ 39 - unat a)")
    (auto dest!: walk_Inr simp: below_MAXVA_step MAXVA_eq word_less_nat_alt)

definition uvmunmap ::
  "uint64 \<Rightarrow> uint64 \<Rightarrow> uint64 \<Rightarrow> bool \<Rightarrow> 'a kmem_scheme \<Rightarrow> 'a kmem_scheme res" where
  "uvmunmap pagetable va npages do_free s =
     (if va mod PGSIZE \<noteq> 0 then Inl (Panic ''uvmunmap: not aligned'')
      else uvmunmap_loop pagetable va (va + npages * PGSIZE) do_free s)"

section \<open>User address spaces\<close>

definition uvmcreate :: "'a kmem_scheme \<Rightarrow> uint64 \<times> 'a kmem_scheme" where
  "uvmcreate s =
     (let (pagetable, s) = kalloc s in
      if pagetable = 0 then (0, s)
      else (pagetable, s\<lparr>pmem := memset (pmem s) pagetable 0 4096\<rparr>))"

text \<open>
  \<open>uvmfirst\<close> and \<open>kvmmake\<close> do not test the page they get: writing through a null pointer is a
  fault, since address 0 is neither RAM nor mapped.
\<close>

definition uvmfirst :: "uint64 \<Rightarrow> bytes \<Rightarrow> 'a kmem_scheme \<Rightarrow> 'a kmem_scheme res" where
  "uvmfirst pagetable src s =
     (if 4096 \<le> length src then Inl (Panic ''uvmfirst: more than a page'')
      else
        let (mem, s) = kalloc s in
        if mem = 0 then Inl (Fault ''uvmfirst: memset'')
        else
          let s = s\<lparr>pmem := memset (pmem s) mem 0 4096\<rparr> in
          rbind (mappages pagetable 0 PGSIZE mem (PTE_W OR PTE_R OR PTE_X OR PTE_U) s) (\<lambda>(r, s).
            Inr (s\<lparr>pmem := mem_write (pmem s) mem src\<rparr>)))"

text \<open>The page count passes through a C \<open>int\<close> on its way to \<open>uvmunmap\<close>.\<close>

definition int_of_uint64 :: "uint64 \<Rightarrow> uint64" where
  "int_of_uint64 x = scast (ucast x :: uint32)"

definition uvmdealloc :: "uint64 \<Rightarrow> uint64 \<Rightarrow> uint64 \<Rightarrow> 'a kmem_scheme \<Rightarrow> (uint64 \<times> 'a kmem_scheme) res" where
  "uvmdealloc pagetable oldsz newsz s =
     (if oldsz \<le> newsz then Inr (oldsz, s)
      else if PGROUNDUP newsz < PGROUNDUP oldsz then
        let npages = int_of_uint64 ((PGROUNDUP oldsz - PGROUNDUP newsz) div PGSIZE) in
        rbind (uvmunmap pagetable (PGROUNDUP newsz) npages True s) (\<lambda>s. Inr (newsz, s))
      else Inr (newsz, s))"

function uvmalloc_loop ::
  "uint64 \<Rightarrow> uint64 \<Rightarrow> uint64 \<Rightarrow> uint64 \<Rightarrow> uint64 \<Rightarrow> 'a kmem_scheme \<Rightarrow> (uint64 \<times> 'a kmem_scheme) res"
  where
  "uvmalloc_loop pagetable a oldsz newsz xperm s =
     (if a < newsz then
        let (mem, s) = kalloc s in
        if mem = 0 then
          rbind (uvmdealloc pagetable a oldsz s) (\<lambda>(r, s). Inr (0, s))
        else
          let s = s\<lparr>pmem := memset (pmem s) mem 0 4096\<rparr> in
          rbind (mappages pagetable a PGSIZE mem (PTE_R OR PTE_U OR xperm) s) (\<lambda>(r, s).
            if r \<noteq> 0 then
              rbind (kfree mem s) (\<lambda>s.
                rbind (uvmdealloc pagetable a oldsz s) (\<lambda>(r, s). Inr (0, s)))
            else uvmalloc_loop pagetable (a + PGSIZE) oldsz newsz xperm s)
      else Inr (newsz, s))"
  by pat_completeness auto
termination
  by (relation "measure (\<lambda>(pagetable, a, oldsz, newsz, xperm, s). 2 ^ 39 - unat a)")
    (auto dest!: mappages_Inr simp: below_MAXVA_step MAXVA_eq word_less_nat_alt)

definition uvmalloc ::
  "uint64 \<Rightarrow> uint64 \<Rightarrow> uint64 \<Rightarrow> uint64 \<Rightarrow> 'a kmem_scheme \<Rightarrow> (uint64 \<times> 'a kmem_scheme) res" where
  "uvmalloc pagetable oldsz newsz xperm s =
     (if newsz < oldsz then Inr (oldsz, s)
      else uvmalloc_loop pagetable (PGROUNDUP oldsz) (PGROUNDUP oldsz) newsz xperm s)"

text \<open>
  \<open>freewalk\<close> recurses wherever an entry points to another table.  The first argument bounds the
  depth; running out of it stands for the overflow of the one-page kernel stack.  A page table
  has three levels, so \<open>freewalk\<close> starts with depth three.
\<close>

fun freewalk_depth :: "nat \<Rightarrow> uint64 \<Rightarrow> 'a kmem_scheme \<Rightarrow> 'a kmem_scheme res"
  and freewalk_loop :: "nat \<Rightarrow> nat list \<Rightarrow> uint64 \<Rightarrow> 'a kmem_scheme \<Rightarrow> 'a kmem_scheme res" where
  "freewalk_depth 0 pagetable s = Inl (Fault ''freewalk: stack'')"
| "freewalk_depth (Suc d) pagetable s =
     rbind (freewalk_loop d [0..<512] pagetable s) (\<lambda>s. kfree pagetable s)"
| "freewalk_loop d [] pagetable s = Inr s"
| "freewalk_loop d (i # is) pagetable s =
     (let pte = load64 (pmem s) (pagetable + 8 * of_nat i) in
      if pte AND PTE_V \<noteq> 0 \<and> pte AND (PTE_R OR PTE_W OR PTE_X) = 0 then
        rbind (freewalk_depth d (PTE2PA pte) s) (\<lambda>s.
          freewalk_loop d is pagetable
            (s\<lparr>pmem := store64 (pmem s) (pagetable + 8 * of_nat i) 0\<rparr>))
      else if pte AND PTE_V \<noteq> 0 then Inl (Panic ''freewalk: leaf'')
      else freewalk_loop d is pagetable s)"

definition freewalk :: "uint64 \<Rightarrow> 'a kmem_scheme \<Rightarrow> 'a kmem_scheme res" where
  "freewalk pagetable s = freewalk_depth 3 pagetable s"

definition uvmfree :: "uint64 \<Rightarrow> uint64 \<Rightarrow> 'a kmem_scheme \<Rightarrow> 'a kmem_scheme res" where
  "uvmfree pagetable sz s =
     rbind (if 0 < sz then uvmunmap pagetable 0 (PGROUNDUP sz div PGSIZE) True s else Inr s)
       (\<lambda>s. freewalk pagetable s)"

section \<open>Copy-on-write sharing\<close>

function uvmcopy_loop ::
  "uint64 \<Rightarrow> uint64 \<Rightarrow> uint64 \<Rightarrow> uint64 \<Rightarrow> 'a kmem_scheme \<Rightarrow> (int \<times> 'a kmem_scheme) res" where
  "uvmcopy_loop old new i sz s =
     (if i < sz then
        rbind (walk old i False s) (\<lambda>(pte, s).
          if pte = 0 then Inl (Panic ''uvmcopy: pte should exist'')
          else if load64 (pmem s) pte AND PTE_V = 0 then Inl (Panic ''uvmcopy: page not present'')
          else
            let pa = PTE2PA (load64 (pmem s) pte);
                s = (if load64 (pmem s) pte AND PTE_W \<noteq> 0
                     then s\<lparr>pmem := store64 (pmem s) pte
                              ((load64 (pmem s) pte XOR PTE_W) OR PTE_COW)\<rparr>
                     else s) in
            rbind (mappages new i PGSIZE pa (PTE_FLAGS (load64 (pmem s) pte)) s) (\<lambda>(r, s).
              if r \<noteq> 0 then rbind (uvmunmap new 0 (i div PGSIZE) True s) (\<lambda>s. Inr (-1, s))
              else if PHYSTOP div PGSIZE \<le> pa div PGSIZE then Inl (Fault ''page_refcnt'')
              else uvmcopy_loop old new (i + PGSIZE) sz
                     (s\<lparr>page_refcnt := (page_refcnt s)(pa div PGSIZE :=
                          page_refcnt s (pa div PGSIZE) + 1)\<rparr>)))
      else Inr (0, s))"
  by pat_completeness auto
termination
  by (relation "measure (\<lambda>(old, new, i, sz, s). 2 ^ 39 - unat i)")
    (auto dest!: walk_Inr simp: below_MAXVA_step MAXVA_eq word_less_nat_alt)

definition uvmcopy :: "uint64 \<Rightarrow> uint64 \<Rightarrow> uint64 \<Rightarrow> 'a kmem_scheme \<Rightarrow> (int \<times> 'a kmem_scheme) res" where
  "uvmcopy old new sz s = uvmcopy_loop old new 0 sz s"

definition uvmclear :: "uint64 \<Rightarrow> uint64 \<Rightarrow> 'a kmem_scheme \<Rightarrow> 'a kmem_scheme res" where
  "uvmclear pagetable va s =
     rbind (walk pagetable va False s) (\<lambda>(pte, s).
       if pte = 0 then Inl (Panic ''uvmclear'')
       else Inr (s\<lparr>pmem := store64 (pmem s) pte (load64 (pmem s) pte AND NOT PTE_U)\<rparr>))"

section \<open>Copies between kernel and user space\<close>

text \<open>
  The copy-on-write step of \<open>copyout\<close> (lines 405 to 426): take a page, copy the shared page into
  it, release the shared page and map the copy writable.  The result is 0, or -1 when no page is
  left.  The messages printed on failure are not part of the state.
\<close>

definition copyout_cow :: "uint64 \<Rightarrow> uint64 \<Rightarrow> uint64 \<Rightarrow> 'a kmem_scheme \<Rightarrow> (int \<times> 'a kmem_scheme) res" where
  "copyout_cow pagetable va0 pte s =
     (let (mem, s) = kalloc s in
      if mem = 0 then Inr (-1, s)
      else
        let s = s\<lparr>pmem := memmove (pmem s) mem (PTE2PA (load64 (pmem s) pte)) 4096\<rparr>;
            flags = PTE_FLAGS (load64 (pmem s) pte);
            flags = (flags AND NOT PTE_COW) OR PTE_W in
        rbind (uvmunmap pagetable va0 1 True s) (\<lambda>s.
          rbind (mappages pagetable va0 PGSIZE mem flags s) (\<lambda>(r, s).
            if r \<noteq> 0 then rbind (kfree mem s) (\<lambda>s. Inr (-1, s)) else Inr (0, s))))"

function copyout :: "uint64 \<Rightarrow> uint64 \<Rightarrow> bytes \<Rightarrow> 'a kmem_scheme \<Rightarrow> (int \<times> 'a kmem_scheme) res" where
  "copyout pagetable dstva src s =
     (if src = [] then Inr (0, s)
      else
        let va0 = PGROUNDDOWN dstva in
        if MAXVA \<le> va0 then Inr (-1, s)
        else rbind (walk pagetable va0 False s) (\<lambda>(pte, s).
          if pte = 0 then Inr (-1, s)
          else
            let e = load64 (pmem s) pte in
            if e AND PTE_V = 0 \<or> e AND PTE_U = 0 \<or> (e AND PTE_W = 0 \<and> e AND PTE_COW = 0)
            then Inr (-1, s)
            else rbind (if e AND PTE_W = 0 \<and> e AND PTE_COW \<noteq> 0
                        then copyout_cow pagetable va0 pte s else Inr (0, s)) (\<lambda>(r, s).
              if r \<noteq> 0 then Inr (-1, s)
              else
                let pa0 = PTE2PA (load64 (pmem s) pte);
                    n = min (4096 - unat (dstva - va0)) (length src) in
                copyout pagetable (va0 + PGSIZE) (drop n src)
                  (s\<lparr>pmem := mem_write (pmem s) (pa0 + (dstva - va0)) (take n src)\<rparr>))))"
  by pat_completeness auto
termination
  by (relation "measure (\<lambda>(pagetable, dstva, src, s). length src)") (auto simp: page_offset)

text \<open>
  \<open>copyin\<close> returns its value and the bytes it wrote at \<open>dst\<close>, also the partial ones of a failure.
\<close>

function copyin :: "uint64 \<Rightarrow> uint64 \<Rightarrow> nat \<Rightarrow> 'a kmem_scheme \<Rightarrow> (int \<times> bytes) res" where
  "copyin pagetable srcva len s =
     (if len = 0 then Inr (0, [])
      else
        let va0 = PGROUNDDOWN srcva in
        rbind (walkaddr pagetable va0 s) (\<lambda>pa0.
          if pa0 = 0 then Inr (-1, [])
          else
            let n = min (4096 - unat (srcva - va0)) len in
            rbind (copyin pagetable (va0 + PGSIZE) (len - n) s) (\<lambda>(r, bs).
              Inr (r, mem_read (pmem s) (pa0 + (srcva - va0)) n @ bs))))"
  by pat_completeness auto
termination
  by (relation "measure (\<lambda>(pagetable, srcva, len, s). len)") (auto simp: page_offset)

text \<open>The inner loop of \<open>copyinstr\<close>: the bytes stored at \<open>dst\<close>, and whether a NUL was found.\<close>

fun copyinstr_loop :: "memory \<Rightarrow> uint64 \<Rightarrow> nat \<Rightarrow> bytes \<times> bool" where
  "copyinstr_loop m p 0 = ([], False)"
| "copyinstr_loop m p (Suc n) =
     (if m p = 0 then ([0], True)
      else let (bs, got_null) = copyinstr_loop m (p + 1) n in (m p # bs, got_null))"

function copyinstr :: "uint64 \<Rightarrow> uint64 \<Rightarrow> nat \<Rightarrow> 'a kmem_scheme \<Rightarrow> (int \<times> bytes) res" where
  "copyinstr pagetable srcva mx s =
     (if mx = 0 then Inr (-1, [])
      else
        let va0 = PGROUNDDOWN srcva in
        rbind (walkaddr pagetable va0 s) (\<lambda>pa0.
          if pa0 = 0 then Inr (-1, [])
          else
            let n = min (4096 - unat (srcva - va0)) mx;
                (bs, got_null) = copyinstr_loop (pmem s) (pa0 + (srcva - va0)) n in
            if got_null then Inr (0, bs)
            else rbind (copyinstr pagetable (va0 + PGSIZE) (mx - n) s) (\<lambda>(r, cs).
              Inr (r, bs @ cs))))"
  by pat_completeness auto
termination
  by (relation "measure (\<lambda>(pagetable, srcva, mx, s). mx)") (auto simp: page_offset)

declare mappages_loop.simps [simp del] uvmunmap_loop.simps [simp del]
  uvmalloc_loop.simps [simp del] uvmcopy_loop.simps [simp del] copyout.simps [simp del]
  copyin.simps [simp del] copyinstr.simps [simp del]

end
