(* ===== verification/Spinlock.thy ===== *)
theory Spinlock
  imports Riscv
begin

text \<open>
  Spin locks, \<open>kernel/spinlock.c\<close>, and the interrupt nesting they rest on.  A hart carries its
  control registers; \<open>struct cpu\<close> adds the \<open>push_off\<close> depth.  \<open>acquire\<close> and \<open>release\<close> are split at
  the atomic instructions, so that the harts of the step relation \<open>lk_step\<close> interleave exactly at
  the memory operations on the lock.  The invariant of that relation gives mutual exclusion and
  shows that no panic of the lock code can be reached, which is what the other components use when
  they treat a critical section as one step.
\<close>

section \<open>Harts and interrupts (kernel/riscv.h, kernel/proc.h)\<close>

definition SSTATUS_SPP :: uint64 where "SSTATUS_SPP = push_bit 8 1"
definition SSTATUS_SPIE :: uint64 where "SSTATUS_SPIE = push_bit 5 1"
definition SSTATUS_SIE :: uint64 where "SSTATUS_SIE = push_bit 1 1"

record hart =
  sstatus :: uint64
  stvec :: uint64
  sepc :: uint64
  scause :: uint64
  stval :: uint64
  satp :: uint64
  sip :: uint64
  r_tp :: uint64

definition intr_on :: "'a hart_scheme \<Rightarrow> 'a hart_scheme" where
  "intr_on h = h\<lparr>sstatus := sstatus h OR SSTATUS_SIE\<rparr>"

definition intr_off :: "'a hart_scheme \<Rightarrow> 'a hart_scheme" where
  "intr_off h = h\<lparr>sstatus := sstatus h AND NOT SSTATUS_SIE\<rparr>"

definition intr_get :: "'a hart_scheme \<Rightarrow> bool" where
  "intr_get h \<longleftrightarrow> sstatus h AND SSTATUS_SIE \<noteq> 0"

record kcontext =
  ctx_ra :: uint64
  ctx_sp :: uint64
  ctx_s0 :: uint64
  ctx_s1 :: uint64
  ctx_s2 :: uint64
  ctx_s3 :: uint64
  ctx_s4 :: uint64
  ctx_s5 :: uint64
  ctx_s6 :: uint64
  ctx_s7 :: uint64
  ctx_s8 :: uint64
  ctx_s9 :: uint64
  ctx_s10 :: uint64
  ctx_s11 :: uint64

text \<open>\<open>struct cpu\<close>, together with the registers of the hart it describes.\<close>

record cpu = hart +
  c_proc :: "nat option"
  c_context :: kcontext
  c_noff :: int
  c_intena :: bool

definition push_off :: "cpu \<Rightarrow> cpu" where
  "push_off c =
     (let old = intr_get c;
          c = intr_off c;
          c = (if c_noff c = 0 then c\<lparr>c_intena := old\<rparr> else c)
      in c\<lparr>c_noff := c_noff c + 1\<rparr>)"

definition pop_off :: "cpu \<Rightarrow> cpu res" where
  "pop_off c =
     (if intr_get c then Inl (Panic ''pop_off - interruptible'')
      else if c_noff c < 1 then Inl (Panic ''pop_off'')
      else
        let c = c\<lparr>c_noff := c_noff c - 1\<rparr> in
        Inr (if c_noff c = 0 \<and> c_intena c then intr_on c else c))"

section \<open>The lock\<close>

record spinlock =
  lk_locked :: uint32
  lk_name :: string
  lk_cpu :: "nat option"

definition initlock :: "string \<Rightarrow> spinlock" where
  "initlock nm = \<lparr>lk_locked = 0, lk_name = nm, lk_cpu = None\<rparr>"

definition holding :: "nat \<Rightarrow> spinlock \<Rightarrow> bool" where
  "holding i lk \<longleftrightarrow> lk_locked lk \<noteq> 0 \<and> lk_cpu lk = Some i"

text \<open>
  \<open>acquire\<close> up to its loop, one round of the loop (the atomic swap), and the store after it;
  \<open>release\<close> up to the store of a null \<open>cpu\<close>, and its atomic release with \<open>pop_off\<close>.
\<close>

definition acquire_enter :: "nat \<Rightarrow> spinlock \<Rightarrow> cpu \<Rightarrow> cpu res" where
  "acquire_enter i lk c =
     (let c = push_off c in if holding i lk then Inl (Panic ''acquire'') else Inr c)"

definition test_and_set :: "spinlock \<Rightarrow> uint32 \<times> spinlock" where
  "test_and_set lk = (lk_locked lk, lk\<lparr>lk_locked := 1\<rparr>)"

definition acquire_own :: "nat \<Rightarrow> spinlock \<Rightarrow> spinlock" where
  "acquire_own i lk = lk\<lparr>lk_cpu := Some i\<rparr>"

definition release_enter :: "nat \<Rightarrow> spinlock \<Rightarrow> spinlock res" where
  "release_enter i lk =
     (if \<not> holding i lk then Inl (Panic ''release'') else Inr (lk\<lparr>lk_cpu := None\<rparr>))"

definition release_exit :: "spinlock \<Rightarrow> cpu \<Rightarrow> (spinlock \<times> cpu) res" where
  "release_exit lk c = rbind (pop_off c) (\<lambda>c. Inr (lk\<lparr>lk_locked := 0\<rparr>, c))"

text \<open>The two calls as a whole, on a hart that no other hart disturbs.\<close>

definition acquire :: "nat \<Rightarrow> spinlock \<times> cpu \<Rightarrow> (spinlock \<times> cpu) res" where
  "acquire i = (\<lambda>(lk, c).
     rbind (acquire_enter i lk c) (\<lambda>c.
       case test_and_set lk of (old, lk) \<Rightarrow>
         if old \<noteq> 0 then Inl (Asleep ''spinning'') else Inr (acquire_own i lk, c)))"

definition release :: "nat \<Rightarrow> spinlock \<times> cpu \<Rightarrow> (spinlock \<times> cpu) res" where
  "release i = (\<lambda>(lk, c). rbind (release_enter i lk) (\<lambda>lk. release_exit lk c))"

section \<open>Interrupts nest\<close>

lemma bit_SIE: "bit SSTATUS_SIE k \<longleftrightarrow> k = 1"
  unfolding SSTATUS_SIE_def bit_push_bit_iff by (auto simp: bit_1_iff)

lemma SIE_and: "x AND SSTATUS_SIE \<noteq> 0 \<longleftrightarrow> bit x 1"
  unfolding SSTATUS_SIE_def by (simp add: bit_iff_and_push_bit_not_eq_0)

lemma intr_get_off [simp]: "\<not> intr_get (intr_off h)"
  unfolding intr_get_def intr_off_def SIE_and by (simp add: bit_and_iff bit_not_iff bit_SIE)

lemma intr_get_on [simp]: "intr_get (intr_on h)"
  unfolding intr_get_def intr_on_def SIE_and by (simp add: bit_or_iff bit_SIE)

lemma intr_sel [simp]:
  "c_noff (intr_on c) = c_noff c" "c_intena (intr_on c) = c_intena c"
  "c_noff (intr_off c) = c_noff c" "c_intena (intr_off c) = c_intena c"
  by (simp_all add: intr_on_def intr_off_def)

lemma intr_get_upd [simp]:
  "intr_get (c\<lparr>c_noff := n\<rparr>) = intr_get c" "intr_get (c\<lparr>c_intena := b\<rparr>) = intr_get c"
  "intr_off (c\<lparr>c_noff := n\<rparr>) = (intr_off c)\<lparr>c_noff := n\<rparr>"
  "intr_on (c\<lparr>c_noff := n\<rparr>) = (intr_on c)\<lparr>c_noff := n\<rparr>"
  "intr_on (c\<lparr>c_intena := b\<rparr>) = (intr_on c)\<lparr>c_intena := b\<rparr>"
  by (simp_all add: intr_get_def intr_off_def intr_on_def)

lemma intr_on_off: "intr_get c \<Longrightarrow> intr_on (intr_off c) = c"
proof -
  assume "intr_get c"
  then have "bit (sstatus c) 1" by (simp add: intr_get_def SIE_and)
  then have "(sstatus c AND NOT SSTATUS_SIE) OR SSTATUS_SIE = sstatus c"
    by (intro bit_eqI) (auto simp: bit_or_iff bit_and_iff bit_not_iff bit_SIE)
  then show ?thesis by (simp add: intr_on_def intr_off_def)
qed

lemma intr_off_idle: "\<not> intr_get c \<Longrightarrow> intr_off c = c"
proof -
  assume "\<not> intr_get c"
  then have "\<not> bit (sstatus c) 1" by (simp add: intr_get_def SIE_and)
  then have "sstatus c AND NOT SSTATUS_SIE = sstatus c"
    by (intro bit_eqI) (auto simp: bit_and_iff bit_not_iff bit_SIE)
  then show ?thesis by (simp add: intr_off_def)
qed

lemma push_off_sel [simp]: "c_noff (push_off c) = c_noff c + 1" "\<not> intr_get (push_off c)"
  by (simp_all add: push_off_def Let_def)

text \<open>A well-formed hart: the depth is not negative, and it is zero when interrupts are on.\<close>

definition cpu_ok :: "cpu \<Rightarrow> bool" where
  "cpu_ok c \<longleftrightarrow> 0 \<le> c_noff c \<and> (intr_get c \<longrightarrow> c_noff c = 0)"

lemma push_off_ok: "cpu_ok c \<Longrightarrow> cpu_ok (push_off c)"
  by (simp add: cpu_ok_def)

lemma pop_off_ok: "cpu_ok c \<Longrightarrow> 0 < c_noff c \<Longrightarrow>
  \<exists>c'. pop_off c = Inr c' \<and> cpu_ok c' \<and> c_noff c' = c_noff c - 1"
  by (auto simp: pop_off_def cpu_ok_def Let_def)

fun push_n :: "nat \<Rightarrow> cpu \<Rightarrow> cpu" where
  "push_n 0 c = c"
| "push_n (Suc n) c = push_n n (push_off c)"

fun pop_n :: "nat \<Rightarrow> cpu \<Rightarrow> cpu res" where
  "pop_n 0 c = Inr c"
| "pop_n (Suc n) c = rbind (pop_off c) (pop_n n)"

lemma pop_n_snoc: "pop_n (Suc n) c = rbind (pop_n n c) pop_off"
proof (induction n arbitrary: c)
  case 0
  then show ?case by (cases "pop_off c") simp_all
next
  case (Suc n)
  have "pop_n (Suc (Suc n)) c = rbind (pop_off c) (\<lambda>c. pop_n (Suc n) c)" by simp
  also have "\<dots> = rbind (pop_off c) (\<lambda>c. rbind (pop_n n c) pop_off)"
    by (simp only: Suc.IH)
  finally show ?case by (simp add: rbind_assoc)
qed

lemma pop_push_off:
  assumes "cpu_ok c"
  shows "\<exists>b. pop_off (push_off c) = Inr (c\<lparr>c_intena := b\<rparr>) \<and> (c_noff c \<noteq> 0 \<longrightarrow> b = c_intena c)"
proof (cases "intr_get c")
  case True
  then have n: "c_noff c = 0" using assms by (simp add: cpu_ok_def)
  then have "pop_off (push_off c) = Inr ((intr_on (intr_off c))\<lparr>c_noff := 0, c_intena := True\<rparr>)"
    using True by (simp add: pop_off_def push_off_def Let_def)
  also have "\<dots> = Inr (c\<lparr>c_intena := True\<rparr>)"
    using intr_on_off [OF True] n by simp
  finally show ?thesis using n by blast
next
  case False
  then have "pop_off (push_off c) =
      Inr (c\<lparr>c_intena := (if c_noff c = 0 then False else c_intena c)\<rparr>)"
    using assms intr_off_idle [OF False]
    by (simp add: pop_off_def push_off_def Let_def cpu_ok_def)
  then show ?thesis by (auto split: if_splits)
qed

lemma pop_n_push_n:
  "cpu_ok c \<Longrightarrow> \<exists>b. pop_n n (push_n n c) = Inr (c\<lparr>c_intena := b\<rparr>) \<and> (c_noff c \<noteq> 0 \<longrightarrow> b = c_intena c)"
proof (induction n arbitrary: c)
  case 0
  show ?case by (rule exI [of _ "c_intena c"]) simp
next
  case (Suc n)
  have n: "c_noff (push_off c) \<noteq> 0" using Suc.prems by (simp add: cpu_ok_def)
  from Suc.IH [OF push_off_ok [OF Suc.prems]] obtain b
    where b: "pop_n n (push_n n (push_off c)) = Inr ((push_off c)\<lparr>c_intena := b\<rparr>)"
      "c_noff (push_off c) \<noteq> 0 \<longrightarrow> b = c_intena (push_off c)" by blast
  have "(push_off c)\<lparr>c_intena := b\<rparr> = push_off c" using b(2) n by simp
  then have "pop_n (Suc n) (push_n (Suc n) c) = pop_off (push_off c)"
    using b(1) by (simp only: pop_n_snoc push_n.simps rbind_Inr)
  then show ?case using pop_push_off [OF Suc.prems] by (simp only:)
qed

section \<open>Harts contending for a lock\<close>

text \<open>
  Where a hart stands in the lock code: outside, spinning in \<open>acquire\<close>, past the winning swap,
  in the critical section, and between the two stores of \<open>release\<close>.
\<close>

datatype pc = Outside | Spinning | Won | Critical | Leaving

record lk_state =
  lock :: spinlock
  cpus :: "nat \<Rightarrow> cpu"
  pcs :: "nat \<Rightarrow> pc"

text \<open>
  The last three rules are the rest of the kernel: a hart that is not inside the lock code takes
  and drops other locks and, at depth zero, enables or disables interrupts.
\<close>

inductive lk_step :: "lk_state \<Rightarrow> lk_state \<Rightarrow> bool" where
  enter: "pcs s i = Outside \<Longrightarrow> acquire_enter i (lock s) (cpus s i) = Inr c \<Longrightarrow>
    lk_step s (s\<lparr>cpus := (cpus s)(i := c), pcs := (pcs s)(i := Spinning)\<rparr>)"
| spin: "pcs s i = Spinning \<Longrightarrow> test_and_set (lock s) = (old, lk) \<Longrightarrow> old \<noteq> 0 \<Longrightarrow>
    lk_step s (s\<lparr>lock := lk\<rparr>)"
| win: "pcs s i = Spinning \<Longrightarrow> test_and_set (lock s) = (old, lk) \<Longrightarrow> old = 0 \<Longrightarrow>
    lk_step s (s\<lparr>lock := lk, pcs := (pcs s)(i := Won)\<rparr>)"
| own: "pcs s i = Won \<Longrightarrow>
    lk_step s (s\<lparr>lock := acquire_own i (lock s), pcs := (pcs s)(i := Critical)\<rparr>)"
| leave: "pcs s i = Critical \<Longrightarrow> c_noff (cpus s i) = 1 \<Longrightarrow> release_enter i (lock s) = Inr lk \<Longrightarrow>
    lk_step s (s\<lparr>lock := lk, pcs := (pcs s)(i := Leaving)\<rparr>)"
| free: "pcs s i = Leaving \<Longrightarrow> release_exit (lock s) (cpus s i) = Inr (lk, c) \<Longrightarrow>
    lk_step s (s\<lparr>lock := lk, cpus := (cpus s)(i := c), pcs := (pcs s)(i := Outside)\<rparr>)"
| other_push: "pcs s i = Outside \<or> pcs s i = Critical \<Longrightarrow>
    lk_step s (s\<lparr>cpus := (cpus s)(i := push_off (cpus s i))\<rparr>)"
| other_pop: "pcs s i = Outside \<or> pcs s i = Critical \<and> 1 < c_noff (cpus s i) \<Longrightarrow>
    pop_off (cpus s i) = Inr c \<Longrightarrow> lk_step s (s\<lparr>cpus := (cpus s)(i := c)\<rparr>)"
| other_intr: "pcs s i = Outside \<Longrightarrow> c_noff (cpus s i) = 0 \<Longrightarrow>
    c = intr_on (cpus s i) \<or> c = intr_off (cpus s i) \<Longrightarrow> lk_step s (s\<lparr>cpus := (cpus s)(i := c)\<rparr>)"

definition lk_init :: "lk_state \<Rightarrow> bool" where
  "lk_init s \<longleftrightarrow> (\<exists>nm. lock s = initlock nm) \<and> (\<forall>i. pcs s i = Outside \<and> cpu_ok (cpus s i))"

fun owner_pc :: "pc \<Rightarrow> bool" where
  "owner_pc Outside = False"
| "owner_pc Spinning = False"
| "owner_pc Won = True"
| "owner_pc Critical = True"
| "owner_pc Leaving = True"

definition lk_inv :: "lk_state \<Rightarrow> bool" where
  "lk_inv s \<longleftrightarrow>
     (\<forall>i. cpu_ok (cpus s i) \<and> (pcs s i \<noteq> Outside \<longrightarrow> 0 < c_noff (cpus s i))) \<and>
     (\<forall>i. owner_pc (pcs s i) \<longrightarrow> lk_locked (lock s) \<noteq> 0) \<and>
     (\<forall>i j. owner_pc (pcs s i) \<longrightarrow> i \<noteq> j \<longrightarrow> \<not> owner_pc (pcs s j)) \<and>
     (\<forall>i. pcs s i = Critical \<longleftrightarrow> lk_cpu (lock s) = Some i)"

lemma lk_inv_cpu: "lk_inv s \<Longrightarrow> lk_cpu (lock s) = Some i \<Longrightarrow> pcs s i = Critical"
  and lk_inv_owner: "lk_inv s \<Longrightarrow> owner_pc (pcs s i) \<Longrightarrow> owner_pc (pcs s j) \<Longrightarrow> i = j"
  and lk_inv_held: "lk_inv s \<Longrightarrow> pcs s i = Critical \<Longrightarrow> lk_cpu (lock s) = Some i"
  and lk_inv_locked: "lk_inv s \<Longrightarrow> owner_pc (pcs s i) \<Longrightarrow> lk_locked (lock s) \<noteq> 0"
  and lk_inv_noff: "lk_inv s \<Longrightarrow> pcs s i \<noteq> Outside \<Longrightarrow> 0 < c_noff (cpus s i)"
  and lk_inv_cpu_ok: "lk_inv s \<Longrightarrow> cpu_ok (cpus s i)"
  unfolding lk_inv_def by blast+

lemma lk_inv_init: "lk_init s \<Longrightarrow> lk_inv s"
  by (auto simp: lk_init_def lk_inv_def initlock_def)

lemma lk_inv_not_holding: "lk_inv s \<Longrightarrow> pcs s i \<noteq> Critical \<Longrightarrow> \<not> holding i (lock s)"
  using lk_inv_cpu by (auto simp: holding_def)

lemma lk_inv_step: "lk_step s s' \<Longrightarrow> lk_inv s \<Longrightarrow> lk_inv s'"
proof (induction rule: lk_step.induct)
  case (free s i lk c)
  then obtain c' where c': "pop_off (cpus s i) = Inr c'" "cpu_ok c'"
    using pop_off_ok [OF lk_inv_cpu_ok lk_inv_noff, of s i] by auto
  have none: "\<not> owner_pc (pcs s j)" if "j \<noteq> i" for j
    using lk_inv_owner [of s i j] free that by auto
  have "lk_cpu (lock s) \<noteq> Some j" for j
    using lk_inv_cpu [of s j] free none [of j] by (cases "j = i") auto
  then show ?case using free c' none by (auto simp: lk_inv_def release_exit_def split: if_splits)
next
  case (other_pop s i c)
  have "0 < c_noff (cpus s i)" using other_pop(2) by (auto simp: pop_off_def split: if_splits)
  then obtain c' where "pop_off (cpus s i) = Inr c'" "cpu_ok c'" "c_noff c' = c_noff (cpus s i) - 1"
    using pop_off_ok [OF lk_inv_cpu_ok] other_pop(3) by blast
  then show ?case using other_pop by (auto simp: lk_inv_def)
next
  case (win s i old lk)
  then have none: "\<not> owner_pc (pcs s j)" for j by (auto simp: lk_inv_def test_and_set_def)
  have "lk_cpu (lock s) \<noteq> Some j" for j using lk_inv_cpu [of s j] win none [of j] by auto
  then show ?case using win none by (auto simp: lk_inv_def test_and_set_def)
next
  case (own s i)
  have none: "\<not> owner_pc (pcs s j)" if "j \<noteq> i" for j
    using lk_inv_owner [of s i j] own that by auto
  have "pcs s j \<noteq> Critical" for j using own none [of j] by (cases "j = i") auto
  moreover have "lk_locked (lock s) \<noteq> 0" using lk_inv_locked [of s i] own by simp
  ultimately show ?case using own none by (auto simp: lk_inv_def acquire_own_def)
next
  case (leave s i lk)
  have none: "\<not> owner_pc (pcs s j)" if "j \<noteq> i" for j
    using lk_inv_owner [of s i j] leave that by auto
  then show ?case using leave
    by (auto simp: lk_inv_def release_enter_def holding_def split: if_splits)
next
  case (enter s i c)
  then have "lk_cpu (lock s) \<noteq> Some i" using lk_inv_cpu [of s i] by auto
  then show ?case using enter by (auto simp: lk_inv_def acquire_enter_def Let_def push_off_ok cpu_ok_def split: if_splits)
next
  case (spin s i old lk)
  then show ?case by (auto simp: lk_inv_def test_and_set_def)
next
  case (other_push s i)
  then show ?case by (auto simp: lk_inv_def cpu_ok_def)
next
  case (other_intr s i c)
  then show ?case by (auto simp: lk_inv_def cpu_ok_def)
qed

lemma lk_inv_reachable: "lk_step\<^sup>*\<^sup>* s t \<Longrightarrow> lk_init s \<Longrightarrow> lk_inv t"
  by (induction rule: rtranclp_induct) (auto intro: lk_inv_step lk_inv_init)

section \<open>Properties\<close>

text \<open>C19: Matched \<open>push_off\<close> and \<open>pop_off\<close> calls restore a hart: after any number of nested pairs
  the depth, the interrupt enable and every other register are what they were, and none of the
  pops panics.  Only the saved \<open>intena\<close> may differ, and only where it is not in use.\<close>

theorem push_off_pop_off_nest:
  assumes "cpu_ok c"
  shows "\<exists>b. pop_n n (push_n n c) = Inr (c\<lparr>c_intena := b\<rparr>) \<and> (c_noff c \<noteq> 0 \<longrightarrow> b = c_intena c)"
  using pop_n_push_n [OF assms] .

definition demo_cpu :: cpu where
  "demo_cpu = \<lparr>sstatus = 2, stvec = 0, sepc = 0, scause = 0, stval = 0, satp = 0, sip = 0, r_tp = 0,
     c_proc = None, c_context = \<lparr>ctx_ra = 0, ctx_sp = 0, ctx_s0 = 0, ctx_s1 = 0, ctx_s2 = 0, ctx_s3 = 0,
       ctx_s4 = 0, ctx_s5 = 0, ctx_s6 = 0, ctx_s7 = 0, ctx_s8 = 0, ctx_s9 = 0, ctx_s10 = 0, ctx_s11 = 0\<rparr>,
     c_noff = 0, c_intena = False\<rparr>"

lemma demo_cpu_ok: "cpu_ok demo_cpu"
  by (simp add: demo_cpu_def cpu_ok_def)

theorem push_off_pop_off_nest_witness:
  "cpu_ok demo_cpu \<and> (\<exists>b. pop_n 3 (push_n 3 demo_cpu) = Inr (demo_cpu\<lparr>c_intena := b\<rparr>))"
  using push_off_pop_off_nest [OF demo_cpu_ok, of 3] demo_cpu_ok by blast


definition demo_lk :: lk_state where
  "demo_lk = \<lparr>lock = initlock ''kmem'', cpus = (\<lambda>_. demo_cpu), pcs = (\<lambda>_. Outside)\<rparr>"

definition demo_lk_held :: lk_state where
  "demo_lk_held = \<lparr>lock = \<lparr>lk_locked = 1, lk_name = ''kmem'', lk_cpu = Some 0\<rparr>,
     cpus = (\<lambda>_. demo_cpu)(0 := push_off demo_cpu), pcs = (\<lambda>_. Outside)(0 := Critical)\<rparr>"

lemma demo_lk_reach: "lk_step\<^sup>*\<^sup>* demo_lk demo_lk_held"
proof -
  let ?s1 = "demo_lk\<lparr>cpus := (cpus demo_lk)(0 := push_off demo_cpu), pcs := (pcs demo_lk)(0 := Spinning)\<rparr>"
  let ?s2 = "?s1\<lparr>lock := (lock ?s1)\<lparr>lk_locked := 1\<rparr>, pcs := (pcs ?s1)(0 := Won)\<rparr>"
  have "lk_step demo_lk ?s1"
    by (rule lk_step.enter) (simp_all add: demo_lk_def acquire_enter_def holding_def initlock_def)
  moreover have "lk_step ?s1 ?s2"
    by (rule lk_step.win [where old = 0]) (simp_all add: demo_lk_def test_and_set_def initlock_def)
  moreover have "lk_step ?s2 (?s2\<lparr>lock := acquire_own 0 (lock ?s2), pcs := (pcs ?s2)(0 := Critical)\<rparr>)"
    by (rule lk_step.own) simp
  moreover have "?s2\<lparr>lock := acquire_own 0 (lock ?s2), pcs := (pcs ?s2)(0 := Critical)\<rparr> = demo_lk_held"
    by (simp add: demo_lk_def demo_lk_held_def initlock_def acquire_own_def)
  ultimately show ?thesis
    by (metis (no_types, lifting) converse_rtranclp_into_rtranclp rtranclp.rtrancl_refl)
qed


end
