(* ===== verification/ProcTable.thy ===== *)
theory ProcTable
  imports Vm Spinlock
begin

text \<open>
  The process table: the types of \<open>kernel/proc.h\<close>, the limits of \<open>kernel/param.h\<close>, and the part of
  \<open>kernel/proc.c\<close> that only reads and writes the table: identifiers, \<open>sleep\<close> and \<open>wakeup\<close>, \<open>kill\<close>,
  and the choice of the scheduler.  A process is named by its index in \<open>proc[]\<close>; the channel of a
  sleeping process is the address of a kernel object, modelled by a datatype of those objects.
  The critical section of a process lock is one step.
\<close>

section \<open>Limits (kernel/param.h)\<close>

definition NPROC :: nat where "NPROC = 64"
definition NCPU :: nat where "NCPU = 8"
definition NOFILE :: nat where "NOFILE = 16"
definition NFILE :: nat where "NFILE = 100"
definition NINODE :: nat where "NINODE = 50"
definition NDEV :: nat where "NDEV = 10"
definition ROOTDEV :: uint32 where "ROOTDEV = 1"
definition MAXARG :: nat where "MAXARG = 32"
definition MAXOPBLOCKS :: nat where "MAXOPBLOCKS = 10"
definition LOGSIZE :: nat where "LOGSIZE = MAXOPBLOCKS * 3"
definition NBUF :: nat where "NBUF = MAXOPBLOCKS * 3"
definition FSSIZE :: nat where "FSSIZE = 2000"
definition MAXPATH :: nat where "MAXPATH = 128"

lemmas params = NPROC_def NCPU_def NOFILE_def NFILE_def NINODE_def NDEV_def ROOTDEV_def MAXARG_def
  MAXOPBLOCKS_def LOGSIZE_def NBUF_def FSSIZE_def MAXPATH_def

section \<open>Processes (kernel/proc.h)\<close>

text \<open>The fields of \<open>struct trapframe\<close>, which lives in a page of its own, and their offsets.\<close>

datatype trapframe =
    Kernel_satp | Kernel_sp | Kernel_trap | Epc | Kernel_hartid
  | Ra | Sp | Gp | Tp | T0 | T1 | T2 | S0 | S1
  | A0 | A1 | A2 | A3 | A4 | A5 | A6 | A7
  | S2 | S3 | S4 | S5 | S6 | S7 | S8 | S9 | S10 | S11 | T3 | T4 | T5 | T6

fun tf_offset :: "trapframe \<Rightarrow> uint64" where
  "tf_offset Kernel_satp = 0" | "tf_offset Kernel_sp = 8" | "tf_offset Kernel_trap = 16"
| "tf_offset Epc = 24" | "tf_offset Kernel_hartid = 32"
| "tf_offset Ra = 40" | "tf_offset Sp = 48" | "tf_offset Gp = 56" | "tf_offset Tp = 64"
| "tf_offset T0 = 72" | "tf_offset T1 = 80" | "tf_offset T2 = 88"
| "tf_offset S0 = 96" | "tf_offset S1 = 104"
| "tf_offset A0 = 112" | "tf_offset A1 = 120" | "tf_offset A2 = 128" | "tf_offset A3 = 136"
| "tf_offset A4 = 144" | "tf_offset A5 = 152" | "tf_offset A6 = 160" | "tf_offset A7 = 168"
| "tf_offset S2 = 176" | "tf_offset S3 = 184" | "tf_offset S4 = 192" | "tf_offset S5 = 200"
| "tf_offset S6 = 208" | "tf_offset S7 = 216" | "tf_offset S8 = 224" | "tf_offset S9 = 232"
| "tf_offset S10 = 240" | "tf_offset S11 = 248"
| "tf_offset T3 = 256" | "tf_offset T4 = 264" | "tf_offset T5 = 272" | "tf_offset T6 = 280"

definition tf_size :: nat where "tf_size = 288"

definition tf_get :: "'a kmem_scheme \<Rightarrow> uint64 \<Rightarrow> trapframe \<Rightarrow> uint64" where
  "tf_get s tf r = load64 (pmem s) (tf + tf_offset r)"

definition tf_set :: "uint64 \<Rightarrow> trapframe \<Rightarrow> uint64 \<Rightarrow> 'a kmem_scheme \<Rightarrow> 'a kmem_scheme" where
  "tf_set tf r v s = s\<lparr>pmem := store64 (pmem s) (tf + tf_offset r) v\<rparr>"

datatype procstate = UNUSED | USED | SLEEPING | RUNNABLE | RUNNING | ZOMBIE

text \<open>
  What a process can sleep on: a process (in \<open>wait\<close>), the tick counter, the log, the free
  descriptors and the buffers of the disk, a sleep lock (of a buffer or an inode), the two
  counters of a pipe, the UART's read index and the console's.
\<close>

datatype chan =
    Chan_proc nat | Chan_ticks | Chan_log | Chan_disk_free | Chan_disk nat
  | Chan_buf nat | Chan_inode nat | Chan_pipe_read uint64 | Chan_pipe_write uint64
  | Chan_uart | Chan_cons

record proc =
  p_state :: procstate
  p_chan :: "chan option"
  p_killed :: int
  p_xstate :: int
  p_pid :: int
  p_parent :: "nat option"
  p_kstack :: uint64
  p_sz :: uint64
  p_pagetable :: uint64
  p_trapframe :: uint64
  p_context :: kcontext
  p_ofile :: "nat option list"
  p_cwd :: "nat option"
  p_name :: ptr

record pstate = kmem +
  procs :: "proc list"
  nextpid :: int
  initproc :: "nat option"
  ticks :: uint32

definition upd_proc :: "nat \<Rightarrow> (proc \<Rightarrow> proc) \<Rightarrow> 'a pstate_scheme \<Rightarrow> 'a pstate_scheme" where
  "upd_proc i f s = s\<lparr>procs := (procs s)[i := f (procs s ! i)]\<rparr>"

section \<open>Boot and identifiers\<close>

text \<open>The kernel stacks, one page each, mapped high with a hole between them.\<close>

fun proc_mapstacks_loop :: "nat list \<Rightarrow> uint64 \<Rightarrow> 'a kmem_scheme \<Rightarrow> 'a kmem_scheme res" where
  "proc_mapstacks_loop [] kpgtbl s = Inr s"
| "proc_mapstacks_loop (p # ps) kpgtbl s =
     (let (pa, s) = kalloc s in
      if pa = 0 then Inl (Panic ''kalloc'')
      else rbind (kvmmap kpgtbl (KSTACK p) pa PGSIZE (PTE_R OR PTE_W) s)
             (\<lambda>s. proc_mapstacks_loop ps kpgtbl s))"

definition proc_mapstacks :: "uint64 \<Rightarrow> 'a kmem_scheme \<Rightarrow> 'a kmem_scheme res" where
  "proc_mapstacks kpgtbl s = proc_mapstacks_loop [0..<NPROC] kpgtbl s"

definition procinit :: "'a pstate_scheme \<Rightarrow> 'a pstate_scheme" where
  "procinit s = s\<lparr>procs :=
     map (\<lambda>(i, p). p\<lparr>p_state := UNUSED, p_kstack := KSTACK i\<rparr>) (enumerate 0 (procs s))\<rparr>"

definition cpuid :: "'a hart_scheme \<Rightarrow> nat" where
  "cpuid h = unat (r_tp h)"

definition mycpu :: "cpu list \<Rightarrow> 'a hart_scheme \<Rightarrow> cpu" where
  "mycpu cs h = cs ! cpuid h"

definition myproc :: "cpu list \<Rightarrow> 'a hart_scheme \<Rightarrow> nat option" where
  "myproc cs h = c_proc (mycpu cs h)"

definition allocpid :: "'a pstate_scheme \<Rightarrow> int \<times> 'a pstate_scheme" where
  "allocpid s = (nextpid s, s\<lparr>nextpid := nextpid s + 1\<rparr>)"

section \<open>Sleep, wakeup and kill\<close>

text \<open>\<open>sleep\<close> up to its call of \<open>sched\<close>, and the rest of it when the process runs again.\<close>

definition sleep :: "nat \<Rightarrow> chan \<Rightarrow> 'a pstate_scheme \<Rightarrow> 'a pstate_scheme" where
  "sleep me ch s = upd_proc me (\<lambda>p. p\<lparr>p_chan := Some ch, p_state := SLEEPING\<rparr>) s"

definition sleep_resume :: "nat \<Rightarrow> 'a pstate_scheme \<Rightarrow> 'a pstate_scheme" where
  "sleep_resume me s = upd_proc me (\<lambda>p. p\<lparr>p_chan := None\<rparr>) s"

definition wakeup :: "nat option \<Rightarrow> chan \<Rightarrow> 'a pstate_scheme \<Rightarrow> 'a pstate_scheme" where
  "wakeup me ch s = s\<lparr>procs :=
     map (\<lambda>(i, p). if Some i \<noteq> me \<and> p_state p = SLEEPING \<and> p_chan p = Some ch
                   then p\<lparr>p_state := RUNNABLE\<rparr> else p) (enumerate 0 (procs s))\<rparr>"

fun kill_loop :: "int \<Rightarrow> proc list \<Rightarrow> int \<times> proc list" where
  "kill_loop pid [] = (-1, [])"
| "kill_loop pid (p # ps) =
     (if p_pid p = pid
      then let p = p\<lparr>p_killed := 1\<rparr> in
           (0, (if p_state p = SLEEPING then p\<lparr>p_state := RUNNABLE\<rparr> else p) # ps)
      else let (r, ps) = kill_loop pid ps in (r, p # ps))"

definition kill :: "int \<Rightarrow> 'a pstate_scheme \<Rightarrow> int \<times> 'a pstate_scheme" where
  "kill pid s = (let (r, ps) = kill_loop pid (procs s) in (r, s\<lparr>procs := ps\<rparr>))"

definition setkilled :: "nat \<Rightarrow> 'a pstate_scheme \<Rightarrow> 'a pstate_scheme" where
  "setkilled i s = upd_proc i (\<lambda>p. p\<lparr>p_killed := 1\<rparr>) s"

definition killed :: "nat \<Rightarrow> 'a pstate_scheme \<Rightarrow> int" where
  "killed i s = p_killed (procs s ! i)"

text \<open>The loop of \<open>reparent\<close>: children of \<open>p\<close> go to init, which is woken for each of them.\<close>

fun reparent_loop :: "nat \<Rightarrow> nat list \<Rightarrow> 'a pstate_scheme \<Rightarrow> 'a pstate_scheme" where
  "reparent_loop p [] s = s"
| "reparent_loop p (pp # pps) s =
     (if p_parent (procs s ! pp) = Some p
      then let s = upd_proc pp (\<lambda>q. q\<lparr>p_parent := initproc s\<rparr>) s in
           reparent_loop p pps (case initproc s of Some k \<Rightarrow> wakeup (Some p) (Chan_proc k) s | None \<Rightarrow> s)
      else reparent_loop p pps s)"

definition reparent :: "nat \<Rightarrow> 'a pstate_scheme \<Rightarrow> 'a pstate_scheme" where
  "reparent p s = reparent_loop p [0..<length (procs s)] s"

section \<open>Lemmas on the table\<close>

lemma length_upd_proc [simp]: "length (procs (upd_proc i f s)) = length (procs s)"
  by (simp add: upd_proc_def)

lemma upd_proc_other [simp]: "i \<noteq> j \<Longrightarrow> procs (upd_proc i f s) ! j = procs s ! j"
  by (simp add: upd_proc_def)

lemma upd_proc_same [simp]: "i < length (procs s) \<Longrightarrow> procs (upd_proc i f s) ! i = f (procs s ! i)"
  by (simp add: upd_proc_def)

lemma length_wakeup [simp]: "length (procs (wakeup me ch s)) = length (procs s)"
  by (simp add: wakeup_def)

lemma wakeup_nth: "i < length (procs s) \<Longrightarrow> procs (wakeup me ch s) ! i =
   (if Some i \<noteq> me \<and> p_state (procs s ! i) = SLEEPING \<and> p_chan (procs s ! i) = Some ch
    then (procs s ! i)\<lparr>p_state := RUNNABLE\<rparr> else procs s ! i)"
  by (simp add: wakeup_def nth_enumerate_eq)

lemma kill_loop_spec:
  "kill_loop pid ps =
     (case first_index (\<lambda>p. p_pid p = pid) ps of
        None \<Rightarrow> (-1, ps)
      | Some i \<Rightarrow> (0, ps[i := (ps ! i)\<lparr>p_killed := 1,
          p_state := if p_state (ps ! i) = SLEEPING then RUNNABLE else p_state (ps ! i)\<rparr>]))"
  by (induction ps) (auto simp: Let_def split: option.splits prod.splits)

end
