(* ===== verification/Bio.thy ===== *)
theory Bio
  imports ProcTable
begin

text \<open>
  Sleep locks (\<open>kernel/sleeplock.c\<close>) and the buffer cache (\<open>kernel/bio.c\<close>).  The cache is the
  array \<open>bcache.buf\<close> with its head as one more element, linked in a ring by the indices \<open>b_prev\<close>
  and \<open>b_next\<close>.  The device is a map from block numbers to blocks, with the sequence of the writes
  it has completed; a request to it is complete when the driver returns.  The lemmas recover the
  ring as a list, ordered by use, and give the contract of \<open>bread\<close>, \<open>bwrite\<close> and \<open>brelse\<close> in terms
  of the block that the cache and the disk together stand for.
\<close>

section \<open>Sleep locks\<close>

record sleeplock =
  sl_locked :: uint32
  sl_name :: string
  sl_pid :: int

definition initsleeplock :: "string \<Rightarrow> sleeplock" where
  "initsleeplock nm = \<lparr>sl_locked = 0, sl_name = nm, sl_pid = 0\<rparr>"

definition acquiresleep :: "nat \<Rightarrow> 'a pstate_scheme \<Rightarrow> sleeplock \<Rightarrow> sleeplock res" where
  "acquiresleep me s lk =
     (if sl_locked lk \<noteq> 0 then Inl (Asleep ''sleep lock'')
      else Inr (lk\<lparr>sl_locked := 1, sl_pid := p_pid (procs s ! me)\<rparr>))"

definition releasesleep :: "nat \<Rightarrow> chan \<Rightarrow> 'a pstate_scheme \<Rightarrow> sleeplock \<Rightarrow> sleeplock \<times> 'a pstate_scheme" where
  "releasesleep me ch s lk = (lk\<lparr>sl_locked := 0, sl_pid := 0\<rparr>, wakeup (Some me) ch s)"

definition holdingsleep :: "nat \<Rightarrow> 'a pstate_scheme \<Rightarrow> sleeplock \<Rightarrow> bool" where
  "holdingsleep me s lk \<longleftrightarrow> sl_locked lk \<noteq> 0 \<and> sl_pid lk = p_pid (procs s ! me)"

section \<open>Buffers and the disk\<close>

definition BSIZE :: nat where [simp]: "BSIZE = 1024"

record buf =
  b_valid :: bool
  b_disk :: bool
  b_dev :: uint32
  b_blockno :: uint32
  b_lock :: sleeplock
  b_refcnt :: uint32
  b_prev :: nat
  b_next :: nat
  b_data :: bytes

record bstate = pstate +
  bufs :: "buf list"
  disk :: "uint32 \<Rightarrow> bytes"
  disk_writes :: "(uint32 \<times> bytes) list"

abbreviation bhead :: nat where "bhead \<equiv> NBUF"

definition upd_buf :: "nat \<Rightarrow> (buf \<Rightarrow> buf) \<Rightarrow> 'a bstate_scheme \<Rightarrow> 'a bstate_scheme" where
  "upd_buf i f s = s\<lparr>bufs := (bufs s)[i := f (bufs s ! i)]\<rparr>"

text \<open>A completed request of the disk driver: the block is transferred in one direction.\<close>

definition disk_rw :: "nat \<Rightarrow> bool \<Rightarrow> 'a bstate_scheme \<Rightarrow> 'a bstate_scheme" where
  "disk_rw b write s =
     (let bn = b_blockno (bufs s ! b) in
      if write
      then s\<lparr>disk := (disk s)(bn := b_data (bufs s ! b)),
             disk_writes := disk_writes s @ [(bn, b_data (bufs s ! b))]\<rparr>
      else upd_buf b (\<lambda>x. x\<lparr>b_data := disk s bn\<rparr>) s)"

section \<open>The cache (kernel/bio.c)\<close>

definition binit_node :: "nat \<Rightarrow> 'a bstate_scheme \<Rightarrow> 'a bstate_scheme" where
  "binit_node b s =
     (let s = upd_buf b (\<lambda>x. x\<lparr>b_next := b_next (bufs s ! bhead)\<rparr>) s;
          s = upd_buf b (\<lambda>x. x\<lparr>b_prev := bhead\<rparr>) s;
          s = upd_buf b (\<lambda>x. x\<lparr>b_lock := initsleeplock ''buffer''\<rparr>) s;
          s = upd_buf (b_next (bufs s ! bhead)) (\<lambda>x. x\<lparr>b_prev := b\<rparr>) s
      in upd_buf bhead (\<lambda>x. x\<lparr>b_next := b\<rparr>) s)"

definition binit :: "'a bstate_scheme \<Rightarrow> 'a bstate_scheme" where
  "binit s =
     (let s = upd_buf bhead (\<lambda>x. x\<lparr>b_prev := bhead\<rparr>) s;
          s = upd_buf bhead (\<lambda>x. x\<lparr>b_next := bhead\<rparr>) s
      in fold binit_node [0..<NBUF] s)"

text \<open>
  The two scans of \<open>bget\<close>.  The ring has \<open>NBUF\<close> nodes and the head, so \<open>NBUF + 1\<close> rounds reach the
  head again; \<open>ring_find_eq\<close> shows that the fuel never runs out.
\<close>

fun bget_cached :: "nat \<Rightarrow> nat \<Rightarrow> uint32 \<Rightarrow> uint32 \<Rightarrow> buf list \<Rightarrow> nat option res" where
  "bget_cached 0 b dev blockno bs = Inl (Fault ''bcache ring'')"
| "bget_cached (Suc n) b dev blockno bs =
     (if b = bhead then Inr None
      else if b_dev (bs ! b) = dev \<and> b_blockno (bs ! b) = blockno then Inr (Some b)
      else bget_cached n (b_next (bs ! b)) dev blockno bs)"

fun bget_unused :: "nat \<Rightarrow> nat \<Rightarrow> buf list \<Rightarrow> nat option res" where
  "bget_unused 0 b bs = Inl (Fault ''bcache ring'')"
| "bget_unused (Suc n) b bs =
     (if b = bhead then Inr None
      else if b_refcnt (bs ! b) = 0 then Inr (Some b)
      else bget_unused n (b_prev (bs ! b)) bs)"

definition block_lock :: "nat \<Rightarrow> nat \<Rightarrow> 'a bstate_scheme \<Rightarrow> (nat \<times> 'a bstate_scheme) res" where
  "block_lock me b s =
     rbind (acquiresleep me s (b_lock (bufs s ! b))) (\<lambda>lk. Inr (b, upd_buf b (\<lambda>x. x\<lparr>b_lock := lk\<rparr>) s))"

definition bget :: "nat \<Rightarrow> uint32 \<Rightarrow> uint32 \<Rightarrow> 'a bstate_scheme \<Rightarrow> (nat \<times> 'a bstate_scheme) res" where
  "bget me dev blockno s =
     rbind (bget_cached (NBUF + 1) (b_next (bufs s ! bhead)) dev blockno (bufs s)) (\<lambda>r.
       case r of
         Some b \<Rightarrow> block_lock me b (upd_buf b (\<lambda>x. x\<lparr>b_refcnt := b_refcnt x + 1\<rparr>) s)
       | None \<Rightarrow>
           rbind (bget_unused (NBUF + 1) (b_prev (bufs s ! bhead)) (bufs s)) (\<lambda>r.
             case r of
               Some b \<Rightarrow> block_lock me b
                 (upd_buf b (\<lambda>x. x\<lparr>b_dev := dev, b_blockno := blockno, b_valid := False, b_refcnt := 1\<rparr>) s)
             | None \<Rightarrow> Inl (Panic ''bget: no buffers'')))"

definition bread :: "nat \<Rightarrow> uint32 \<Rightarrow> uint32 \<Rightarrow> 'a bstate_scheme \<Rightarrow> (nat \<times> 'a bstate_scheme) res" where
  "bread me dev blockno s =
     rbind (bget me dev blockno s) (\<lambda>(b, s).
       if \<not> b_valid (bufs s ! b)
       then Inr (b, upd_buf b (\<lambda>x. x\<lparr>b_valid := True\<rparr>) (disk_rw b False s))
       else Inr (b, s))"

definition bwrite :: "nat \<Rightarrow> nat \<Rightarrow> 'a bstate_scheme \<Rightarrow> 'a bstate_scheme res" where
  "bwrite me b s =
     (if \<not> holdingsleep me s (b_lock (bufs s ! b)) then Inl (Panic ''bwrite'')
      else Inr (disk_rw b True s))"

definition brelse :: "nat \<Rightarrow> nat \<Rightarrow> 'a bstate_scheme \<Rightarrow> 'a bstate_scheme res" where
  "brelse me b s =
     (if \<not> holdingsleep me s (b_lock (bufs s ! b)) then Inl (Panic ''brelse'')
      else
        let (lk, s) = releasesleep me (Chan_buf b) s (b_lock (bufs s ! b));
            s = upd_buf b (\<lambda>x. x\<lparr>b_lock := lk\<rparr>) s;
            s = upd_buf b (\<lambda>x. x\<lparr>b_refcnt := b_refcnt x - 1\<rparr>) s in
        if b_refcnt (bufs s ! b) = 0
        then
          let s = upd_buf (b_next (bufs s ! b)) (\<lambda>x. x\<lparr>b_prev := b_prev (bufs s ! b)\<rparr>) s;
              s = upd_buf (b_prev (bufs s ! b)) (\<lambda>x. x\<lparr>b_next := b_next (bufs s ! b)\<rparr>) s;
              s = upd_buf b (\<lambda>x. x\<lparr>b_next := b_next (bufs s ! bhead)\<rparr>) s;
              s = upd_buf b (\<lambda>x. x\<lparr>b_prev := bhead\<rparr>) s;
              s = upd_buf (b_next (bufs s ! bhead)) (\<lambda>x. x\<lparr>b_prev := b\<rparr>) s in
          Inr (upd_buf bhead (\<lambda>x. x\<lparr>b_next := b\<rparr>) s)
        else Inr s)"

definition bpin :: "nat \<Rightarrow> 'a bstate_scheme \<Rightarrow> 'a bstate_scheme" where
  "bpin b s = upd_buf b (\<lambda>x. x\<lparr>b_refcnt := b_refcnt x + 1\<rparr>) s"

definition bunpin :: "nat \<Rightarrow> 'a bstate_scheme \<Rightarrow> 'a bstate_scheme" where
  "bunpin b s = upd_buf b (\<lambda>x. x\<lparr>b_refcnt := b_refcnt x - 1\<rparr>) s"

section \<open>Rings of nodes\<close>

text \<open>\<open>chain nx pv a xs z\<close>: from \<open>a\<close>, the forward links lead through \<open>xs\<close> to \<open>z\<close>, and the backward
  links lead back.\<close>

fun chain :: "(nat \<Rightarrow> nat) \<Rightarrow> (nat \<Rightarrow> nat) \<Rightarrow> nat \<Rightarrow> nat list \<Rightarrow> nat \<Rightarrow> bool" where
  "chain nx pv a [] z \<longleftrightarrow> nx a = z \<and> pv z = a"
| "chain nx pv a (x # xs) z \<longleftrightarrow> nx a = x \<and> pv x = a \<and> chain nx pv x xs z"

lemma chain_append: "chain nx pv a (us @ x # vs) z \<longleftrightarrow> chain nx pv a us x \<and> chain nx pv x vs z"
  by (induction us arbitrary: a) auto

lemma chain_cong:
  "(\<And>y. y \<in> set (a # xs) \<Longrightarrow> nx y = nx' y) \<Longrightarrow> (\<And>y. y \<in> set (xs @ [z]) \<Longrightarrow> pv y = pv' y) \<Longrightarrow>
   chain nx pv a xs z = chain nx' pv' a xs z"
  by (induction xs arbitrary: a) auto

lemma chain_hd: "chain nx pv a xs z \<Longrightarrow> nx a = hd (xs @ [z])"
  by (cases xs) auto

lemma chain_last: "chain nx pv a xs z \<Longrightarrow> pv z = last (a # xs)"
  by (induction xs arbitrary: a) auto

lemma chain_retarget:
  "chain nx pv a us b \<Longrightarrow> distinct (a # us) \<Longrightarrow> t \<notin> set us \<Longrightarrow>
   chain (nx(last (a # us) := t)) (pv(t := last (a # us))) a us t"
proof (induction us arbitrary: a)
  case Nil
  then show ?case by simp
next
  case (Cons u us)
  have "chain (nx(last (u # us) := t)) (pv(t := last (u # us))) u us t"
    using Cons.prems by (intro Cons.IH) auto
  moreover have "last (u # us) \<noteq> a" using Cons.prems(2) by (auto split: if_splits)
  moreover have "last (a # u # us) = last (u # us)" by simp
  ultimately show ?case using Cons.prems by (simp add: fun_upd_other del: last.simps fun_upd_apply)
qed

lemma chain_unlink:
  assumes c: "chain nx pv h (us @ b # vs) h" and d: "distinct (h # us @ b # vs)"
  shows "chain (nx(pv b := nx b)) (pv(nx b := pv b)) h (us @ vs) h"
proof -
  have c1: "chain nx pv h us b" and c2: "chain nx pv b vs h" using c by (auto simp: chain_append)
  have p: "pv b = last (h # us)" using chain_last [OF c1] .
  have n: "nx b = hd (vs @ [h])" using chain_hd [OF c2] .
  show ?thesis
  proof (cases vs)
    case Nil
    then have "chain (nx(last (h # us) := h)) (pv(h := last (h # us))) h us h"
      using d by (intro chain_retarget [OF c1]) auto
    then show ?thesis using Nil p n by simp
  next
    case (Cons v vs')
    then have nb: "nx b = v" using n by simp
    have "chain (nx(last (h # us) := v)) (pv(v := last (h # us))) h us v"
      using d Cons by (intro chain_retarget [OF c1]) auto
    moreover have "chain (nx(last (h # us) := v)) (pv(v := last (h # us))) v vs' h"
    proof -
      have "chain nx pv v vs' h" using c2 Cons by simp
      moreover have "y \<noteq> last (h # us)" if "y \<in> set (v # vs')" for y
        using that d Cons last_in_set [of "h # us"] by auto
      moreover have "y \<noteq> v" if "y \<in> set (vs' @ [h])" for y using that d Cons by auto
      ultimately show ?thesis by (subst chain_cong [where nx' = nx and pv' = pv]) auto
    qed
    ultimately show ?thesis by (simp add: Cons p nb chain_append del: last.simps)
  qed
qed

lemma chain_insert:
  assumes "chain nx pv h xs h" and "distinct (h # xs)" and "b \<notin> set (h # xs)"
  shows "chain (nx(b := nx h, h := b)) (pv(b := h, nx h := b)) h (b # xs) h"
proof (cases xs)
  case Nil
  then show ?thesis using assms by auto
next
  case (Cons x xs')
  then have "chain nx pv x xs' h" "nx h = x" using assms by auto
  moreover have "chain (nx(b := nx h, h := b)) (pv(b := h, x := b)) x xs' h = chain nx pv x xs' h"
    using assms Cons by (intro chain_cong) auto
  ultimately show ?thesis using assms Cons by auto
qed

definition ring :: "buf list \<Rightarrow> nat list \<Rightarrow> bool" where
  "ring bs xs \<longleftrightarrow> chain (\<lambda>i. b_next (bs ! i)) (\<lambda>i. b_prev (bs ! i)) bhead xs bhead \<and>
     distinct xs \<and> set xs = {..<NBUF} \<and> length bs = Suc NBUF"

lemma chain_find:
  assumes "chain nx pv a xs z" and "z \<notin> set xs" and "bhead = z"
    and "nx = (\<lambda>i. b_next (bs ! i))" and "length xs < n"
  shows "bget_cached n (nx a) dev bn bs =
    Inr (find (\<lambda>b. b_dev (bs ! b) = dev \<and> b_blockno (bs ! b) = bn) xs)"
  using assms
proof (induction xs arbitrary: a n)
  case Nil
  then show ?case by (cases n) auto
next
  case (Cons x xs)
  then obtain m where m: "n = Suc m" "length xs < m" by (cases n) auto
  have "bget_cached m (nx x) dev bn bs =
      Inr (find (\<lambda>b. b_dev (bs ! b) = dev \<and> b_blockno (bs ! b) = bn) xs)"
    using Cons m by (intro Cons.IH) auto
  then show ?case using Cons.prems m by auto
qed

lemma chain_snoc: "chain nx pv a (xs @ [x]) z \<longleftrightarrow> chain nx pv a xs x \<and> nx x = z \<and> pv z = x"
  by (simp add: chain_append)

lemma chain_find_back:
  assumes "chain nx pv z xs a" and "z \<notin> set xs" and "bhead = z"
    and "pv = (\<lambda>i. b_prev (bs ! i))" and "length xs < n"
  shows "bget_unused n (pv a) bs = Inr (find (\<lambda>b. b_refcnt (bs ! b) = 0) (rev xs))"
  using assms
proof (induction xs arbitrary: a n rule: rev_induct)
  case Nil
  then show ?case by (cases n) auto
next
  case (snoc x xs)
  then obtain m where m: "n = Suc m" "length xs < m" by (cases n) auto
  have "bget_unused m (pv x) bs = Inr (find (\<lambda>b. b_refcnt (bs ! b) = 0) (rev xs))"
    using snoc m by (intro snoc.IH) (auto simp: chain_snoc)
  then show ?case using snoc.prems m by (auto simp: chain_snoc)
qed

lemma ring_find_eq:
  assumes "ring bs xs"
  shows "bget_cached (NBUF + 1) (b_next (bs ! bhead)) dev bn bs =
      Inr (find (\<lambda>b. b_dev (bs ! b) = dev \<and> b_blockno (bs ! b) = bn) xs)"
    and "bget_unused (NBUF + 1) (b_prev (bs ! bhead)) bs =
      Inr (find (\<lambda>b. b_refcnt (bs ! b) = 0) (rev xs))"
proof -
  have c: "chain (\<lambda>i. b_next (bs ! i)) (\<lambda>i. b_prev (bs ! i)) bhead xs bhead" "bhead \<notin> set xs"
    using assms by (auto simp: ring_def)
  have l: "length xs < NBUF + 1"
    using assms distinct_card [of xs] by (simp add: ring_def)
  show "bget_cached (NBUF + 1) (b_next (bs ! bhead)) dev bn bs =
      Inr (find (\<lambda>b. b_dev (bs ! b) = dev \<and> b_blockno (bs ! b) = bn) xs)"
    using chain_find [OF c refl refl l] by simp
  show "bget_unused (NBUF + 1) (b_prev (bs ! bhead)) bs =
      Inr (find (\<lambda>b. b_refcnt (bs ! b) = 0) (rev xs))"
    using chain_find_back [OF c refl refl l] by simp
qed

text \<open>Moving a node to the front, as \<open>brelse\<close> does it, in terms of the two link functions.\<close>

definition set_next :: "nat \<Rightarrow> nat \<Rightarrow> buf list \<Rightarrow> buf list" where
  "set_next k v bs = bs[k := (bs ! k)\<lparr>b_next := v\<rparr>]"

definition set_prev :: "nat \<Rightarrow> nat \<Rightarrow> buf list \<Rightarrow> buf list" where
  "set_prev k v bs = bs[k := (bs ! k)\<lparr>b_prev := v\<rparr>]"

lemma nth_upd: "xs[k := x] ! i = (if k = i \<and> k < length xs then x else xs ! i)"
  by (cases "k < length xs") (auto simp: nth_list_update list_update_beyond)

lemma length_set_link [simp]: "length (set_next k v bs) = length bs" "length (set_prev k v bs) = length bs"
  by (simp_all add: set_next_def set_prev_def)

lemma link_set_next:
  "k < length bs \<Longrightarrow> (\<lambda>i. b_next (set_next k v bs ! i)) = (\<lambda>i. b_next (bs ! i))(k := v)"
  "(\<lambda>i. b_prev (set_next k v bs ! i)) = (\<lambda>i. b_prev (bs ! i))"
  by (simp_all add: set_next_def fun_eq_iff nth_upd)

lemma link_set_prev:
  "k < length bs \<Longrightarrow> (\<lambda>i. b_prev (set_prev k v bs ! i)) = (\<lambda>i. b_prev (bs ! i))(k := v)"
  "(\<lambda>i. b_next (set_prev k v bs ! i)) = (\<lambda>i. b_next (bs ! i))"
  by (simp_all add: set_prev_def fun_eq_iff nth_upd)

definition core :: "buf \<Rightarrow> buf" where
  "core x = x\<lparr>b_prev := 0, b_next := 0\<rparr>"

lemma core_set_link [simp]:
  "core (set_next k v bs ! i) = core (bs ! i)" "core (set_prev k v bs ! i) = core (bs ! i)"
  by (simp_all add: set_next_def set_prev_def core_def nth_upd)

definition move_front :: "nat \<Rightarrow> buf list \<Rightarrow> buf list" where
  "move_front b bs =
     (let bs = set_prev (b_next (bs ! b)) (b_prev (bs ! b)) bs;
          bs = set_next (b_prev (bs ! b)) (b_next (bs ! b)) bs;
          bs = set_next b (b_next (bs ! bhead)) bs;
          bs = set_prev b bhead bs;
          bs = set_prev (b_next (bs ! bhead)) b bs
      in set_next bhead b bs)"

lemma core_move_front [simp]: "core (move_front b bs ! i) = core (bs ! i)"
  by (simp add: move_front_def Let_def)

lemma ring_links_bound:
  assumes "ring bs xs" and "i \<le> NBUF"
  shows "b_next (bs ! i) \<le> NBUF" and "b_prev (bs ! i) \<le> NBUF"
proof -
  let ?nx = "\<lambda>i. b_next (bs ! i)" and ?pv = "\<lambda>i. b_prev (bs ! i)"
  have c: "chain ?nx ?pv bhead xs bhead" and st: "set xs = {..<NBUF}"
    using assms by (auto simp: ring_def)
  have el: "hd (vs @ [bhead]) \<le> NBUF" if "set vs \<subseteq> {..<NBUF}" for vs
    using that by (cases vs) (auto simp: less_imp_le)
  have el2: "last (bhead # vs) \<le> NBUF" if "set vs \<subseteq> {..<NBUF}" for vs
    using that subsetD [OF that last_in_set [of vs]] by (cases "vs = []") auto
  show "b_next (bs ! i) \<le> NBUF"
  proof (cases "i = NBUF")
    case True
    then show ?thesis using chain_hd [OF c] el [of xs] st by simp
  next
    case False
    then obtain us vs where "xs = us @ i # vs" using assms st split_list [of i xs] by fastforce
    then have "chain ?nx ?pv i vs bhead" "set vs \<subseteq> {..<NBUF}" using c st by (auto simp: chain_append)
    then show ?thesis using chain_hd el by metis
  qed
  show "b_prev (bs ! i) \<le> NBUF"
  proof (cases "i = NBUF")
    case True
    then show ?thesis using chain_last [OF c] el2 [of xs] st by simp
  next
    case False
    then obtain us vs where "xs = us @ i # vs" using assms st split_list [of i xs] by fastforce
    then have "chain ?nx ?pv bhead us i" "set us \<subseteq> {..<NBUF}" using c st by (auto simp: chain_append)
    then show ?thesis using chain_last el2 by metis
  qed
qed

lemma ring_move_front:
  assumes r: "ring bs xs" and b: "b < NBUF"
  shows "ring (move_front b bs) (b # remove1 b xs)"
proof -
  let ?nx = "\<lambda>bs i. b_next (bs ! i)" and ?pv = "\<lambda>bs i. b_prev (bs ! i)"
  have c: "chain (?nx bs) (?pv bs) bhead xs bhead" and st: "set xs = {..<NBUF}"
    and d: "distinct xs" and l: "length bs = Suc NBUF" using r by (auto simp: ring_def)
  obtain us vs where xs: "xs = us @ b # vs" using b st split_list [of b xs] by auto
  have db: "distinct (bhead # us @ b # vs)" using d st xs by auto
  have rm: "remove1 b xs = us @ vs" using d xs by (simp add: remove1_append)
  define bs1 where "bs1 = set_prev (b_next (bs ! b)) (b_prev (bs ! b)) bs"
  define bs2 where "bs2 = set_next (b_prev (bs1 ! b)) (b_next (bs1 ! b)) bs1"
  define bs3 where "bs3 = set_next b (b_next (bs2 ! bhead)) bs2"
  define bs4 where "bs4 = set_prev b bhead bs3"
  define bs5 where "bs5 = set_prev (b_next (bs4 ! bhead)) b bs4"
  have mf: "move_front b bs = set_next bhead b bs5"
    by (simp add: move_front_def Let_def bs1_def bs2_def bs3_def bs4_def bs5_def)
  have bd: "b_next (bs ! b) < length bs" "b_prev (bs ! b) < length bs"
    using ring_links_bound [OF r, of b] b l by simp_all
  have nb: "b_next (bs ! b) \<noteq> b"
    using chain_hd [of "?nx bs" "?pv bs" b vs bhead] c db xs b
    by (cases vs) (auto simp: chain_append)
  have 1: "?nx bs1 = ?nx bs" "?pv bs1 = (?pv bs)(b_next (bs ! b) := b_prev (bs ! b))" "length bs1 = length bs"
    using bd by (auto simp: bs1_def link_set_prev)
  have pv1: "b_prev (bs1 ! b) = b_prev (bs ! b)" "b_next (bs1 ! b) = b_next (bs ! b)"
    using fun_cong [OF 1(2), of b] fun_cong [OF 1(1), of b] nb by auto
  have 2: "?nx bs2 = (?nx bs)(b_prev (bs ! b) := b_next (bs ! b))" "?pv bs2 = ?pv bs1" "length bs2 = length bs"
    using bd 1 pv1 by (auto simp: bs2_def link_set_next)
  have u: "chain (?nx bs2) (?pv bs2) bhead (us @ vs) bhead"
    unfolding 2 1 using chain_unlink [OF c [unfolded xs] db] by simp
  have 3: "?nx bs3 = (?nx bs2)(b := b_next (bs2 ! bhead))" "?pv bs3 = ?pv bs2" "length bs3 = length bs"
    using b l 2 by (auto simp: bs3_def link_set_next)
  have 4: "?nx bs4 = ?nx bs3" "?pv bs4 = (?pv bs3)(b := bhead)" "length bs4 = length bs"
    using b l 3 by (auto simp: bs4_def link_set_prev)
  have nh: "b_next (bs4 ! bhead) = b_next (bs2 ! bhead)"
    using fun_cong [OF 4(1), of bhead] fun_cong [OF 3(1), of bhead] b by auto
  have "hd ((us @ vs) @ [bhead]) \<in> set ((us @ vs) @ [bhead])" by (rule hd_in_set) simp
  moreover have "y \<le> NBUF" if "y \<in> set us \<or> y \<in> set vs" for y
  proof -
    have "y \<in> set xs" using that by (auto simp only: xs set_append set_simps)
    then show ?thesis by (simp add: st)
  qed
  ultimately have "hd ((us @ vs) @ [bhead]) < Suc NBUF" by (auto simp del: hd_append2 simp: less_Suc_eq_le)
  then have nb2: "b_next (bs2 ! bhead) < length bs" using chain_hd [OF u] l by metis
  have 5: "?nx bs5 = ?nx bs4" "?pv bs5 = (?pv bs4)(b_next (bs2 ! bhead) := b)" "length bs5 = length bs"
    using nb2 4 nh by (auto simp: bs5_def link_set_prev)
  have 6: "?nx (move_front b bs) = (?nx bs2)(b := b_next (bs2 ! bhead), bhead := b)"
    "?pv (move_front b bs) = (?pv bs2)(b := bhead, b_next (bs2 ! bhead) := b)"
    unfolding mf using l 5 4 3 by (auto simp: link_set_next)
  have "chain (?nx (move_front b bs)) (?pv (move_front b bs)) bhead (b # us @ vs) bhead"
    unfolding 6 using chain_insert [OF u, of b] db by simp
  moreover have "length (move_front b bs) = Suc NBUF" using mf 5 l by simp
  moreover have "set (b # us @ vs) = {..<NBUF}" using st xs by auto
  ultimately show ?thesis unfolding ring_def rm using db by auto
qed

end
