(* ===== verification/BioInv.thy ===== *)
theory BioInv
  imports Bio
begin

text \<open>
  The contract of the buffer cache.  \<open>bst dev pid s P H\<close> says that the ring is intact, that no block
  of the device is cached twice, that \<open>H\<close> are the buffers locked (by the process \<open>pid\<close>), that the
  count of a buffer is its lock plus its pin, where \<open>P\<close> are the pinned block numbers, and that a
  cached block that is neither locked nor pinned agrees with the disk.  \<open>blk s dev\<close> is what the cache
  and the disk together hold: \<open>bread\<close> hands it out, and no operation but an assignment to a locked
  buffer changes it.
\<close>

section \<open>What the cache stands for\<close>

definition cached :: "'a bstate_scheme \<Rightarrow> uint32 \<Rightarrow> uint32 \<Rightarrow> nat option" where
  "cached s dev bn = first_index (\<lambda>x. b_dev x = dev \<and> b_blockno x = bn) (take NBUF (bufs s))"

definition blk :: "'a bstate_scheme \<Rightarrow> uint32 \<Rightarrow> uint32 \<Rightarrow> bytes" where
  "blk s dev bn =
     (case cached s dev bn of
        Some i \<Rightarrow> if b_valid (bufs s ! i) then b_data (bufs s ! i) else disk s bn
      | None \<Rightarrow> disk s bn)"

definition one_copy :: "buf list \<Rightarrow> bool" where
  "one_copy bs \<longleftrightarrow> (\<forall>i < NBUF. \<forall>j < NBUF. b_dev (bs ! i) = b_dev (bs ! j) \<longrightarrow>
     b_blockno (bs ! i) = b_blockno (bs ! j) \<longrightarrow> b_dev (bs ! i) \<noteq> 0 \<longrightarrow> i = j)"

definition pinned :: "uint32 \<Rightarrow> uint32 set \<Rightarrow> buf \<Rightarrow> bool" where
  "pinned dev P x \<longleftrightarrow> b_dev x = dev \<and> b_blockno x \<in> P"

definition buf_ok :: "uint32 \<Rightarrow> int \<Rightarrow> (uint32 \<Rightarrow> bytes) \<Rightarrow> uint32 set \<Rightarrow> bool \<Rightarrow> buf \<Rightarrow> bool" where
  "buf_ok dev pid dsk P held x \<longleftrightarrow>
     (sl_locked (b_lock x) \<noteq> 0 \<longleftrightarrow> held) \<and>
     (held \<longrightarrow> sl_pid (b_lock x) = pid \<and> b_valid x \<and> b_dev x = dev) \<and>
     b_refcnt x = of_bool held + of_bool (pinned dev P x) \<and>
     (b_valid x \<longrightarrow> length (b_data x) = BSIZE) \<and>
     (pinned dev P x \<longrightarrow> b_valid x) \<and>
     (b_valid x \<longrightarrow> \<not> held \<longrightarrow> \<not> pinned dev P x \<longrightarrow> b_dev x = dev \<longrightarrow> b_data x = dsk (b_blockno x))"

definition bst :: "uint32 \<Rightarrow> int \<Rightarrow> 'a bstate_scheme \<Rightarrow> uint32 set \<Rightarrow> nat set \<Rightarrow> bool" where
  "bst dev pid s P H \<longleftrightarrow>
     dev \<noteq> 0 \<and> (\<exists>xs. ring (bufs s) xs) \<and> one_copy (bufs s) \<and> H \<subseteq> {..<NBUF} \<and>
     (\<forall>p \<in> P. \<exists>i < NBUF. b_dev (bufs s ! i) = dev \<and> b_blockno (bufs s ! i) = p) \<and>
     (\<forall>bn. length (disk s bn) = BSIZE) \<and>
     (\<forall>i < NBUF. buf_ok dev pid (disk s) P (i \<in> H) (bufs s ! i))"

lemma bstD:
  assumes "bst dev pid s P H"
  shows "dev \<noteq> 0" and "\<exists>xs. ring (bufs s) xs" and "one_copy (bufs s)" and "H \<subseteq> {..<NBUF}"
    and "p \<in> P \<Longrightarrow> \<exists>i < NBUF. b_dev (bufs s ! i) = dev \<and> b_blockno (bufs s ! i) = p"
    and "length (disk s bn) = BSIZE"
    and "i < NBUF \<Longrightarrow> buf_ok dev pid (disk s) P (i \<in> H) (bufs s ! i)"
    and "length (bufs s) = Suc NBUF"
  using assms by (auto simp: bst_def ring_def)

lemma one_copyD:
  "one_copy bs \<Longrightarrow> i < NBUF \<Longrightarrow> j < NBUF \<Longrightarrow> b_dev (bs ! i) = b_dev (bs ! j) \<Longrightarrow>
   b_blockno (bs ! i) = b_blockno (bs ! j) \<Longrightarrow> b_dev (bs ! i) \<noteq> 0 \<Longrightarrow> i = j"
  unfolding one_copy_def by blast

lemma cached_Some:
  assumes "bst dev pid s P H"
  shows "cached s dev bn = Some i \<longleftrightarrow> i < NBUF \<and> b_dev (bufs s ! i) = dev \<and> b_blockno (bufs s ! i) = bn"
proof -
  have l: "length (take NBUF (bufs s)) = NBUF" using bstD(8) [OF assms] by simp
  have u: "j = i" if "i < NBUF" "j < NBUF" "b_dev (bufs s ! i) = dev" "b_blockno (bufs s ! i) = bn"
    "b_dev (bufs s ! j) = dev" "b_blockno (bufs s ! j) = bn" for i j
    using one_copyD [OF bstD(3) [OF assms]] that bstD(1) [OF assms] by metis
  show ?thesis unfolding cached_def first_index_Some l
    using u by (auto dest: less_trans) (metis less_irrefl less_trans)
qed

lemma cached_None:
  assumes "bst dev pid s P H"
  shows "cached s dev bn = None \<longleftrightarrow> (\<forall>i < NBUF. \<not> (b_dev (bufs s ! i) = dev \<and> b_blockno (bufs s ! i) = bn))"
  using cached_Some [OF assms, of bn] by (metis not_None_eq)

lemma blk_cached:
  "bst dev pid s P H \<Longrightarrow> i < NBUF \<Longrightarrow> b_dev (bufs s ! i) = dev \<Longrightarrow> b_blockno (bufs s ! i) = bn \<Longrightarrow>
   b_valid (bufs s ! i) \<Longrightarrow> blk s dev bn = b_data (bufs s ! i)"
  using cached_Some [of dev pid s P H bn i] by (simp add: blk_def)

lemma blk_clean:
  assumes "bst dev pid s P H" and "bn \<notin> P" and "\<And>i. i \<in> H \<Longrightarrow> b_blockno (bufs s ! i) \<noteq> bn"
  shows "blk s dev bn = disk s bn"
proof (cases "cached s dev bn")
  case (Some i)
  then have i: "i < NBUF" "b_dev (bufs s ! i) = dev" "b_blockno (bufs s ! i) = bn"
    using cached_Some [OF assms(1)] by auto
  then show ?thesis using bstD(7) [OF assms(1) i(1)] Some assms(2,3)
    by (auto simp: blk_def buf_ok_def pinned_def)
qed (simp add: blk_def)

lemma length_blk: "bst dev pid s P H \<Longrightarrow> length (blk s dev bn) = BSIZE"
  using bstD(6,7) [of dev pid s P H] cached_Some [of dev pid s P H bn]
  by (auto simp: blk_def buf_ok_def split: option.splits)

lemma ring_core: "ring bs xs \<Longrightarrow> length bs' = length bs \<Longrightarrow>
  (\<And>i. b_next (bs' ! i) = b_next (bs ! i)) \<Longrightarrow> (\<And>i. b_prev (bs' ! i) = b_prev (bs ! i)) \<Longrightarrow> ring bs' xs"
  by (simp add: ring_def)

lemma bufs_upd_buf: "bufs (upd_buf i f s) = (bufs s)[i := f (bufs s ! i)]"
  by (simp add: upd_buf_def)

lemma upd_buf_nth:
  "i < length (bufs s) \<Longrightarrow> bufs (upd_buf i f s) ! j = (if j = i then f (bufs s ! i) else bufs s ! j)"
  by (simp add: upd_buf_def nth_upd)

lemma upd_buf_sel [simp]:
  "procs (upd_buf i f s) = procs s" "disk (upd_buf i f s) = disk s"
  "disk_writes (upd_buf i f s) = disk_writes s" "length (bufs (upd_buf i f s)) = length (bufs s)"
  by (simp_all add: upd_buf_def)

lemma find_in: "find Q xs = Some x \<Longrightarrow> x \<in> set xs \<and> Q x"
  by (induction xs) (auto split: if_splits)

lemma find_some: "x \<in> set xs \<Longrightarrow> Q x \<Longrightarrow> \<exists>y. find Q xs = Some y"
  by (induction xs) auto

section \<open>bread\<close>

text \<open>\<open>bread\<close> replaces one buffer by \<open>x\<close>, which is locked and holds the block.\<close>

lemma bget_scan:
  assumes inv: "bst dev pid s P H"
  shows "bget_cached (NBUF + 1) (b_next (bufs s ! bhead)) dev bn (bufs s) = Inr (cached s dev bn)"
    and "\<exists>r. bget_unused (NBUF + 1) (b_prev (bufs s ! bhead)) (bufs s) = Inr r \<and>
      (case r of Some i \<Rightarrow> i < NBUF \<and> b_refcnt (bufs s ! i) = 0
               | None \<Rightarrow> \<forall>i < NBUF. b_refcnt (bufs s ! i) \<noteq> 0)"
proof -
  obtain xs where r: "ring (bufs s) xs" using bstD(2) [OF inv] by blast
  have st: "set xs = {..<NBUF}" using r by (simp add: ring_def)
  let ?Q = "\<lambda>b. b_dev (bufs s ! b) = dev \<and> b_blockno (bufs s ! b) = bn"
  have "find ?Q xs = cached s dev bn"
  proof (cases "find ?Q xs")
    case None
    have "\<not> ?Q b" if "b < NBUF" for b
      using None find_some [of b xs ?Q] that st by auto
    then have "cached s dev bn = None" using cached_None [OF inv] by blast
    then show ?thesis using None by simp
  next
    case (Some b)
    then have "b < NBUF \<and> ?Q b" using find_in [of ?Q xs b] st by auto
    then have "cached s dev bn = Some b" using cached_Some [OF inv] by blast
    then show ?thesis using Some by simp
  qed
  then show "bget_cached (NBUF + 1) (b_next (bufs s ! bhead)) dev bn (bufs s) = Inr (cached s dev bn)"
    using ring_find_eq(1) [OF r] by simp
  let ?U = "\<lambda>b. b_refcnt (bufs s ! b) = 0"
  show "\<exists>r. bget_unused (NBUF + 1) (b_prev (bufs s ! bhead)) (bufs s) = Inr r \<and>
      (case r of Some i \<Rightarrow> i < NBUF \<and> b_refcnt (bufs s ! i) = 0
               | None \<Rightarrow> \<forall>i < NBUF. b_refcnt (bufs s ! i) \<noteq> 0)"
  proof (cases "find ?U (rev xs)")
    case None
    have "\<not> ?U b" if "b < NBUF" for b
      using None find_some [of b "rev xs" ?U] that st by auto
    then show ?thesis using ring_find_eq(2) [OF r] None by auto
  next
    case (Some b)
    then show ?thesis using ring_find_eq(2) [OF r] find_in [OF Some] st by auto
  qed
qed

text \<open>Replacing one buffer, links untouched, keeps the invariant when the new one is well-formed.\<close>

lemma bst_replace:
  assumes inv: "bst dev pid s P H" and b: "b < NBUF"
    and s': "bufs s' = (bufs s)[b := x]" "\<And>n. length (disk s' n) = BSIZE"
    and links: "b_next x = b_next (bufs s ! b)" "b_prev x = b_prev (bufs s ! b)"
    and uniq: "\<And>j. j < NBUF \<Longrightarrow> j \<noteq> b \<Longrightarrow> b_dev (bufs s ! j) = b_dev x \<Longrightarrow>
      b_blockno (bufs s ! j) = b_blockno x \<Longrightarrow> b_dev x = 0"
    and ok: "buf_ok dev pid (disk s') P' (b \<in> H') x"
    and others: "\<And>j. j < NBUF \<Longrightarrow> j \<noteq> b \<Longrightarrow>
      buf_ok dev pid (disk s') P' (j \<in> H') (bufs s ! j)"
    and P': "\<And>p. p \<in> P' \<Longrightarrow> b_dev x = dev \<and> b_blockno x = p \<or>
      (\<exists>j < NBUF. j \<noteq> b \<and> b_dev (bufs s ! j) = dev \<and> b_blockno (bufs s ! j) = p)"
    and H': "H' \<subseteq> {..<NBUF}"
  shows "bst dev pid s' P' H'"
proof -
  have l: "length (bufs s) = Suc NBUF" using bstD(8) [OF inv] .
  have nth: "bufs s' ! j = (if j = b then x else bufs s ! j)" for j
    using b l by (simp add: s'(1) nth_upd)
  obtain xs where "ring (bufs s) xs" using bstD(2) [OF inv] by blast
  then have "ring (bufs s') xs"
    by (rule ring_core) (simp_all add: s'(1) nth_upd links)
  moreover have "one_copy (bufs s')" unfolding one_copy_def
  proof (intro allI impI)
    fix i j assume ij: "i < NBUF" "j < NBUF" "b_dev (bufs s' ! i) = b_dev (bufs s' ! j)"
      "b_blockno (bufs s' ! i) = b_blockno (bufs s' ! j)" "b_dev (bufs s' ! i) \<noteq> 0"
    show "i = j"
      using ij uniq [of i] uniq [of j] one_copyD [OF bstD(3) [OF inv], of i j]
      by (cases "i = b"; cases "j = b") (auto simp: nth)
  qed
  moreover have "\<exists>i < NBUF. b_dev (bufs s' ! i) = dev \<and> b_blockno (bufs s' ! i) = p" if "p \<in> P'" for p
    using P' [OF that]
  proof
    assume "b_dev x = dev \<and> b_blockno x = p"
    then show ?thesis using b nth by (intro exI [of _ b]) simp
  next
    assume "\<exists>j < NBUF. j \<noteq> b \<and> b_dev (bufs s ! j) = dev \<and> b_blockno (bufs s ! j) = p"
    then show ?thesis using nth by auto
  qed
  moreover have "\<forall>i < NBUF. buf_ok dev pid (disk s') P' (i \<in> H') (bufs s' ! i)"
    using ok others nth by simp
  ultimately show ?thesis using bstD(1) [OF inv] H' s'(2) by (auto simp: bst_def)
qed

lemma blk_replace:
  assumes inv: "bst dev pid s P H" and inv': "bst dev pid s' P' H'" and b: "b < NBUF"
    and s': "bufs s' = (bufs s)[b := x]"
    and x: "b_dev x = dev" "b_valid x"
    and disk: "n \<noteq> b_blockno x \<Longrightarrow> disk s' n = disk s n"
    and old: "n \<noteq> b_blockno x \<Longrightarrow> b_dev (bufs s ! b) = dev \<Longrightarrow> b_valid (bufs s ! b) \<Longrightarrow>
      b_blockno (bufs s ! b) = n \<Longrightarrow> b_data (bufs s ! b) = disk s n"
  shows "blk s' dev n = (if n = b_blockno x then b_data x else blk s dev n)"
proof -
  have l: "length (bufs s) = Suc NBUF" using bstD(8) [OF inv] .
  have nth: "bufs s' ! j = (if j = b then x else bufs s ! j)" for j
    using b l by (simp add: s' nth_upd)
  show ?thesis
  proof (cases "n = b_blockno x")
    case True
    then show ?thesis using blk_cached [OF inv' b] x nth by simp
  next
    case False
    show ?thesis
    proof (cases "cached s' dev n")
      case (Some j)
      then have j: "j < NBUF" "b_dev (bufs s' ! j) = dev" "b_blockno (bufs s' ! j) = n"
        using cached_Some [OF inv'] by auto
      then have "j \<noteq> b" using False nth by auto
      then have "cached s dev n = Some j" using cached_Some [OF inv] j nth by auto
      then show ?thesis using Some False \<open>j \<noteq> b\<close> nth disk by (simp add: blk_def)
    next
      case None
      then have no: "\<not> (b_dev (bufs s ! j) = dev \<and> b_blockno (bufs s ! j) = n)" if "j < NBUF" "j \<noteq> b" for j
        using cached_None [OF inv'] nth that by metis
      have "blk s dev n = disk s n"
      proof (cases "cached s dev n")
        case (Some j)
        then have "j < NBUF" "b_dev (bufs s ! j) = dev" "b_blockno (bufs s ! j) = n"
          using cached_Some [OF inv] by auto
        moreover from this no have "j = b" by blast
        ultimately show ?thesis using Some old False by (simp add: blk_def)
      qed (simp add: blk_def)
      then show ?thesis using None False disk by (simp add: blk_def)
    qed
  qed
qed

lemma bst_room:
  assumes inv: "bst dev pid s P H" and fin: "finite P" and room: "card H + card P < NBUF"
  shows "\<exists>i < NBUF. b_refcnt (bufs s ! i) = 0"
proof (rule ccontr)
  assume "\<not> ?thesis"
  then have all: "b_refcnt (bufs s ! i) \<noteq> 0" if "i < NBUF" for i using that by blast
  let ?Q = "{i. i < NBUF \<and> pinned dev P (bufs s ! i)}"
  have "{..<NBUF} \<subseteq> H \<union> ?Q"
  proof
    fix i assume "i \<in> {..<NBUF}"
    then show "i \<in> H \<union> ?Q" using all [of i] bstD(7) [OF inv, of i] by (auto simp: buf_ok_def)
  qed
  moreover have fh: "finite H" using bstD(4) [OF inv] finite_subset by blast
  ultimately have "card {..<NBUF} \<le> card (H \<union> ?Q)" by (intro card_mono) auto
  also have "\<dots> \<le> card H + card ?Q" by (rule card_Un_le)
  also have "card ?Q \<le> card P"
  proof (rule card_inj_on_le [where f = "\<lambda>i. b_blockno (bufs s ! i)"])
    show "inj_on (\<lambda>i. b_blockno (bufs s ! i)) ?Q"
      using one_copyD [OF bstD(3) [OF inv]] bstD(1) [OF inv]
      by (intro inj_onI) (auto simp: pinned_def)
  qed (auto simp: pinned_def fin)
  finally show False using room by simp
qed

lemma bread_spec:
  assumes inv: "bst dev pid s P H" and me: "p_pid (procs s ! me) = pid"
    and nl: "\<And>i. i \<in> H \<Longrightarrow> b_blockno (bufs s ! i) \<noteq> bn"
    and room: "bn \<in> P \<or> finite P \<and> card H + card P < NBUF"
  obtains b x where "bread me dev bn s = Inr (b, s\<lparr>bufs := (bufs s)[b := x]\<rparr>)" "b < NBUF" "b \<notin> H"
    "b_dev x = dev" "b_blockno x = bn" "b_valid x" "b_data x = blk s dev bn"
    "bst dev pid (s\<lparr>bufs := (bufs s)[b := x]\<rparr>) P (insert b H)"
    "\<And>n. blk (s\<lparr>bufs := (bufs s)[b := x]\<rparr>) dev n = blk s dev n"
proof -
  have l: "length (bufs s) = Suc NBUF" using bstD(8) [OF inv] .
  let ?lk = "\<lambda>y. (b_lock y)\<lparr>sl_locked := 1, sl_pid := pid\<rparr>"
  \<comment> \<open>the buffer that \<open>bget\<close> returns\<close>
  obtain b y where b: "b < NBUF" "b \<notin> H" and y: "b_dev y = dev" "b_blockno y = bn"
      "b_next y = b_next (bufs s ! b)" "b_prev y = b_prev (bufs s ! b)"
      "b_lock y = ?lk (bufs s ! b)" "b_refcnt y = 1 + of_bool (pinned dev P y)"
      "b_valid y \<Longrightarrow> b_data y = blk s dev bn" "\<not> b_valid y \<Longrightarrow> blk s dev bn = disk s bn"
      "pinned dev P y \<Longrightarrow> b_valid y" "b_valid y \<Longrightarrow> length (b_data y) = BSIZE"
    and get: "bget me dev bn s = Inr (b, s\<lparr>bufs := (bufs s)[b := y]\<rparr>)"
    and prev: "b_dev (bufs s ! b) = dev \<Longrightarrow> b_blockno (bufs s ! b) = bn \<or> b_refcnt (bufs s ! b) = 0"
    and un: "\<And>j. j < NBUF \<Longrightarrow> j \<noteq> b \<Longrightarrow> \<not> (b_dev (bufs s ! j) = dev \<and> b_blockno (bufs s ! j) = bn)"
    and pp: "pinned dev P (bufs s ! b) \<Longrightarrow> b_blockno (bufs s ! b) = bn"
  proof (cases "cached s dev bn")
    case (Some b)
    then have b: "b < NBUF" "b_dev (bufs s ! b) = dev" "b_blockno (bufs s ! b) = bn"
      using cached_Some [OF inv] by auto
    have h: "b \<notin> H" using nl b by auto
    have ok: "buf_ok dev pid (disk s) P False (bufs s ! b)" using bstD(7) [OF inv b(1)] h by simp
    define y where "y = (bufs s ! b)\<lparr>b_refcnt := b_refcnt (bufs s ! b) + 1, b_lock := ?lk (bufs s ! b)\<rparr>"
    have "bget me dev bn s = Inr (b, s\<lparr>bufs := (bufs s)[b := y]\<rparr>)"
      using bget_scan(1) [OF inv, of bn] Some b l ok me
      by (simp add: bget_def block_lock_def acquiresleep_def upd_buf_def y_def nth_upd buf_ok_def)
    moreover have "j < NBUF \<Longrightarrow> j \<noteq> b \<Longrightarrow> \<not> (b_dev (bufs s ! j) = dev \<and> b_blockno (bufs s ! j) = bn)" for j
      using one_copyD [OF bstD(3) [OF inv], of j b] b bstD(1) [OF inv] by auto
    ultimately show ?thesis
      using that [of b y] b h ok Some by (auto simp: y_def blk_def buf_ok_def pinned_def)
  next
    case None
    then have nc: "\<not> (b_dev (bufs s ! j) = dev \<and> b_blockno (bufs s ! j) = bn)" if "j < NBUF" for j
      using cached_None [OF inv] that by blast
    have nP: "bn \<notin> P" using bstD(5) [OF inv, of bn] nc by blast
    then have "\<exists>i < NBUF. b_refcnt (bufs s ! i) = 0" using bst_room [OF inv] room by blast
    then obtain b where un: "bget_unused (NBUF + 1) (b_prev (bufs s ! bhead)) (bufs s) = Inr (Some b)"
      and b: "b < NBUF" "b_refcnt (bufs s ! b) = 0"
      using bget_scan(2) [OF inv] by (force split: option.splits)
    have ok: "buf_ok dev pid (disk s) P (b \<in> H) (bufs s ! b)" using bstD(7) [OF inv b(1)] .
    have h: "b \<notin> H" "\<not> pinned dev P (bufs s ! b)"
      using ok b(2) by (cases "pinned dev P (bufs s ! b)"; auto simp: buf_ok_def)+
    define y where "y = (bufs s ! b)\<lparr>b_dev := dev, b_blockno := bn, b_valid := False, b_refcnt := 1,
      b_lock := ?lk (bufs s ! b)\<rparr>"
    have get: "bget me dev bn s = Inr (b, s\<lparr>bufs := (bufs s)[b := y]\<rparr>)"
      using bget_scan(1) [OF inv, of bn] un None b l ok h me
      by (simp add: bget_def block_lock_def acquiresleep_def upd_buf_def y_def nth_upd buf_ok_def)
    have blk: "blk s dev bn = disk s bn" using None by (simp add: blk_def)
    show ?thesis
    proof (rule that [OF b(1) h(1) _ _ _ _ _ _ _ _ _ _ get])
      show "b_refcnt y = 1 + of_bool (pinned dev P y)" using nP by (simp add: y_def pinned_def)
      show "pinned dev P y \<Longrightarrow> b_valid y" using nP by (simp add: y_def pinned_def)
      show "pinned dev P (bufs s ! b) \<Longrightarrow> b_blockno (bufs s ! b) = bn" using h(2) by blast
      show "j < NBUF \<Longrightarrow> j \<noteq> b \<Longrightarrow> \<not> (b_dev (bufs s ! j) = dev \<and> b_blockno (bufs s ! j) = bn)" for j
        using nc by blast
      show "b_dev (bufs s ! b) = dev \<Longrightarrow> b_blockno (bufs s ! b) = bn \<or> b_refcnt (bufs s ! b) = 0"
        using b(2) by blast
    qed (simp_all add: y_def blk)
  qed
  define x where "x = y\<lparr>b_valid := True, b_data := blk s dev bn\<rparr>"
  let ?s' = "s\<lparr>bufs := (bufs s)[b := x]\<rparr>"
  have rd: "bread me dev bn s = Inr (b, ?s')"
  proof (cases "b_valid y")
    case True
    then have "x = y" using y(7) by (simp add: x_def)
    then show ?thesis using get b(1) l True by (simp add: bread_def nth_upd)
  next
    case False
    then have "x = y\<lparr>b_data := disk s (b_blockno y), b_valid := True\<rparr>" using y(2,8) by (simp add: x_def)
    then show ?thesis using get b(1) l False
      by (simp add: bread_def disk_rw_def upd_buf_def nth_upd)
  qed
  have inv': "bst dev pid ?s' P (insert b H)"
  proof (rule bst_replace [OF inv b(1)])
    show "buf_ok dev pid (disk ?s') P (b \<in> insert b H) x"
      using y length_blk [OF inv, of bn] by (simp add: x_def buf_ok_def pinned_def)
    show "buf_ok dev pid (disk ?s') P (j \<in> insert b H) (bufs s ! j)" if "j < NBUF" "j \<noteq> b" for j
      using bstD(7) [OF inv that(1)] that by simp
    show "b_dev x = dev \<and> b_blockno x = p \<or>
      (\<exists>j < NBUF. j \<noteq> b \<and> b_dev (bufs s ! j) = dev \<and> b_blockno (bufs s ! j) = p)" if "p \<in> P" for p
      using bstD(5) [OF inv that] pp that y by (auto simp: x_def pinned_def)
  qed (use y un bstD(4,6) [OF inv] b in \<open>auto simp: x_def\<close>)
  moreover have "blk ?s' dev n = blk s dev n" for n
  proof -
    have "blk ?s' dev n = (if n = b_blockno x then b_data x else blk s dev n)"
    proof (rule blk_replace [OF inv inv' b(1)])
      show "b_data (bufs s ! b) = disk s n" if "n \<noteq> b_blockno x" "b_dev (bufs s ! b) = dev"
        "b_valid (bufs s ! b)" "b_blockno (bufs s ! b) = n"
        using bstD(7) [OF inv b(1)] that b(2) pp y prev by (auto simp: buf_ok_def x_def)
    qed (simp_all add: x_def y)
    then show ?thesis using y by (simp add: x_def)
  qed
  ultimately show ?thesis using that [of b x] rd b y by (simp add: x_def)
qed

section \<open>Using and releasing a buffer\<close>

lemma held_unique:
  assumes "bst dev pid s P H" and "b \<in> H" and "j < NBUF" and "j \<noteq> b"
    and "b_dev (bufs s ! j) = dev"
  shows "b_blockno (bufs s ! j) \<noteq> b_blockno (bufs s ! b)"
proof -
  have "b < NBUF" using assms bstD(4) by blast
  then show ?thesis using one_copyD [OF bstD(3) [OF assms(1)], of j b] bstD(1,7) [OF assms(1)] assms
    by (auto simp: buf_ok_def)
qed

lemma heldD:
  assumes "bst dev pid s P H" and "b \<in> H"
  shows "b < NBUF" and "b_valid (bufs s ! b)" and "b_dev (bufs s ! b) = dev"
    and "sl_locked (b_lock (bufs s ! b)) \<noteq> 0" and "sl_pid (b_lock (bufs s ! b)) = pid"
    and "b_refcnt (bufs s ! b) = 1 + of_bool (b_blockno (bufs s ! b) \<in> P)"
    and "length (b_data (bufs s ! b)) = BSIZE" and "blk s dev (b_blockno (bufs s ! b)) = b_data (bufs s ! b)"
proof -
  show b: "b < NBUF" using assms bstD(4) by blast
  have "buf_ok dev pid (disk s) P True (bufs s ! b)" using bstD(7) [OF assms(1) b] assms(2) by simp
  then show v: "b_valid (bufs s ! b)" "b_dev (bufs s ! b) = dev" "sl_locked (b_lock (bufs s ! b)) \<noteq> 0"
    "sl_pid (b_lock (bufs s ! b)) = pid" "length (b_data (bufs s ! b)) = BSIZE"
    "b_refcnt (bufs s ! b) = 1 + of_bool (b_blockno (bufs s ! b) \<in> P)"
    by (auto simp: buf_ok_def pinned_def)
  show "blk s dev (b_blockno (bufs s ! b)) = b_data (bufs s ! b)"
    using blk_cached [OF assms(1) b v(2) refl v(1)] .
qed

lemma holdingsleep_held:
  "bst dev pid s P H \<Longrightarrow> b \<in> H \<Longrightarrow> p_pid (procs s ! me) = pid \<Longrightarrow> holdingsleep me s (b_lock (bufs s ! b))"
  using heldD(4,5) [of dev pid s P H b] by (simp add: holdingsleep_def)

text \<open>Replacing a held buffer by one for the same block.\<close>

lemma bst_update_held:
  assumes inv: "bst dev pid s P H" and b: "b \<in> H"
    and s': "bufs s' = (bufs s)[b := x]" "disk s' = disk s"
    and x: "b_next x = b_next (bufs s ! b)" "b_prev x = b_prev (bufs s ! b)"
      "b_dev x = dev" "b_blockno x = b_blockno (bufs s ! b)" "b_valid x" "length (b_data x) = BSIZE"
    and ok: "sl_locked (b_lock x) \<noteq> 0 \<longleftrightarrow> b \<in> H'" "b \<in> H' \<Longrightarrow> sl_pid (b_lock x) = pid"
      "b_refcnt x = of_bool (b \<in> H') + of_bool (b_blockno x \<in> P')"
      "b \<notin> H' \<Longrightarrow> b_blockno x \<notin> P' \<Longrightarrow> b_data x = disk s (b_blockno x)"
    and H': "H' = H \<or> H' = H - {b}"
    and P': "P' - {b_blockno x} = P - {b_blockno x}"
  shows "bst dev pid s' P' H'"
    and "blk s' dev n = (if n = b_blockno x then b_data x else blk s dev n)"
proof -
  note hd = heldD [OF inv b]
  have other: "buf_ok dev pid (disk s') P' (j \<in> H') (bufs s ! j)" if j: "j < NBUF" "j \<noteq> b" for j
  proof -
    have "pinned dev P' (bufs s ! j) = pinned dev P (bufs s ! j)"
      using held_unique [OF inv b j] x(4) P' by (auto simp: pinned_def)
    moreover have "j \<in> H' \<longleftrightarrow> j \<in> H" using H' j by auto
    ultimately show ?thesis using bstD(7) [OF inv j(1)] s'(2) by (simp add: buf_ok_def)
  qed
  show inv': "bst dev pid s' P' H'"
  proof (rule bst_replace [OF inv hd(1) s'(1)])
    show "buf_ok dev pid (disk s') P' (b \<in> H') x"
      using ok x s'(2) by (auto simp: buf_ok_def pinned_def)
    show "b_dev x = dev \<and> b_blockno x = p \<or>
      (\<exists>j < NBUF. j \<noteq> b \<and> b_dev (bufs s ! j) = dev \<and> b_blockno (bufs s ! j) = p)" if "p \<in> P'" for p
    proof (cases "p = b_blockno x")
      case False
      then have "p \<in> P" using that P' by auto
      then obtain j where "j < NBUF" "b_dev (bufs s ! j) = dev" "b_blockno (bufs s ! j) = p"
        using bstD(5) [OF inv] by blast
      moreover from this False x(4) have "j \<noteq> b" by auto
      ultimately show ?thesis by blast
    qed (use x in simp)
    show "b_dev x = 0" if "j < NBUF" "j \<noteq> b" "b_dev (bufs s ! j) = b_dev x"
      "b_blockno (bufs s ! j) = b_blockno x" for j
      using held_unique [OF inv b that(1,2)] that(3,4) x(3,4) by simp
    show "H' \<subseteq> {..<NBUF}" using H' bstD(4) [OF inv] by auto
  qed (use other x s' bstD(6) [OF inv] in auto)
  show "blk s' dev n = (if n = b_blockno x then b_data x else blk s dev n)"
  proof (rule blk_replace [OF inv inv' hd(1) s'(1) x(3,5)])
    show "b_data (bufs s ! b) = disk s n" if "n \<noteq> b_blockno x" "b_blockno (bufs s ! b) = n"
      using that x(4) by simp
  qed (use s' in auto)
qed

lemma set_data_spec:
  assumes inv: "bst dev pid s P H" and b: "b \<in> H" and d: "length (f (bufs s ! b)) = BSIZE"
  shows "bst dev pid (upd_buf b (\<lambda>x. x\<lparr>b_data := f x\<rparr>) s) P H"
    and "blk (upd_buf b (\<lambda>x. x\<lparr>b_data := f x\<rparr>) s) dev n =
      (if n = b_blockno (bufs s ! b) then f (bufs s ! b) else blk s dev n)"
proof -
  note hd = heldD [OF inv b]
  let ?x = "(bufs s ! b)\<lparr>b_data := f (bufs s ! b)\<rparr>"
  have *: "bufs (upd_buf b (\<lambda>x. x\<lparr>b_data := f x\<rparr>) s) = (bufs s)[b := ?x]" by (simp add: upd_buf_def)
  show "bst dev pid (upd_buf b (\<lambda>x. x\<lparr>b_data := f x\<rparr>) s) P H"
    by (rule bst_update_held(1) [OF inv b *]) (use hd d b in \<open>auto simp: upd_buf_def\<close>)
  have "blk (upd_buf b (\<lambda>x. x\<lparr>b_data := f x\<rparr>) s) dev n =
      (if n = b_blockno ?x then b_data ?x else blk s dev n)"
    by (rule bst_update_held(2) [OF inv b *, where P' = P and H' = H])
      (use hd d b in \<open>auto simp: upd_buf_def\<close>)
  then show "blk (upd_buf b (\<lambda>x. x\<lparr>b_data := f x\<rparr>) s) dev n =
      (if n = b_blockno (bufs s ! b) then f (bufs s ! b) else blk s dev n)" by simp
qed

lemma bpin_spec:
  assumes inv: "bst dev pid s P H" and b: "b \<in> H" and n: "b_blockno (bufs s ! b) \<notin> P"
  shows "bst dev pid (bpin b s) (insert (b_blockno (bufs s ! b)) P) H" and "blk (bpin b s) dev bn = blk s dev bn"
proof -
  note hd = heldD [OF inv b]
  let ?x = "(bufs s ! b)\<lparr>b_refcnt := b_refcnt (bufs s ! b) + 1\<rparr>"
  have *: "bufs (bpin b s) = (bufs s)[b := ?x]" by (simp add: bpin_def upd_buf_def)
  show "bst dev pid (bpin b s) (insert (b_blockno (bufs s ! b)) P) H"
    by (rule bst_update_held(1) [OF inv b *]) (use hd b n in \<open>auto simp: bpin_def upd_buf_def\<close>)
  have "blk (bpin b s) dev bn = (if bn = b_blockno ?x then b_data ?x else blk s dev bn)"
    by (rule bst_update_held(2) [OF inv b *, where P' = "insert (b_blockno (bufs s ! b)) P" and H' = H])
      (use hd b n in \<open>auto simp: bpin_def upd_buf_def\<close>)
  then show "blk (bpin b s) dev bn = blk s dev bn" using hd by simp
qed

lemma bunpin_spec:
  assumes inv: "bst dev pid s P H" and b: "b \<in> H" and n: "b_blockno (bufs s ! b) \<in> P"
  shows "bst dev pid (bunpin b s) (P - {b_blockno (bufs s ! b)}) H"
    and "blk (bunpin b s) dev bn = blk s dev bn"
proof -
  note hd = heldD [OF inv b]
  let ?x = "(bufs s ! b)\<lparr>b_refcnt := b_refcnt (bufs s ! b) - 1\<rparr>"
  have *: "bufs (bunpin b s) = (bufs s)[b := ?x]" by (simp add: bunpin_def upd_buf_def)
  show "bst dev pid (bunpin b s) (P - {b_blockno (bufs s ! b)}) H"
    by (rule bst_update_held(1) [OF inv b *]) (use hd b n in \<open>auto simp: bunpin_def upd_buf_def\<close>)
  have "blk (bunpin b s) dev bn = (if bn = b_blockno ?x then b_data ?x else blk s dev bn)"
    by (rule bst_update_held(2) [OF inv b *, where P' = "P - {b_blockno (bufs s ! b)}" and H' = H])
      (use hd b n in \<open>auto simp: bunpin_def upd_buf_def\<close>)
  then show "blk (bunpin b s) dev bn = blk s dev bn" using hd by simp
qed

lemma bwrite_spec:
  assumes inv: "bst dev pid s P H" and b: "b \<in> H" and me: "p_pid (procs s ! me) = pid"
  defines "bn \<equiv> b_blockno (bufs s ! b)" and "d \<equiv> b_data (bufs s ! b)"
  defines "s' \<equiv> s\<lparr>disk := (disk s)(bn := d), disk_writes := disk_writes s @ [(bn, d)]\<rparr>"
  shows "bwrite me b s = Inr s'" and "bst dev pid s' P H" and "blk s' dev n = blk s dev n"
proof -
  note hd = heldD [OF inv b]
  show "bwrite me b s = Inr s'"
    using holdingsleep_held [OF inv b me]
    by (simp add: bwrite_def disk_rw_def s'_def bn_def d_def Let_def)
  have ok: "buf_ok dev pid (disk s') P (i \<in> H) (bufs s ! i)" if "i < NBUF" for i
    using bstD(7) [OF inv that] held_unique [OF inv b that] hd(2,3) b
    by (cases "i = b") (auto simp: s'_def buf_ok_def bn_def d_def)
  show inv': "bst dev pid s' P H"
    using inv ok hd(7) by (auto simp: bst_def s'_def d_def)
  show "blk s' dev n = blk s dev n"
  proof (cases "n = bn")
    case True
    then show ?thesis
      using hd(8) heldD(8) [OF inv' b] by (simp add: s'_def bn_def)
  next
    case False
    moreover have "cached s' dev n = cached s dev n" by (simp add: cached_def s'_def)
    ultimately show ?thesis by (simp add: blk_def s'_def split: option.split)
  qed
qed

lemma buf_ok_core: "buf_ok dev pid dsk P h (core x) = buf_ok dev pid dsk P h x"
  by (simp add: buf_ok_def core_def pinned_def)

lemma core_fields:
  assumes "core x = core y"
  shows "b_dev x = b_dev y" and "b_blockno x = b_blockno y" and "b_valid x = b_valid y"
    and "b_data x = b_data y" and "b_lock x = b_lock y" and "b_refcnt x = b_refcnt y"
proof -
  have "b_dev (core x) = b_dev (core y)" "b_blockno (core x) = b_blockno (core y)"
    "b_valid (core x) = b_valid (core y)" "b_data (core x) = b_data (core y)"
    "b_lock (core x) = b_lock (core y)" "b_refcnt (core x) = b_refcnt (core y)"
    using assms by simp_all
  then show "b_dev x = b_dev y" "b_blockno x = b_blockno y" "b_valid x = b_valid y"
    "b_data x = b_data y" "b_lock x = b_lock y" "b_refcnt x = b_refcnt y"
    by (simp_all add: core_def)
qed

lemma bst_core:
  assumes inv: "bst dev pid s P H" and r: "ring (bufs s') xs" and d: "disk s' = disk s"
    and c: "\<And>i. i < NBUF \<Longrightarrow> core (bufs s' ! i) = core (bufs s ! i)"
  shows "bst dev pid s' P H" and "blk s' dev n = blk s dev n"
proof -
  have ok: "buf_ok dev pid (disk s') P (i \<in> H) (bufs s' ! i)" if "i < NBUF" for i
    using bstD(7) [OF inv that] buf_ok_core c [OF that] d by metis
  have oc: "one_copy (bufs s')"
    unfolding one_copy_def
  proof (intro allI impI)
    fix i j assume ij: "i < NBUF" "j < NBUF" "b_dev (bufs s' ! i) = b_dev (bufs s' ! j)"
      "b_blockno (bufs s' ! i) = b_blockno (bufs s' ! j)" "b_dev (bufs s' ! i) \<noteq> 0"
    then show "i = j"
      using one_copyD [OF bstD(3) [OF inv], of i j] core_fields(1,2) [OF c [OF ij(1)]]
        core_fields(1,2) [OF c [OF ij(2)]] by simp
  qed
  have p: "\<exists>i < NBUF. b_dev (bufs s' ! i) = dev \<and> b_blockno (bufs s' ! i) = p" if "p \<in> P" for p
    using bstD(5) [OF inv that] core_fields(1,2) [OF c] by metis
  show inv': "bst dev pid s' P H"
    using bstD(1,4,6) [OF inv] ok oc p r d by (auto simp: bst_def)
  have "cached s' dev n = cached s dev n"
  proof (cases "cached s dev n")
    case None
    then have "\<not> (b_dev (bufs s' ! i) = dev \<and> b_blockno (bufs s' ! i) = n)" if "i < NBUF" for i
      using cached_None [OF inv] that core_fields(1,2) [OF c [OF that]] by simp
    then show ?thesis using None cached_None [OF inv'] by simp
  next
    case (Some i)
    then have "i < NBUF" "b_dev (bufs s ! i) = dev" "b_blockno (bufs s ! i) = n"
      using cached_Some [OF inv] by auto
    then show ?thesis using Some cached_Some [OF inv'] core_fields(1,2) [OF c [of i]] by simp
  qed
  moreover have "i < NBUF" if "cached s dev n = Some i" for i
    using that cached_Some [OF inv] by simp
  ultimately show "blk s' dev n = blk s dev n"
    using core_fields(3,4) [OF c] d by (cases "cached s dev n") (simp_all add: blk_def)
qed

lemma upd_link:
  "upd_buf k (\<lambda>x. x\<lparr>b_next := v\<rparr>) s = s\<lparr>bufs := set_next k v (bufs s)\<rparr>"
  "upd_buf k (\<lambda>x. x\<lparr>b_prev := v\<rparr>) s = s\<lparr>bufs := set_prev k v (bufs s)\<rparr>"
  by (simp_all add: upd_buf_def set_next_def set_prev_def)

text \<open>The last use of a buffer is released: it is unlocked and moved to the front.\<close>

lemma brelse_last:
  assumes h: "holdingsleep me s (b_lock (bufs s ! b))" and l: "b < length (bufs s)"
    and r: "b_refcnt (bufs s ! b) = 1"
  shows "brelse me b s = Inr ((wakeup (Some me) (Chan_buf b) s)\<lparr>bufs := move_front b ((bufs s)[b :=
    (bufs s ! b)\<lparr>b_lock := (b_lock (bufs s ! b))\<lparr>sl_locked := 0, sl_pid := 0\<rparr>, b_refcnt := 0\<rparr>])\<rparr>)"
proof -
  let ?w = "wakeup (Some me) (Chan_buf b) s"
  define t where "t = ?w\<lparr>bufs := (bufs s)[b :=
    (bufs s ! b)\<lparr>b_lock := (b_lock (bufs s ! b))\<lparr>sl_locked := 0, sl_pid := 0\<rparr>, b_refcnt := 0\<rparr>]\<rparr>"
  have w: "bufs ?w = bufs s" by (simp add: wakeup_def)
  have st1: "upd_buf b (\<lambda>x. x\<lparr>b_refcnt := b_refcnt x - 1\<rparr>) (upd_buf b
      (\<lambda>x. x\<lparr>b_lock := (b_lock (bufs s ! b))\<lparr>sl_locked := 0, sl_pid := 0\<rparr>\<rparr>) ?w) = t"
    using l r by (simp add: upd_buf_def w nth_upd t_def)
  have rc: "b_refcnt (bufs t ! b) = 0" using l by (simp add: nth_upd t_def)
  have "brelse me b s = Inr (t\<lparr>bufs := move_front b (bufs t)\<rparr>)"
    using h rc by (simp add: brelse_def releasesleep_def Let_def st1 upd_link move_front_def)
  then show ?thesis by (simp add: t_def)
qed

text \<open>Releasing a buffer whose content is on the disk, or pinned by the log.\<close>

lemma brelse_spec:
  assumes inv: "bst dev pid s P H" and b: "b \<in> H" and me: "p_pid (procs s ! me) = pid"
    and clean: "b_blockno (bufs s ! b) \<in> P \<or> b_data (bufs s ! b) = disk s (b_blockno (bufs s ! b))"
  obtains s' where "brelse me b s = Inr s'" and "bst dev pid s' P (H - {b})"
    and "\<And>n. blk s' dev n = blk s dev n"
    and "\<And>i. i < NBUF \<Longrightarrow> i \<noteq> b \<Longrightarrow> core (bufs s' ! i) = core (bufs s ! i)"
    and "s' = (wakeup (Some me) (Chan_buf b) s)\<lparr>bufs := bufs s'\<rparr>"
proof -
  note hd = heldD [OF inv b]
  have l: "length (bufs s) = Suc NBUF" using bstD(8) [OF inv] .
  let ?x = "(bufs s ! b)\<lparr>b_lock := (b_lock (bufs s ! b))\<lparr>sl_locked := 0, sl_pid := 0\<rparr>,
    b_refcnt := b_refcnt (bufs s ! b) - 1\<rparr>"
  let ?w = "wakeup (Some me) (Chan_buf b) s"
  let ?s1 = "?w\<lparr>bufs := (bufs s)[b := ?x]\<rparr>"
  have w: "bufs ?w = bufs s" "disk ?w = disk s" by (simp_all add: wakeup_def)
  have inv1: "bst dev pid ?s1 P (H - {b})"
    by (rule bst_update_held(1) [OF inv b, where x = ?x]) (use hd clean w in auto)
  have blk1: "blk ?s1 dev n = blk s dev n" for n
  proof -
    have "blk ?s1 dev n = (if n = b_blockno ?x then b_data ?x else blk s dev n)"
      by (rule bst_update_held(2) [OF inv b, where x = ?x and P' = P and H' = "H - {b}"])
        (use hd clean w in auto)
    then show ?thesis using hd by simp
  qed
  have core1: "core (bufs ?s1 ! i) = core (bufs s ! i)" if "i \<noteq> b" for i
    using that l hd(1) by (simp add: nth_upd)
  show ?thesis
  proof (cases "b_refcnt ?x = 0")
    case False
    then have "brelse me b s = Inr ?s1"
      using holdingsleep_held [OF inv b me] hd(1) l
      by (simp add: brelse_def releasesleep_def upd_buf_def w nth_upd)
    then show ?thesis using that [of ?s1] inv1 blk1 core1 by simp
  next
    case True
    let ?s2 = "?w\<lparr>bufs := move_front b (bufs ?s1)\<rparr>"
    have "b_refcnt (bufs s ! b) = 1" using True by simp
    then have "brelse me b s = Inr ?s2"
      using brelse_last [OF holdingsleep_held [OF inv b me]] hd(1) l by simp
    moreover obtain xs where "ring (bufs ?s1) xs" using bstD(2) [OF inv1] by blast
    then have "ring (bufs ?s2) (b # remove1 b xs)" using ring_move_front [OF _ hd(1)] by simp
    then have "bst dev pid ?s2 P (H - {b})" "blk ?s2 dev n = blk ?s1 dev n" for n
      by (rule bst_core [OF inv1]; simp)+
    ultimately show ?thesis using that [of ?s2] blk1 core1 by simp
  qed
qed

lemma wakeup_pid [simp]: "i < length (procs s) \<Longrightarrow> p_pid (procs (wakeup me ch s) ! i) = p_pid (procs s ! i)"
  by (simp add: wakeup_nth)

section \<open>The contract as an interface\<close>

text \<open>
  What the log and the file system rely on.  \<open>inv s P H\<close> is the cache invariant with pinned blocks
  \<open>P\<close> and held buffers \<open>H\<close>; a held buffer \<open>b\<close> stands for the block \<open>num s b\<close>, whose content is
  \<open>view s (num s b)\<close>; \<open>st\<close> is the stable storage with its history \<open>writes\<close>, and \<open>rest\<close> is what the
  cache never touches.
\<close>

locale block_cache =
  fixes inv :: "'s \<Rightarrow> uint32 set \<Rightarrow> nat set \<Rightarrow> bool"
    and view :: "'s \<Rightarrow> uint32 \<Rightarrow> bytes"
    and num :: "'s \<Rightarrow> nat \<Rightarrow> uint32"
    and dat :: "'s \<Rightarrow> nat \<Rightarrow> bytes"
    and st :: "'s \<Rightarrow> uint32 \<Rightarrow> bytes"
    and writes :: "'s \<Rightarrow> (uint32 \<times> bytes) list"
    and rest :: "'s \<Rightarrow> 'r"
    and rd :: "uint32 \<Rightarrow> 's \<Rightarrow> (nat \<times> 's) res"
    and wr :: "nat \<Rightarrow> 's \<Rightarrow> 's res"
    and rel :: "nat \<Rightarrow> 's \<Rightarrow> 's res"
    and assign :: "nat \<Rightarrow> bytes \<Rightarrow> 's \<Rightarrow> 's"
    and pin :: "nat \<Rightarrow> 's \<Rightarrow> 's"
    and unpin :: "nat \<Rightarrow> 's \<Rightarrow> 's"
  assumes rd_law: "inv s P H \<Longrightarrow> (\<And>i. i \<in> H \<Longrightarrow> num s i \<noteq> bn) \<Longrightarrow>
      bn \<in> P \<or> finite P \<and> card H + card P < NBUF \<Longrightarrow>
      \<exists>b s'. rd bn s = Inr (b, s') \<and> b \<notin> H \<and> inv s' P (insert b H) \<and> num s' b = bn \<and>
        (\<forall>i \<in> H. num s' i = num s i) \<and> view s' = view s \<and> st s' = st s \<and>
        writes s' = writes s \<and> rest s' = rest s"
    and wr_law: "inv s P H \<Longrightarrow> b \<in> H \<Longrightarrow>
      \<exists>s'. wr b s = Inr s' \<and> inv s' P H \<and> (\<forall>i \<in> H. num s' i = num s i) \<and> view s' = view s \<and>
        st s' = (st s)(num s b := view s (num s b)) \<and>
        writes s' = writes s @ [(num s b, view s (num s b))] \<and> rest s' = rest s"
    and rel_law: "inv s P H \<Longrightarrow> b \<in> H \<Longrightarrow> num s b \<in> P \<or> view s (num s b) = st s (num s b) \<Longrightarrow>
      \<exists>s'. rel b s = Inr s' \<and> inv s' P (H - {b}) \<and> (\<forall>i \<in> H - {b}. num s' i = num s i) \<and>
        view s' = view s \<and> st s' = st s \<and> writes s' = writes s \<and> rest s' = rest s"
    and assign_law: "inv s P H \<Longrightarrow> b \<in> H \<Longrightarrow> length d = BSIZE \<Longrightarrow>
      inv (assign b d s) P H \<and> (\<forall>i \<in> H. num (assign b d s) i = num s i) \<and>
        view (assign b d s) = (view s)(num s b := d) \<and> st (assign b d s) = st s \<and>
        writes (assign b d s) = writes s \<and> rest (assign b d s) = rest s"
    and pin_law: "inv s P H \<Longrightarrow> b \<in> H \<Longrightarrow> num s b \<notin> P \<Longrightarrow>
      inv (pin b s) (insert (num s b) P) H \<and> num (pin b s) = num s \<and> view (pin b s) = view s \<and>
        st (pin b s) = st s \<and> writes (pin b s) = writes s \<and> rest (pin b s) = rest s"
    and unpin_law: "inv s P H \<Longrightarrow> b \<in> H \<Longrightarrow> num s b \<in> P \<Longrightarrow>
      inv (unpin b s) (P - {num s b}) H \<and> num (unpin b s) = num s \<and> view (unpin b s) = view s \<and>
        st (unpin b s) = st s \<and> writes (unpin b s) = writes s \<and> rest (unpin b s) = rest s"
    and dat_law: "inv s P H \<Longrightarrow> b \<in> H \<Longrightarrow> dat s b = view s (num s b)"
    and view_law: "inv s P H \<Longrightarrow> bn \<notin> P \<Longrightarrow> (\<And>i. i \<in> H \<Longrightarrow> num s i \<noteq> bn) \<Longrightarrow> view s bn = st s bn"
    and length_law: "inv s P H \<Longrightarrow> length (view s bn) = BSIZE"
    and finite_law: "inv s P H \<Longrightarrow> finite H"
begin

text \<open>Reading a block and releasing it changes nothing.\<close>

lemma read_release:
  assumes i: "inv s P H" and bn: "\<And>i. i \<in> H \<Longrightarrow> num s i \<noteq> bn"
    and room: "bn \<in> P \<or> finite P \<and> card H + card P < NBUF"
  shows "\<exists>b s1 s2. rd bn s = Inr (b, s1) \<and> num s1 b = bn \<and> dat s1 b = view s bn \<and> rest s1 = rest s \<and>
    view s1 = view s \<and> inv s1 P (insert b H) \<and> b \<notin> H \<and> rel b s1 = Inr s2 \<and>
    inv s2 P H \<and> (\<forall>i \<in> H. num s2 i = num s i) \<and> view s2 = view s \<and> st s2 = st s \<and>
    writes s2 = writes s \<and> rest s2 = rest s"
proof -
  obtain b s1 where 1: "rd bn s = Inr (b, s1)" "b \<notin> H" "inv s1 P (insert b H)" "num s1 b = bn"
      "\<forall>i \<in> H. num s1 i = num s i" "view s1 = view s" "st s1 = st s" "writes s1 = writes s" "rest s1 = rest s"
    using rd_law [OF i bn room] by blast
  have "num s1 b \<in> P \<or> view s1 (num s1 b) = st s1 (num s1 b)"
    using view_law [OF i, of bn] bn 1(4,6,7) by (metis (no_types))
  then obtain s2 where 2: "rel b s1 = Inr s2" "inv s2 P (insert b H - {b})"
      "\<forall>i \<in> insert b H - {b}. num s2 i = num s1 i" "view s2 = view s1" "st s2 = st s1"
      "writes s2 = writes s1" "rest s2 = rest s1"
    using rel_law [OF 1(3), of b] by blast
  have "insert b H - {b} = H" using 1(2) by auto
  then show ?thesis using 1 2 dat_law [OF 1(3), of b] by auto
qed

text \<open>Replacing the content of a block and writing it through, with nothing held.\<close>

lemma update_through:
  assumes i: "inv s P {}" and bn: "bn \<notin> P" and room: "finite P" "card P < NBUF"
  shows "\<exists>b s1. rd bn s = Inr (b, s1) \<and> dat s1 b = view s bn \<and> rest s1 = rest s \<and>
    (\<forall>d. length d = BSIZE \<longrightarrow> (\<exists>s3 s4. wr b (assign b d s1) = Inr s3 \<and> rel b s3 = Inr s4 \<and> inv s4 P {} \<and>
       view s4 = (view s)(bn := d) \<and> st s4 = (st s)(bn := d) \<and> writes s4 = writes s @ [(bn, d)] \<and>
       rest s4 = rest s))"
proof -
  obtain b s1 where 1: "rd bn s = Inr (b, s1)" "inv s1 P {b}" "num s1 b = bn"
      "view s1 = view s" "st s1 = st s" "writes s1 = writes s" "rest s1 = rest s"
    using rd_law [OF i, of bn] room by force
  have "\<exists>s3 s4. wr b (assign b d s1) = Inr s3 \<and> rel b s3 = Inr s4 \<and> inv s4 P {} \<and>
       view s4 = (view s)(bn := d) \<and> st s4 = (st s)(bn := d) \<and> writes s4 = writes s @ [(bn, d)] \<and>
       rest s4 = rest s" if d: "length d = BSIZE" for d
  proof -
    have 2: "inv (assign b d s1) P {b}" "num (assign b d s1) b = bn" "view (assign b d s1) = (view s)(bn := d)"
        "st (assign b d s1) = st s" "writes (assign b d s1) = writes s" "rest (assign b d s1) = rest s"
      using assign_law [OF 1(2) _ d, of b] 1 by auto
    obtain s3 where 3: "wr b (assign b d s1) = Inr s3" "inv s3 P {b}" "num s3 b = bn"
        "view s3 = (view s)(bn := d)" "st s3 = (st s)(bn := d)" "writes s3 = writes s @ [(bn, d)]" "rest s3 = rest s"
      using wr_law [OF 2(1), of b] 2 by auto
    obtain s4 where "rel b s3 = Inr s4" "inv s4 P {}" "view s4 = view s3" "st s4 = st s3"
        "writes s4 = writes s3" "rest s4 = rest s3"
      using rel_law [OF 3(2), of b] 3 by auto
    then show ?thesis using 3 by auto
  qed
  then show ?thesis using 1 dat_law [OF 1(2), of b] by auto
qed

text \<open>Copying block \<open>src\<close> over block \<open>dst\<close> and writing it through, with nothing held.\<close>

lemma copy_through:
  assumes i: "inv s P {}" and ne: "src \<noteq> dst" and dst: "dst \<notin> P"
    and room: "finite P" "card P < NBUF" "src \<in> P \<or> card P + 1 < NBUF"
  shows "\<exists>b1 s1 b2 s2 s4. rd dst s = Inr (b1, s1) \<and> rd src s1 = Inr (b2, s2) \<and>
      rest s1 = rest s \<and> rest s2 = rest s \<and> dat s2 b2 = view s src \<and>
      wr b1 (assign b1 (view s src) s2) = Inr s4 \<and>
      (\<exists>s5 s6. rel b2 s4 = Inr s5 \<and> rel b1 s5 = Inr s6 \<and> inv s6 P {} \<and>
        view s6 = (view s)(dst := view s src) \<and> st s6 = (st s)(dst := view s src) \<and>
        writes s6 = writes s @ [(dst, view s src)] \<and> rest s6 = rest s)"
proof -
  obtain b1 s1 where 1: "rd dst s = Inr (b1, s1)" "inv s1 P {b1}" "num s1 b1 = dst"
      "view s1 = view s" "st s1 = st s" "writes s1 = writes s" "rest s1 = rest s"
    using rd_law [OF i, of dst] room by force
  obtain b2 s2 where 2: "rd src s1 = Inr (b2, s2)" "b2 \<noteq> b1" "inv s2 P {b2, b1}" "num s2 b2 = src"
      "num s2 b1 = dst" "view s2 = view s" "st s2 = st s" "writes s2 = writes s" "rest s2 = rest s"
    using rd_law [OF 1(2), of src] room ne 1 by auto
  define s3 where "s3 = assign b1 (view s src) s2"
  have 3: "inv s3 P {b2, b1}" "num s3 b1 = dst" "num s3 b2 = src" "view s3 = (view s)(dst := view s src)"
      "st s3 = st s" "writes s3 = writes s" "rest s3 = rest s"
    using assign_law [OF 2(3), of b1 "view s src"] length_law [OF i, of src] 2 by (auto simp: s3_def)
  obtain s4 where 4: "wr b1 s3 = Inr s4" "inv s4 P {b2, b1}" "num s4 b1 = dst" "num s4 b2 = src"
      "view s4 = (view s)(dst := view s src)" "st s4 = (st s)(dst := view s src)"
      "writes s4 = writes s @ [(dst, view s src)]" "rest s4 = rest s"
    using wr_law [OF 3(1), of b1] 3 by auto
  have "num s4 b2 \<in> P \<or> view s4 (num s4 b2) = st s4 (num s4 b2)"
    using view_law [OF i, of src] 4 ne by auto
  moreover have "{b2, b1} - {b2} = {b1}" using 2(2) by auto
  ultimately obtain s5 where 5: "rel b2 s4 = Inr s5" "inv s5 P {b1}" "num s5 b1 = dst"
      "view s5 = view s4" "st s5 = st s4" "writes s5 = writes s4" "rest s5 = rest s4"
    using rel_law [OF 4(2), of b2] 4 by auto
  obtain s6 where 6: "rel b1 s5 = Inr s6" "inv s6 P {}"
      "view s6 = view s5" "st s6 = st s5" "writes s6 = writes s5" "rest s6 = rest s5"
    using rel_law [OF 5(2), of b1] 5 4 by auto
  show ?thesis using 1 2 4 5 6 dat_law [OF 2(3), of b2] by (auto simp: s3_def)
qed

text \<open>The same in the order of \<open>install_trans\<close>, where the destination may be pinned and is unpinned.\<close>

lemma install_through:
  assumes i: "inv s P {}" and ne: "src \<noteq> dst" and src: "src \<notin> P" and dst: "un \<longleftrightarrow> dst \<in> P"
    and room: "finite P" "card P < NBUF" "\<not> un \<Longrightarrow> card P + 1 < NBUF"
  shows "\<exists>b1 s1 b2 s2 s4. rd src s = Inr (b1, s1) \<and> rd dst s1 = Inr (b2, s2) \<and>
      rest s1 = rest s \<and> rest s2 = rest s \<and> dat s2 b1 = view s src \<and>
      wr b2 (assign b2 (view s src) s2) = Inr s4 \<and>
      (\<exists>s5 s6. rel b1 (if un then unpin b2 s4 else s4) = Inr s5 \<and> rel b2 s5 = Inr s6 \<and>
        inv s6 (P - {dst}) {} \<and>
        view s6 = (view s)(dst := view s src) \<and> st s6 = (st s)(dst := view s src) \<and>
        writes s6 = writes s @ [(dst, view s src)] \<and> rest s6 = rest s)"
proof -
  obtain b1 s1 where 1: "rd src s = Inr (b1, s1)" "inv s1 P {b1}" "num s1 b1 = src"
      "view s1 = view s" "st s1 = st s" "writes s1 = writes s" "rest s1 = rest s"
    using rd_law [OF i, of src] room by force
  obtain b2 s2 where 2: "rd dst s1 = Inr (b2, s2)" "b2 \<noteq> b1" "inv s2 P {b2, b1}" "num s2 b2 = dst"
      "num s2 b1 = src" "view s2 = view s" "st s2 = st s" "writes s2 = writes s" "rest s2 = rest s"
    using rd_law [OF 1(2), of dst] room dst ne 1 by force
  define s3 where "s3 = assign b2 (view s src) s2"
  have 3: "inv s3 P {b2, b1}" "num s3 b1 = src" "num s3 b2 = dst" "view s3 = (view s)(dst := view s src)"
      "st s3 = st s" "writes s3 = writes s" "rest s3 = rest s"
    using assign_law [OF 2(3), of b2 "view s src"] length_law [OF i, of src] 2 by (auto simp: s3_def)
  obtain s4 where 4: "wr b2 s3 = Inr s4" "inv s4 P {b2, b1}" "num s4 b1 = src" "num s4 b2 = dst"
      "view s4 = (view s)(dst := view s src)" "st s4 = (st s)(dst := view s src)"
      "writes s4 = writes s @ [(dst, view s src)]" "rest s4 = rest s"
    using wr_law [OF 3(1), of b2] 3 by auto
  define s4' where "s4' = (if un then unpin b2 s4 else s4)"
  have u4: "inv s4' (P - {dst}) {b2, b1}" "num s4' b1 = src" "num s4' b2 = dst" "view s4' = view s4"
      "st s4' = st s4" "writes s4' = writes s4" "rest s4' = rest s4"
    using unpin_law [OF 4(2), of b2] 4 dst by (auto simp: s4'_def)
  have "num s4' b1 \<in> P - {dst} \<or> view s4' (num s4' b1) = st s4' (num s4' b1)"
    using view_law [OF i src] 4 u4 ne by auto
  moreover have "{b2, b1} - {b1} = {b2}" using 2(2) by auto
  ultimately obtain s5 where 5: "rel b1 s4' = Inr s5" "inv s5 (P - {dst}) {b2}" "num s5 b2 = dst"
      "view s5 = view s4" "st s5 = st s4" "writes s5 = writes s4" "rest s5 = rest s4"
    using rel_law [OF u4(1), of b1] u4 2(2) by auto
  obtain s6 where 6: "rel b2 s5 = Inr s6" "inv s6 (P - {dst}) {}"
      "view s6 = view s5" "st s6 = st s5" "writes s6 = writes s5" "rest s6 = rest s5"
    using rel_law [OF 5(2), of b2] 5 4 by auto
  show ?thesis using 1 2 4 5 6 dat_law [OF 2(3), of b1] by (auto simp: s3_def s4'_def)
qed

end

text \<open>The cache of \<open>kernel/bio.c\<close> keeps the contract, for every process and device.\<close>

definition cache_inv :: "nat \<Rightarrow> uint32 \<Rightarrow> 'a bstate_scheme \<Rightarrow> uint32 set \<Rightarrow> nat set \<Rightarrow> bool" where
  "cache_inv me dev s P H \<longleftrightarrow> me < length (procs s) \<and> bst dev (p_pid (procs s ! me)) s P H"

definition block_of :: "'a bstate_scheme \<Rightarrow> nat \<Rightarrow> uint32" where
  "block_of s b = b_blockno (bufs s ! b)"

definition set_data :: "nat \<Rightarrow> bytes \<Rightarrow> 'a bstate_scheme \<Rightarrow> 'a bstate_scheme" where
  "set_data b d s = upd_buf b (\<lambda>x. x\<lparr>b_data := d\<rparr>) s"

definition outside :: "'a bstate_scheme \<Rightarrow> memory \<times> uint64 \<times> (uint64 \<Rightarrow> int) \<times> uint64 \<times> int list \<times> int \<times> nat option \<times> uint32 \<times> 'a" where
  "outside s = (pmem s, freelist s, page_refcnt s, kern_end s, map p_pid (procs s), nextpid s,
     initproc s, ticks s, bstate.more s)"

lemma map_pid_wakeup [simp]: "map p_pid (procs (wakeup me ch s)) = map p_pid (procs s)"
  by (rule nth_equalityI) simp_all

lemma wakeup_frame [simp]:
  "pmem (wakeup me ch s) = pmem s" "freelist (wakeup me ch s) = freelist s"
  "page_refcnt (wakeup me ch s) = page_refcnt s" "kern_end (wakeup me ch s) = kern_end s"
  "nextpid (wakeup me ch s) = nextpid s" "initproc (wakeup me ch s) = initproc s"
  "ticks (wakeup me ch s) = ticks s" "pstate.more (wakeup me ch s) = pstate.more s"
  by (simp_all add: wakeup_def)

lemma wakeup_bstate [simp]:
  "bufs (wakeup me ch s) = bufs s" "disk (wakeup me ch s) = disk s"
  "disk_writes (wakeup me ch s) = disk_writes s" "bstate.more (wakeup me ch s) = bstate.more s"
  by (simp_all add: wakeup_def)

lemma outside_upd [simp]:
  "outside (s\<lparr>bufs := x\<rparr>) = outside s" "outside (upd_buf b f s) = outside s"
  "outside (s\<lparr>disk := y, disk_writes := z\<rparr>) = outside s"
  "outside (wakeup me' ch s) = outside s"
  by (simp_all add: outside_def upd_buf_def)

lemma outside_pids: "outside s' = outside s \<Longrightarrow> length (procs s') = length (procs s) \<and>
   (me < length (procs s) \<longrightarrow> p_pid (procs s' ! me) = p_pid (procs s ! me))"
proof -
  assume "outside s' = outside s"
  then have "map p_pid (procs s') = map p_pid (procs s)" by (simp add: outside_def)
  then show ?thesis by (metis length_map nth_map)
qed

interpretation bcache: block_cache "cache_inv me dev" "\<lambda>s. blk s dev" block_of "\<lambda>s b. b_data (bufs s ! b)" disk
  disk_writes outside
  "bread me dev" "bwrite me" "brelse me" set_data bpin bunpin for me dev
proof (unfold_locales, goal_cases)
  case (1 s P H bn)
  then obtain b x where "bread me dev bn s = Inr (b, s\<lparr>bufs := (bufs s)[b := x]\<rparr>)" "b < NBUF" "b \<notin> H"
    "b_dev x = dev" "b_blockno x = bn" "b_valid x" "b_data x = blk s dev bn"
    "bst dev (p_pid (procs s ! me)) (s\<lparr>bufs := (bufs s)[b := x]\<rparr>) P (insert b H)"
    "\<And>n. blk (s\<lparr>bufs := (bufs s)[b := x]\<rparr>) dev n = blk s dev n"
    using bread_spec [of dev "p_pid (procs s ! me)" s P H me bn]
    by (auto simp: cache_inv_def block_of_def)
  moreover have "length (bufs s) = Suc NBUF" using 1(1) bstD(8) by (auto simp: cache_inv_def)
  ultimately show ?case using 1(1)
    by (intro exI [of _ b] exI [of _ "s\<lparr>bufs := (bufs s)[b := x]\<rparr>"])
      (auto simp: cache_inv_def block_of_def nth_upd)
next
  case (2 s P H b)
  then have i: "bst dev (p_pid (procs s ! me)) s P H" "me < length (procs s)" by (auto simp: cache_inv_def)
  show ?case using bwrite_spec [OF i(1) 2(2) refl] heldD(8) [OF i(1) 2(2)] i(2)
    by (auto simp: cache_inv_def block_of_def)
next
  case (3 s P H b)
  then have i: "bst dev (p_pid (procs s ! me)) s P H" "me < length (procs s)" by (auto simp: cache_inv_def)
  have "b_blockno (bufs s ! b) \<in> P \<or> b_data (bufs s ! b) = disk s (b_blockno (bufs s ! b))"
    using 3(3) heldD(8) [OF i(1) 3(2)] by (auto simp: block_of_def)
  then obtain s' where s': "brelse me b s = Inr s'" "bst dev (p_pid (procs s ! me)) s' P (H - {b})"
    "\<And>n. blk s' dev n = blk s dev n" "\<And>i. i < NBUF \<Longrightarrow> i \<noteq> b \<Longrightarrow> core (bufs s' ! i) = core (bufs s ! i)"
    "s' = (wakeup (Some me) (Chan_buf b) s)\<lparr>bufs := bufs s'\<rparr>"
    using brelse_spec [OF i(1) 3(2) refl] by metis
  have o: "outside s' = outside s" and d: "disk s' = disk s" "disk_writes s' = disk_writes s"
    by (subst s'(5), simp)+
  have "block_of s' j = block_of s j" if "j \<in> H - {b}" for j
  proof -
    have "j < NBUF" "j \<noteq> b" using that bstD(4) [OF i(1)] by auto
    then show ?thesis using core_fields(2) [OF s'(4)] by (simp add: block_of_def)
  qed
  moreover have "(\<lambda>n. blk s' dev n) = (\<lambda>n. blk s dev n)" using s'(3) by (rule ext)
  moreover have "cache_inv me dev s' P (H - {b})"
    using s'(2) outside_pids [OF o] i(2) by (simp add: cache_inv_def)
  ultimately show ?case using s'(1) o d by blast
next
  case (4 s P H b d)
  then have i: "bst dev (p_pid (procs s ! me)) s P H" "me < length (procs s)" by (auto simp: cache_inv_def)
  have l: "length (bufs s) = Suc NBUF" using bstD(8) [OF i(1)] .
  show ?case using set_data_spec [OF i(1) 4(2), of "\<lambda>_. d"] 4(3) i(2) l heldD(1) [OF i(1) 4(2)]
    by (auto simp: cache_inv_def set_data_def block_of_def upd_buf_nth)
next
  case (5 s P H b)
  then have i: "bst dev (p_pid (procs s ! me)) s P H" "me < length (procs s)" by (auto simp: cache_inv_def)
  have "block_of (bpin b s) = block_of s" by (auto simp: block_of_def bpin_def upd_buf_def nth_upd)
  then show ?case using bpin_spec [OF i(1) 5(2)] 5(3) i(2)
    by (auto simp: cache_inv_def block_of_def bpin_def)
next
  case (6 s P H b)
  then have i: "bst dev (p_pid (procs s ! me)) s P H" "me < length (procs s)" by (auto simp: cache_inv_def)
  have "block_of (bunpin b s) = block_of s" by (auto simp: block_of_def bunpin_def upd_buf_def nth_upd)
  then show ?case using bunpin_spec [OF i(1) 6(2)] 6(3) i(2)
    by (auto simp: cache_inv_def block_of_def bunpin_def)
next
  case (7 s P H b)
  then show ?case using heldD(8) [of dev "p_pid (procs s ! me)" s P H b]
    by (simp add: cache_inv_def block_of_def)
next
  case (8 s P H bn)
  then show ?case using blk_clean [of dev "p_pid (procs s ! me)" s P H bn]
    by (simp add: cache_inv_def block_of_def)
next
  case (9 s P H bn)
  then show ?case using length_blk [of dev "p_pid (procs s ! me)" s P H bn] by (simp add: cache_inv_def)
next
  case (10 s P H)
  then show ?case using bstD(4) [of dev "p_pid (procs s ! me)" s P H] finite_subset
    by (auto simp: cache_inv_def)
qed

section \<open>Initialisation\<close>

definition init_link :: "nat \<Rightarrow> buf list \<Rightarrow> buf list" where
  "init_link b bs =
     (let bs = set_next b (b_next (bs ! bhead)) bs;
          bs = set_prev b bhead bs;
          bs = bs[b := (bs ! b)\<lparr>b_lock := initsleeplock ''buffer''\<rparr>];
          bs = set_prev (b_next (bs ! bhead)) b bs
      in set_next bhead b bs)"

lemma binit_node_eq: "binit_node b s = s\<lparr>bufs := init_link b (bufs s)\<rparr>"
  by (simp add: binit_node_def init_link_def Let_def upd_link) (simp add: upd_buf_def)

lemma init_link_props:
  assumes c: "chain (\<lambda>i. b_next (bs ! i)) (\<lambda>i. b_prev (bs ! i)) bhead xs bhead"
    and d: "distinct (bhead # xs)" and b: "b < NBUF" "b \<notin> set xs" and xs: "set xs \<subseteq> {..<NBUF}"
    and l: "length bs = Suc NBUF"
  defines "bs' \<equiv> init_link b bs"
  shows "chain (\<lambda>i. b_next (bs' ! i)) (\<lambda>i. b_prev (bs' ! i)) bhead (b # xs) bhead"
    and "length bs' = Suc NBUF"
    and "core (bs' ! i) = core (if i = b then (bs ! i)\<lparr>b_lock := initsleeplock ''buffer''\<rparr> else bs ! i)"
proof -
  let ?nx = "\<lambda>bs i. b_next (bs ! i)" and ?pv = "\<lambda>bs i. b_prev (bs ! i)"
  define b1 where "b1 = set_next b (b_next (bs ! bhead)) bs"
  define b2 where "b2 = set_prev b bhead b1"
  define b3 where "b3 = b2[b := (b2 ! b)\<lparr>b_lock := initsleeplock ''buffer''\<rparr>]"
  define b4 where "b4 = set_prev (b_next (b3 ! bhead)) b b3"
  have bs': "bs' = set_next bhead b b4"
    by (simp add: bs'_def init_link_def Let_def b1_def b2_def b3_def b4_def)
  have len: "length b1 = Suc NBUF" "length b2 = Suc NBUF" "length b3 = Suc NBUF" "length b4 = Suc NBUF"
    using l by (simp_all add: b1_def b2_def b3_def b4_def)
  have 1: "?nx b1 = (?nx bs)(b := b_next (bs ! bhead))" "?pv b1 = ?pv bs"
    using b l by (simp_all add: b1_def link_set_next)
  have 2: "?nx b2 = ?nx b1" "?pv b2 = (?pv bs)(b := bhead)"
    using b len 1 by (simp_all add: b2_def link_set_prev)
  have 3: "?nx b3 = ?nx b2" "?pv b3 = ?pv b2"
    by (simp_all add: b3_def nth_upd fun_eq_iff)
  have nh: "b_next (b3 ! bhead) = b_next (bs ! bhead)"
    using fun_cong [OF 3(1), of bhead] fun_cong [OF 2(1), of bhead] fun_cong [OF 1(1), of bhead] b by simp
  have "hd (xs @ [bhead]) < Suc NBUF" using xs by (cases xs) (auto simp: less_SucI)
  then have nb: "b_next (bs ! bhead) < Suc NBUF" using chain_hd [OF c] by simp
  have 4: "?nx b4 = ?nx b3" "?pv b4 = (?pv b2)(b_next (bs ! bhead) := b)"
    using nb len nh 3 by (simp_all add: b4_def link_set_prev)
  have 5: "?nx bs' = (?nx bs)(b := b_next (bs ! bhead), bhead := b)"
      "?pv bs' = (?pv bs)(b := bhead, b_next (bs ! bhead) := b)"
    unfolding bs' using len 4 3 2 1 by (simp_all add: link_set_next)
  show "chain (?nx bs') (?pv bs') bhead (b # xs) bhead"
    unfolding 5 using chain_insert [OF c d, of b] b by auto
  show "length bs' = Suc NBUF" using len by (simp add: bs')
  have "core (b3 ! i) = core (if i = b then (bs ! i)\<lparr>b_lock := initsleeplock ''buffer''\<rparr> else bs ! i)"
  proof (cases "i = b")
    case True
    have "core ((b2 ! b)\<lparr>b_lock := L\<rparr>) = (core (b2 ! b))\<lparr>b_lock := L\<rparr>" for L by (simp add: core_def)
    moreover have "core (b2 ! b) = core (bs ! b)" by (simp add: b2_def b1_def)
    moreover have "(core (bs ! b))\<lparr>b_lock := L\<rparr> = core ((bs ! b)\<lparr>b_lock := L\<rparr>)" for L by (simp add: core_def)
    ultimately show ?thesis using True b len by (simp add: b3_def nth_upd)
  next
    case False
    then show ?thesis by (simp add: b3_def nth_upd b2_def b1_def)
  qed
  then show "core (bs' ! i) = core (if i = b then (bs ! i)\<lparr>b_lock := initsleeplock ''buffer''\<rparr> else bs ! i)"
    by (simp add: bs' b4_def)
qed

text \<open>The cache at boot: the zeroed array of the kernel's data segment.\<close>

definition fresh_buf :: "buf \<Rightarrow> bool" where
  "fresh_buf x \<longleftrightarrow> \<not> b_valid x \<and> b_dev x = 0 \<and> b_refcnt x = 0"

lemma binit_loop:
  assumes l: "length bs = Suc NBUF" and h: "b_next (bs ! bhead) = bhead" "b_prev (bs ! bhead) = bhead"
    and k: "k \<le> NBUF"
  defines "bs' \<equiv> fold init_link [0..<k] bs"
  shows "chain (\<lambda>i. b_next (bs' ! i)) (\<lambda>i. b_prev (bs' ! i)) bhead (rev [0..<k]) bhead \<and>
    length bs' = Suc NBUF \<and>
    (\<forall>i. core (bs' ! i) = core (if i < k then (bs ! i)\<lparr>b_lock := initsleeplock ''buffer''\<rparr> else bs ! i))"
  unfolding bs'_def using k
proof (induction k)
  case 0
  then show ?case using l h by simp
next
  case (Suc k)
  let ?b = "fold init_link [0..<k] bs"
  have IH: "chain (\<lambda>i. b_next (?b ! i)) (\<lambda>i. b_prev (?b ! i)) bhead (rev [0..<k]) bhead"
    "length ?b = Suc NBUF"
    "core (?b ! i) = core (if i < k then (bs ! i)\<lparr>b_lock := initsleeplock ''buffer''\<rparr> else bs ! i)" for i
    using Suc by auto
  have d: "distinct (bhead # rev [0..<k])" "k < NBUF" "k \<notin> set (rev [0..<k])" "set (rev [0..<k]) \<subseteq> {..<NBUF}"
    using Suc.prems by auto
  note p = init_link_props [OF IH(1) d IH(2)]
  have "core (init_link k ?b ! i) =
      core (if i < Suc k then (bs ! i)\<lparr>b_lock := initsleeplock ''buffer''\<rparr> else bs ! i)" for i
  proof (cases "i = k")
    case True
    have "core ((?b ! k)\<lparr>b_lock := L\<rparr>) = (core (?b ! k))\<lparr>b_lock := L\<rparr>" for L by (simp add: core_def)
    moreover have "(core (bs ! k))\<lparr>b_lock := L\<rparr> = core ((bs ! k)\<lparr>b_lock := L\<rparr>)" for L by (simp add: core_def)
    ultimately show ?thesis using p(3) [of i] IH(3) [of k] True by simp
  next
    case False
    then show ?thesis using p(3) [of i] IH(3) [of i] by (simp add: less_Suc_eq)
  qed
  then show ?case using p(1,2) by simp
qed

lemma binit_eq: "binit s = s\<lparr>bufs := fold init_link [0..<NBUF] (set_next bhead bhead (set_prev bhead bhead (bufs s)))\<rparr>"
proof -
  have "fold binit_node ks t = t\<lparr>bufs := fold init_link ks (bufs t)\<rparr>" for ks and t :: "'a bstate_scheme"
    by (induction ks arbitrary: t) (simp_all add: binit_node_eq)
  then show ?thesis by (simp add: binit_def Let_def upd_link)
qed

lemma binit_fresh:
  assumes l: "length (bufs s) = Suc NBUF" and z: "\<And>i. i < NBUF \<Longrightarrow> fresh_buf (bufs s ! i)" and i: "i < NBUF"
  shows "fresh_buf (bufs (binit s) ! i)" and "b_lock (bufs (binit s) ! i) = initsleeplock ''buffer''"
    and "ring (bufs (binit s)) (rev [0..<NBUF])"
proof -
  let ?b0 = "set_next bhead bhead (set_prev bhead bhead (bufs s))"
  have h: "b_next (?b0 ! bhead) = bhead" "b_prev (?b0 ! bhead) = bhead" "length ?b0 = Suc NBUF"
    using l by (simp_all add: set_next_def set_prev_def)
  note b = binit_loop [OF h(3,1,2) order_refl]
  have c: "core (bufs (binit s) ! i) = core ((?b0 ! i)\<lparr>b_lock := initsleeplock ''buffer''\<rparr>)"
    using b i by (simp add: binit_eq)
  have c2: "core (?b0 ! i) = core (bufs s ! i)" by simp
  show "fresh_buf (bufs (binit s) ! i)" "b_lock (bufs (binit s) ! i) = initsleeplock ''buffer''"
    using core_fields [OF c] core_fields [OF c2] z [OF i] by (simp_all add: fresh_buf_def)
  show "ring (bufs (binit s)) (rev [0..<NBUF])"
    unfolding ring_def using b by (auto simp: binit_eq)
qed

lemma binit_spec:
  assumes l: "length (bufs s) = Suc NBUF" and z: "\<And>i. i < NBUF \<Longrightarrow> fresh_buf (bufs s ! i)"
    and d: "\<And>bn. length (disk s bn) = BSIZE" and dev: "dev \<noteq> 0"
  shows "bst dev pid (binit s) {} {}" and "blk (binit s) dev bn = disk s bn"
    and "ring (bufs (binit s)) (rev [0..<NBUF])"
proof -
  note f = binit_fresh [OF l z]
  show r: "ring (bufs (binit s)) (rev [0..<NBUF])" using f(3) [of 0] by (simp add: params)
  have dk: "disk (binit s) = disk s" by (simp add: binit_eq)
  show inv: "bst dev pid (binit s) {} {}"
    unfolding bst_def one_copy_def
    using f dev d r dk by (auto simp: fresh_buf_def buf_ok_def initsleeplock_def pinned_def)
  have "blk (binit s) dev bn = disk (binit s) bn" by (rule blk_clean [OF inv]) auto
  then show "blk (binit s) dev bn = disk s bn" using dk by simp
qed

section \<open>Properties\<close>

text \<open>A booted cache in front of a disk of zero blocks, for the witnesses.\<close>

definition zero_context :: kcontext where
  "zero_context = \<lparr>ctx_ra = 0, ctx_sp = 0, ctx_s0 = 0, ctx_s1 = 0, ctx_s2 = 0, ctx_s3 = 0, ctx_s4 = 0,
     ctx_s5 = 0, ctx_s6 = 0, ctx_s7 = 0, ctx_s8 = 0, ctx_s9 = 0, ctx_s10 = 0, ctx_s11 = 0\<rparr>"

definition zero_proc :: proc where
  "zero_proc = \<lparr>p_state = UNUSED, p_chan = None, p_killed = 0, p_xstate = 0, p_pid = 0, p_parent = None,
     p_kstack = 0, p_sz = 0, p_pagetable = 0, p_trapframe = 0, p_context = zero_context,
     p_ofile = replicate NOFILE None, p_cwd = None, p_name = (\<lambda>_. 0)\<rparr>"

definition zero_buf :: buf where
  "zero_buf = \<lparr>b_valid = False, b_disk = False, b_dev = 0, b_blockno = 0, b_lock = initsleeplock [],
     b_refcnt = 0, b_prev = 0, b_next = 0, b_data = replicate BSIZE 0\<rparr>"

definition zero_bstate :: bstate where
  "zero_bstate = \<lparr>pmem = (\<lambda>_. 0), freelist = 0, page_refcnt = (\<lambda>_. 0), kern_end = KERNBASE,
     procs = replicate NPROC zero_proc, nextpid = 1, initproc = None, ticks = 0,
     bufs = replicate (Suc NBUF) zero_buf, disk = (\<lambda>_. replicate BSIZE 0), disk_writes = []\<rparr>"

lemma zero_bst: "dev \<noteq> 0 \<Longrightarrow> bst dev pid (binit zero_bstate) {} {}"
  and zero_blk: "dev \<noteq> 0 \<Longrightarrow> blk (binit zero_bstate) dev bn = replicate BSIZE 0"
  and zero_ring: "ring (bufs (binit zero_bstate)) (rev [0..<NBUF])"
  and zero_unused: "i < NBUF \<Longrightarrow> b_dev (bufs (binit zero_bstate) ! i) = 0"
proof -
  have z: "length (bufs zero_bstate) = Suc NBUF" "\<And>i. i < NBUF \<Longrightarrow> fresh_buf (bufs zero_bstate ! i)"
      "\<And>bn. length (disk zero_bstate bn) = BSIZE"
    by (simp_all add: zero_bstate_def fresh_buf_def zero_buf_def del: replicate_Suc)
  show "dev \<noteq> 0 \<Longrightarrow> bst dev pid (binit zero_bstate) {} {}"
    using binit_spec(1) [OF z] .
  show "dev \<noteq> 0 \<Longrightarrow> blk (binit zero_bstate) dev bn = replicate BSIZE 0"
    using binit_spec(2) [OF z] by (simp add: zero_bstate_def)
  show "ring (bufs (binit zero_bstate)) (rev [0..<NBUF])"
    using binit_spec(3) [OF z, where dev = 1] by simp
  show "i < NBUF \<Longrightarrow> b_dev (bufs (binit zero_bstate) ! i) = 0"
    using binit_fresh [OF z(1,2)] by (simp add: fresh_buf_def)
qed

text \<open>C20: \<open>bread\<close> returns a buffer, locked by the caller and held by no one else, with the current
  content of the block, whether the block was cached, or had to be read into a recycled buffer.  It
  succeeds whenever fewer than \<open>NBUF\<close> buffers are locked or pinned, keeps the cache invariant, and
  changes neither the disk nor the content of any block.\<close>

theorem bread_coherent:
  assumes "bst dev pid s P H" and "p_pid (procs s ! me) = pid"
    and "\<forall>i \<in> H. b_blockno (bufs s ! i) \<noteq> bn"
    and "finite P" and "card H + card P < NBUF"
  shows "\<exists>b s'. bread me dev bn s = Inr (b, s') \<and> b \<notin> H \<and> b < NBUF \<and>
    b_dev (bufs s' ! b) = dev \<and> b_blockno (bufs s' ! b) = bn \<and> b_valid (bufs s' ! b) \<and>
    b_data (bufs s' ! b) = blk s dev bn \<and> holdingsleep me s' (b_lock (bufs s' ! b)) \<and>
    bst dev pid s' P (insert b H) \<and> (\<forall>n. blk s' dev n = blk s dev n) \<and>
    disk s' = disk s \<and> disk_writes s' = disk_writes s"
proof -
  obtain b x where b: "bread me dev bn s = Inr (b, s\<lparr>bufs := (bufs s)[b := x]\<rparr>)" "b < NBUF" "b \<notin> H"
    "b_dev x = dev" "b_blockno x = bn" "b_valid x" "b_data x = blk s dev bn"
    "bst dev pid (s\<lparr>bufs := (bufs s)[b := x]\<rparr>) P (insert b H)"
    "\<And>n. blk (s\<lparr>bufs := (bufs s)[b := x]\<rparr>) dev n = blk s dev n"
    using bread_spec [OF assms(1,2), of bn] assms(3-5) by blast
  have "holdingsleep me (s\<lparr>bufs := (bufs s)[b := x]\<rparr>) (b_lock ((bufs s)[b := x] ! b))"
    using holdingsleep_held [OF b(8), of b me] assms(2) by simp
  then show ?thesis using b bstD(8) [OF assms(1)]
    by (intro exI [of _ b] exI [of _ "s\<lparr>bufs := (bufs s)[b := x]\<rparr>"]) simp
qed

theorem bread_coherent_witness:
  "\<exists>b s'. bread 0 ROOTDEV 33 (binit zero_bstate) = Inr (b, s') \<and>
     b_data (bufs s' ! b) = replicate BSIZE 0 \<and> holdingsleep 0 s' (b_lock (bufs s' ! b))"
proof -
  have "bst ROOTDEV (p_pid (procs (binit zero_bstate) ! 0)) (binit zero_bstate) {} {}"
    by (rule zero_bst) (simp add: ROOTDEV_def)
  from bread_coherent [OF this refl, of 33] show ?thesis
    using zero_blk [of ROOTDEV 33] by (auto simp: params)
qed

text \<open>C21: The replacement order.  With the ring read from the most to the least recently used buffer,
  a block that is not cached goes into the last buffer of the ring that is in no use; and releasing
  the last use of a buffer moves it to the front of the ring and leaves the order of the others.\<close>

theorem bcache_lru:
  assumes r: "ring (bufs s) (us @ b # vs)" and b: "b_refcnt (bufs s ! b) = 0" "sl_locked (b_lock (bufs s ! b)) = 0"
    and vs: "\<forall>c \<in> set vs. b_refcnt (bufs s ! c) \<noteq> 0"
    and nc: "\<forall>i < NBUF. \<not> (b_dev (bufs s ! i) = dev \<and> b_blockno (bufs s ! i) = bn)"
  shows "\<exists>s1 s2. bget me dev bn s = Inr (b, s1) \<and> ring (bufs s1) (us @ b # vs) \<and>
    b_dev (bufs s1 ! b) = dev \<and> b_blockno (bufs s1 ! b) = bn \<and> \<not> b_valid (bufs s1 ! b) \<and>
    brelse me b s1 = Inr s2 \<and> ring (bufs s2) (b # us @ vs)"
proof -
  have l: "length (bufs s) = Suc NBUF" and st: "set (us @ b # vs) = {..<NBUF}" and d: "distinct (us @ b # vs)"
    using r by (auto simp: ring_def)
  have bl: "b < NBUF" using st by auto
  have "find (\<lambda>i. b_dev (bufs s ! i) = dev \<and> b_blockno (bufs s ! i) = bn) (us @ b # vs) = None"
    unfolding find_None_iff st using nc by auto
  then have c: "bget_cached (NBUF + 1) (b_next (bufs s ! bhead)) dev bn (bufs s) = Inr None"
    using ring_find_eq(1) [OF r] by simp
  have "find Q (xs @ b # ys) = Some b" if "\<forall>c \<in> set xs. \<not> Q c" "Q b" for Q xs ys
    using that by (induction xs) auto
  then have u: "bget_unused (NBUF + 1) (b_prev (bufs s ! bhead)) (bufs s) = Inr (Some b)"
    using ring_find_eq(2) [OF r] vs b by simp
  let ?x = "(bufs s ! b)\<lparr>b_dev := dev, b_blockno := bn, b_valid := False, b_refcnt := 1,
    b_lock := (b_lock (bufs s ! b))\<lparr>sl_locked := 1, sl_pid := p_pid (procs s ! me)\<rparr>\<rparr>"
  let ?s1 = "s\<lparr>bufs := (bufs s)[b := ?x]\<rparr>"
  have g: "bget me dev bn s = Inr (b, ?s1)"
    using c u b bl l by (simp add: bget_def block_lock_def acquiresleep_def upd_buf_def nth_upd)
  have r1: "ring (bufs ?s1) (us @ b # vs)"
    by (rule ring_core [OF r]) (simp_all add: nth_upd)
  let ?y = "?x\<lparr>b_lock := (b_lock ?x)\<lparr>sl_locked := 0, sl_pid := 0\<rparr>, b_refcnt := 0\<rparr>"
  have h: "holdingsleep me ?s1 (b_lock (bufs ?s1 ! b))" using bl l by (simp add: holdingsleep_def nth_upd)
  have rel: "brelse me b ?s1 =
      Inr ((wakeup (Some me) (Chan_buf b) ?s1)\<lparr>bufs := move_front b ((bufs s)[b := ?y])\<rparr>)"
    using brelse_last [OF h] bl l by (simp add: nth_upd)
  have "ring ((bufs s)[b := ?y]) (us @ b # vs)"
    by (rule ring_core [OF r]) (simp_all add: nth_upd)
  from ring_move_front [OF this bl] have "ring (move_front b ((bufs s)[b := ?y])) (b # us @ vs)"
    using d by (simp add: remove1_append)
  then show ?thesis using g r1 rel bl l by (simp add: nth_upd)
qed

theorem bcache_lru_witness:
  "\<exists>s1 s2. bget 0 ROOTDEV 33 (binit zero_bstate) = Inr (0, s1) \<and> brelse 0 0 s1 = Inr s2 \<and>
     ring (bufs s2) (0 # rev [1..<NBUF])"
proof -
  have e: "rev [0..<NBUF] = rev [1..<NBUF] @ 0 # []" by (simp add: upt_conv_Cons params)
  have r: "ring (bufs (binit zero_bstate)) (rev [1..<NBUF] @ 0 # [])" using zero_ring e by simp
  have i: "bst 1 0 (binit zero_bstate) {} {}" by (rule zero_bst) simp
  have z: "b_refcnt (bufs (binit zero_bstate) ! 0) = 0" "sl_locked (b_lock (bufs (binit zero_bstate) ! 0)) = 0"
    using bstD(7) [OF i, of 0] by (simp_all add: buf_ok_def pinned_def params)
  have nc: "\<forall>j < NBUF. \<not> (b_dev (bufs (binit zero_bstate) ! j) = ROOTDEV \<and> b_blockno (bufs (binit zero_bstate) ! j) = 33)"
    using zero_unused by (simp add: ROOTDEV_def)
  from bcache_lru [OF r z _ nc, of 0] show ?thesis by auto
qed

end
