(* ===== verification/Fs.thy ===== *)
theory Fs
  imports Log
begin

text \<open>
  The file system, \<open>kernel/fs.c\<close>: the block allocator, the inode table and the inodes on disk, the
  content of an inode, directories, and path names.  Structures on disk (the super block, inodes,
  directory entries, the indirect block, the bitmap) are read and written in the bytes of a buffer,
  at the offsets the C layout gives them.  An inode is named by its index in \<open>itable.inode[]\<close>.  The
  routines take the index \<open>me\<close> of the running process, which is what \<open>myproc()\<close> returns.  Messages to
  the console are not part of the state.
\<close>

section \<open>On-disk formats (kernel/fs.h, kernel/stat.h)\<close>

definition ROOTINO :: uint32 where "ROOTINO = 1"
definition FSMAGIC :: uint32 where "FSMAGIC = 0x10203040"
definition NDIRECT :: nat where "NDIRECT = 12"
definition NINDIRECT :: nat where "NINDIRECT = BSIZE div 4"
definition MAXFILE :: nat where "MAXFILE = NDIRECT + NINDIRECT"
definition IPB :: nat where "IPB = BSIZE div 64"
definition BPB :: nat where "BPB = BSIZE * 8"
definition DIRSIZ :: nat where "DIRSIZ = 14"

definition T_DIR :: uint16 where "T_DIR = 1"
definition T_FILE :: uint16 where "T_FILE = 2"
definition T_DEVICE :: uint16 where "T_DEVICE = 3"

lemmas fs_params = ROOTINO_def FSMAGIC_def NDIRECT_def NINDIRECT_def MAXFILE_def IPB_def BPB_def
  DIRSIZ_def T_DIR_def T_FILE_def T_DEVICE_def

definition IBLOCK :: "uint32 \<Rightarrow> superblock \<Rightarrow> uint32" where
  "IBLOCK i sb = i div of_nat IPB + sb_inodestart sb"

definition BBLOCK :: "uint32 \<Rightarrow> superblock \<Rightarrow> uint32" where
  "BBLOCK b sb = b div of_nat BPB + sb_bmapstart sb"

record inode =
  i_dev :: uint32
  i_inum :: uint32
  i_ref :: int
  i_lock :: sleeplock
  i_valid :: bool
  i_type :: uint16
  i_major :: uint16
  i_minor :: uint16
  i_nlink :: uint16
  i_size :: uint32
  i_addrs :: "uint32 list"

record istate = lstate +
  itable :: "inode list"
  fs_sb :: superblock

definition upd_inode :: "nat \<Rightarrow> (inode \<Rightarrow> inode) \<Rightarrow> 'a istate_scheme \<Rightarrow> 'a istate_scheme" where
  "upd_inode ip f s = s\<lparr>itable := (itable s)[ip := f (itable s ! ip)]\<rparr>"

abbreviation ino :: "'a istate_scheme \<Rightarrow> nat \<Rightarrow> inode" where
  "ino s ip \<equiv> itable s ! ip"

text \<open>\<open>struct dinode\<close> at slot \<open>k\<close> of an inode block: 64 bytes, the addresses from offset 12 on.\<close>

definition dinode_put :: "nat \<Rightarrow> inode \<Rightarrow> bytes \<Rightarrow> bytes" where
  "dinode_put k i d =
     put_bytes (64 * k + 12) (concat (map (word_bytes 4) (i_addrs i)))
       (put32 (64 * k + 8) (i_size i)
       (put16 (64 * k + 6) (i_nlink i)
       (put16 (64 * k + 4) (i_minor i)
       (put16 (64 * k + 2) (i_major i)
       (put16 (64 * k) (i_type i) d)))))"

definition dinode_get :: "nat \<Rightarrow> bytes \<Rightarrow> inode \<Rightarrow> inode" where
  "dinode_get k d i = i\<lparr>i_type := get16 (64 * k) d, i_major := get16 (64 * k + 2) d,
     i_minor := get16 (64 * k + 4) d, i_nlink := get16 (64 * k + 6) d, i_size := get32 (64 * k + 8) d,
     i_addrs := map (\<lambda>j. get32 (64 * k + 12 + 4 * j) d) [0..<NDIRECT + 1]\<rparr>"

section \<open>Copies to and from the callers of readi and writei (kernel/proc.c)\<close>

text \<open>
  The destination of \<open>either_copyout\<close>: a user address, a kernel address, or a variable of the caller,
  whose bytes are then returned.  A failed copy may have changed user memory.
\<close>

datatype dst = To_user uint64 | To_kernel uint64 | To_local

datatype src = From_user uint64 | From_kernel uint64 | From_local bytes

fun dst_add :: "dst \<Rightarrow> nat \<Rightarrow> dst" where
  "dst_add (To_user a) m = To_user (a + of_nat m)"
| "dst_add (To_kernel a) m = To_kernel (a + of_nat m)"
| "dst_add To_local m = To_local"

fun src_add :: "src \<Rightarrow> nat \<Rightarrow> src" where
  "src_add (From_user a) m = From_user (a + of_nat m)"
| "src_add (From_kernel a) m = From_kernel (a + of_nat m)"
| "src_add (From_local xs) m = From_local (drop m xs)"

fun either_copyout :: "nat \<Rightarrow> dst \<Rightarrow> bytes \<Rightarrow> 'a pstate_scheme \<Rightarrow> (int \<times> 'a pstate_scheme) res" where
  "either_copyout me (To_user a) xs s = copyout (p_pagetable (procs s ! me)) a xs s"
| "either_copyout me (To_kernel a) xs s = Inr (0, s\<lparr>pmem := mem_write (pmem s) a xs\<rparr>)"
| "either_copyout me To_local xs s = Inr (0, s)"

fun either_copyin :: "nat \<Rightarrow> src \<Rightarrow> nat \<Rightarrow> 'a pstate_scheme \<Rightarrow> (int \<times> bytes) res" where
  "either_copyin me (From_user a) n s = copyin (p_pagetable (procs s ! me)) a n s"
| "either_copyin me (From_kernel a) n s = Inr (0, mem_read (pmem s) a n)"
| "either_copyin me (From_local xs) n s = Inr (0, take n xs)"

section \<open>Blocks\<close>

definition readsb :: "nat \<Rightarrow> uint32 \<Rightarrow> 'a bstate_scheme \<Rightarrow> (superblock \<times> 'a bstate_scheme) res" where
  "readsb me dev s =
     rbind (bread me dev 1 s) (\<lambda>(bp, s).
     let d = b_data (bufs s ! bp) in
     rbind (brelse me bp s) (\<lambda>s.
     Inr (\<lparr>sb_magic = get32 0 d, sb_size = get32 4 d, sb_nblocks = get32 8 d, sb_ninodes = get32 12 d,
           sb_nlog = get32 16 d, sb_logstart = get32 20 d, sb_inodestart = get32 24 d,
           sb_bmapstart = get32 28 d\<rparr>, s)))"

definition fsinit :: "nat \<Rightarrow> uint32 \<Rightarrow> 'a istate_scheme \<Rightarrow> 'a istate_scheme res" where
  "fsinit me dev s =
     rbind (readsb me dev s) (\<lambda>(sb, s).
     let s = s\<lparr>fs_sb := sb\<rparr> in
     if sb_magic (fs_sb s) \<noteq> FSMAGIC then Inl (Panic ''invalid file system'')
     else initlog me dev (fs_sb s) s)"

definition bzero :: "nat \<Rightarrow> uint32 \<Rightarrow> uint32 \<Rightarrow> 'a lstate_scheme \<Rightarrow> 'a lstate_scheme res" where
  "bzero me dev bno s =
     rbind (bread me dev bno s) (\<lambda>(bp, s).
     rbind (log_write bp (upd_buf bp (\<lambda>x. x\<lparr>b_data := replicate BSIZE 0\<rparr>) s)) (\<lambda>s.
     brelse me bp s))"

definition bitmap_bit :: "nat \<Rightarrow> uint8" where
  "bitmap_bit bi = push_bit (bi mod 8) 1"

text \<open>The inner loop of \<open>balloc\<close>: the first clear bit of one bitmap block, for blocks below \<open>sz\<close>.\<close>

function balloc_scan :: "bytes \<Rightarrow> nat \<Rightarrow> nat \<Rightarrow> nat \<Rightarrow> nat option" where
  "balloc_scan d b sz bi =
     (if bi < BPB \<and> b + bi < sz
      then if (d ! (bi div 8)) AND bitmap_bit bi = 0 then Some bi else balloc_scan d b sz (bi + 1)
      else None)"
  by pat_completeness auto
termination
  by (relation "measure (\<lambda>(d, b, sz, bi). BPB - bi)") auto

declare balloc_scan.simps [simp del]

function balloc_loop :: "nat \<Rightarrow> uint32 \<Rightarrow> nat \<Rightarrow> nat \<Rightarrow> 'a istate_scheme \<Rightarrow> (uint32 \<times> 'a istate_scheme) res" where
  "balloc_loop me dev sz b s =
     (if b < sz
      then rbind (bread me dev (BBLOCK (of_nat b) (fs_sb s)) s) (\<lambda>(bp, s).
        case balloc_scan (b_data (bufs s ! bp)) b sz 0 of
          Some bi \<Rightarrow>
            let s = upd_buf bp (\<lambda>x. x\<lparr>b_data := (b_data x)[bi div 8 := (b_data x ! (bi div 8)) OR bitmap_bit bi]\<rparr>) s in
            rbind (log_write bp s) (\<lambda>s.
            rbind (brelse me bp s) (\<lambda>s.
            rbind (bzero me dev (of_nat (b + bi)) s) (\<lambda>s.
            Inr (of_nat (b + bi), s))))
        | None \<Rightarrow> rbind (brelse me bp s) (\<lambda>s. balloc_loop me dev sz (b + BPB) s))
      else Inr (0, s))"
  by pat_completeness auto
termination
  by (relation "measure (\<lambda>(me, dev, sz, b, s). sz - b)") (auto simp: fs_params)

declare balloc_loop.simps [simp del]

definition balloc :: "nat \<Rightarrow> uint32 \<Rightarrow> 'a istate_scheme \<Rightarrow> (uint32 \<times> 'a istate_scheme) res" where
  "balloc me dev s = balloc_loop me dev (unat (sb_size (fs_sb s))) 0 s"

definition bfree :: "nat \<Rightarrow> uint32 \<Rightarrow> uint32 \<Rightarrow> 'a istate_scheme \<Rightarrow> 'a istate_scheme res" where
  "bfree me dev b s =
     rbind (bread me dev (BBLOCK b (fs_sb s)) s) (\<lambda>(bp, s).
     let bi = unat b mod BPB;
         d = b_data (bufs s ! bp) in
     if (d ! (bi div 8)) AND bitmap_bit bi = 0 then Inl (Panic ''freeing free block'')
     else
       rbind (log_write bp (upd_buf bp (\<lambda>x. x\<lparr>b_data := d[bi div 8 := (d ! (bi div 8)) AND NOT (bitmap_bit bi)]\<rparr>) s)) (\<lambda>s.
       brelse me bp s))"

section \<open>Inodes\<close>

definition iinit :: "'a istate_scheme \<Rightarrow> 'a istate_scheme" where
  "iinit s = s\<lparr>itable := map (\<lambda>i. i\<lparr>i_lock := initsleeplock ''inode''\<rparr>) (itable s)\<rparr>"

fun iget_scan :: "uint32 \<Rightarrow> uint32 \<Rightarrow> inode list \<Rightarrow> nat \<Rightarrow> nat option \<Rightarrow> nat option \<times> nat option" where
  "iget_scan dev inum [] i e = (None, e)"
| "iget_scan dev inum (ip # ips) i e =
     (if 0 < i_ref ip \<and> i_dev ip = dev \<and> i_inum ip = inum then (Some i, e)
      else iget_scan dev inum ips (Suc i) (if e = None \<and> i_ref ip = 0 then Some i else e))"

definition iget :: "uint32 \<Rightarrow> uint32 \<Rightarrow> 'a istate_scheme \<Rightarrow> (nat \<times> 'a istate_scheme) res" where
  "iget dev inum s =
     (case iget_scan dev inum (itable s) 0 None of
        (Some ip, _) \<Rightarrow> Inr (ip, upd_inode ip (\<lambda>i. i\<lparr>i_ref := i_ref i + 1\<rparr>) s)
      | (None, None) \<Rightarrow> Inl (Panic ''iget: no inodes'')
      | (None, Some ip) \<Rightarrow>
          Inr (ip, upd_inode ip (\<lambda>i. i\<lparr>i_dev := dev, i_inum := inum, i_ref := 1, i_valid := False\<rparr>) s))"

definition idup :: "nat \<Rightarrow> 'a istate_scheme \<Rightarrow> nat \<times> 'a istate_scheme" where
  "idup ip s = (ip, upd_inode ip (\<lambda>i. i\<lparr>i_ref := i_ref i + 1\<rparr>) s)"

fun ialloc_loop :: "nat \<Rightarrow> uint32 \<Rightarrow> uint16 \<Rightarrow> nat list \<Rightarrow> 'a istate_scheme \<Rightarrow> (nat option \<times> 'a istate_scheme) res" where
  "ialloc_loop me dev typ [] s = Inr (None, s)"
| "ialloc_loop me dev typ (inum # inums) s =
     rbind (bread me dev (IBLOCK (of_nat inum) (fs_sb s)) s) (\<lambda>(bp, s).
     let k = inum mod IPB;
         d = b_data (bufs s ! bp) in
     if get16 (64 * k) d = 0
     then
       rbind (log_write bp (upd_buf bp (\<lambda>x. x\<lparr>b_data := put16 (64 * k) typ (put_bytes (64 * k) (replicate 64 0) d)\<rparr>) s)) (\<lambda>s.
       rbind (brelse me bp s) (\<lambda>s.
       rbind (iget dev (of_nat inum) s) (\<lambda>(ip, s). Inr (Some ip, s))))
     else rbind (brelse me bp s) (\<lambda>s. ialloc_loop me dev typ inums s))"

definition ialloc :: "nat \<Rightarrow> uint32 \<Rightarrow> uint16 \<Rightarrow> 'a istate_scheme \<Rightarrow> (nat option \<times> 'a istate_scheme) res" where
  "ialloc me dev typ s = ialloc_loop me dev typ [1..<unat (sb_ninodes (fs_sb s))] s"

definition iupdate :: "nat \<Rightarrow> nat \<Rightarrow> 'a istate_scheme \<Rightarrow> 'a istate_scheme res" where
  "iupdate me ip s =
     rbind (bread me (i_dev (ino s ip)) (IBLOCK (i_inum (ino s ip)) (fs_sb s)) s) (\<lambda>(bp, s).
     rbind (log_write bp (upd_buf bp (\<lambda>x. x\<lparr>b_data :=
       dinode_put (unat (i_inum (ino s ip)) mod IPB) (ino s ip) (b_data x)\<rparr>) s)) (\<lambda>s.
     brelse me bp s))"

definition ilock :: "nat \<Rightarrow> nat \<Rightarrow> 'a istate_scheme \<Rightarrow> 'a istate_scheme res" where
  "ilock me ip s =
     (if i_ref (ino s ip) < 1 then Inl (Panic ''ilock'')
      else
        rbind (acquiresleep me s (i_lock (ino s ip))) (\<lambda>lk.
        let s = upd_inode ip (\<lambda>i. i\<lparr>i_lock := lk\<rparr>) s in
        if \<not> i_valid (ino s ip)
        then
          rbind (bread me (i_dev (ino s ip)) (IBLOCK (i_inum (ino s ip)) (fs_sb s)) s) (\<lambda>(bp, s).
          let s = upd_inode ip (dinode_get (unat (i_inum (ino s ip)) mod IPB) (b_data (bufs s ! bp))) s in
          rbind (brelse me bp s) (\<lambda>s.
          let s = upd_inode ip (\<lambda>i. i\<lparr>i_valid := True\<rparr>) s in
          if i_type (ino s ip) = 0 then Inl (Panic ''ilock: no type'') else Inr s))
        else Inr s))"

text \<open>Unlocking a null inode is the panic of \<open>iunlock\<close>; callers pass an index, so it is the other two tests.\<close>

definition iunlock :: "nat \<Rightarrow> nat \<Rightarrow> 'a istate_scheme \<Rightarrow> 'a istate_scheme res" where
  "iunlock me ip s =
     (if \<not> holdingsleep me s (i_lock (ino s ip)) \<or> i_ref (ino s ip) < 1 then Inl (Panic ''iunlock'')
      else
        let (lk, s) = releasesleep me (Chan_inode ip) s (i_lock (ino s ip)) in
        Inr (upd_inode ip (\<lambda>i. i\<lparr>i_lock := lk\<rparr>) s))"

section \<open>Inode content\<close>

definition bmap :: "nat \<Rightarrow> nat \<Rightarrow> nat \<Rightarrow> 'a istate_scheme \<Rightarrow> (uint32 \<times> 'a istate_scheme) res" where
  "bmap me ip bn s =
     (if bn < NDIRECT
      then
        if i_addrs (ino s ip) ! bn = 0
        then rbind (balloc me (i_dev (ino s ip)) s) (\<lambda>(addr, s).
          if addr = 0 then Inr (0, s)
          else Inr (addr, upd_inode ip (\<lambda>i. i\<lparr>i_addrs := (i_addrs i)[bn := addr]\<rparr>) s))
        else Inr (i_addrs (ino s ip) ! bn, s)
      else
        let bn = bn - NDIRECT in
        if bn < NINDIRECT
        then
          rbind (if i_addrs (ino s ip) ! NDIRECT = 0
                 then rbind (balloc me (i_dev (ino s ip)) s) (\<lambda>(addr, s).
                   if addr = 0 then Inr (0, s)
                   else Inr (addr, upd_inode ip (\<lambda>i. i\<lparr>i_addrs := (i_addrs i)[NDIRECT := addr]\<rparr>) s))
                 else Inr (i_addrs (ino s ip) ! NDIRECT, s)) (\<lambda>(addr, s).
          if addr = 0 then Inr (0, s)
          else
            rbind (bread me (i_dev (ino s ip)) addr s) (\<lambda>(bp, s).
            rbind (if get32 (4 * bn) (b_data (bufs s ! bp)) = 0
                   then rbind (balloc me (i_dev (ino s ip)) s) (\<lambda>(addr, s).
                     if addr \<noteq> 0
                     then rbind (log_write bp (upd_buf bp (\<lambda>x. x\<lparr>b_data := put32 (4 * bn) addr (b_data x)\<rparr>) s))
                            (\<lambda>s. Inr (addr, s))
                     else Inr (addr, s))
                   else Inr (get32 (4 * bn) (b_data (bufs s ! bp)), s)) (\<lambda>(addr, s).
            rbind (brelse me bp s) (\<lambda>s. Inr (addr, s)))))
        else Inl (Panic ''bmap: out of range''))"

fun itrunc_direct :: "nat \<Rightarrow> nat \<Rightarrow> nat list \<Rightarrow> 'a istate_scheme \<Rightarrow> 'a istate_scheme res" where
  "itrunc_direct me ip [] s = Inr s"
| "itrunc_direct me ip (i # is) s =
     (if i_addrs (ino s ip) ! i \<noteq> 0
      then rbind (bfree me (i_dev (ino s ip)) (i_addrs (ino s ip) ! i) s) (\<lambda>s.
        itrunc_direct me ip is (upd_inode ip (\<lambda>x. x\<lparr>i_addrs := (i_addrs x)[i := 0]\<rparr>) s))
      else itrunc_direct me ip is s)"

fun itrunc_indirect :: "nat \<Rightarrow> nat \<Rightarrow> nat \<Rightarrow> nat list \<Rightarrow> 'a istate_scheme \<Rightarrow> 'a istate_scheme res" where
  "itrunc_indirect me ip bp [] s = Inr s"
| "itrunc_indirect me ip bp (j # js) s =
     (let a = get32 (4 * j) (b_data (bufs s ! bp)) in
      if a \<noteq> 0
      then rbind (bfree me (i_dev (ino s ip)) a s) (\<lambda>s. itrunc_indirect me ip bp js s)
      else itrunc_indirect me ip bp js s)"

definition itrunc :: "nat \<Rightarrow> nat \<Rightarrow> 'a istate_scheme \<Rightarrow> 'a istate_scheme res" where
  "itrunc me ip s =
     rbind (itrunc_direct me ip [0..<NDIRECT] s) (\<lambda>s.
     rbind (if i_addrs (ino s ip) ! NDIRECT \<noteq> 0
            then
              rbind (bread me (i_dev (ino s ip)) (i_addrs (ino s ip) ! NDIRECT) s) (\<lambda>(bp, s).
              rbind (itrunc_indirect me ip bp [0..<NINDIRECT] s) (\<lambda>s.
              rbind (brelse me bp s) (\<lambda>s.
              rbind (bfree me (i_dev (ino s ip)) (i_addrs (ino s ip) ! NDIRECT) s) (\<lambda>s.
              Inr (upd_inode ip (\<lambda>x. x\<lparr>i_addrs := (i_addrs x)[NDIRECT := 0]\<rparr>) s)))))
            else Inr s) (\<lambda>s.
     iupdate me ip (upd_inode ip (\<lambda>x. x\<lparr>i_size := 0\<rparr>) s)))"

definition iput :: "nat \<Rightarrow> nat \<Rightarrow> 'a istate_scheme \<Rightarrow> 'a istate_scheme res" where
  "iput me ip s =
     rbind (if i_ref (ino s ip) = 1 \<and> i_valid (ino s ip) \<and> i_nlink (ino s ip) = 0
            then
              rbind (acquiresleep me s (i_lock (ino s ip))) (\<lambda>lk.
              rbind (itrunc me ip (upd_inode ip (\<lambda>i. i\<lparr>i_lock := lk\<rparr>) s)) (\<lambda>s.
              rbind (iupdate me ip (upd_inode ip (\<lambda>i. i\<lparr>i_type := 0\<rparr>) s)) (\<lambda>s.
              let s = upd_inode ip (\<lambda>i. i\<lparr>i_valid := False\<rparr>) s;
                  (lk, s) = releasesleep me (Chan_inode ip) s (i_lock (ino s ip)) in
              Inr (upd_inode ip (\<lambda>i. i\<lparr>i_lock := lk\<rparr>) s))))
            else Inr s) (\<lambda>s.
     Inr (upd_inode ip (\<lambda>i. i\<lparr>i_ref := i_ref i - 1\<rparr>) s))"

definition iunlockput :: "nat \<Rightarrow> nat \<Rightarrow> 'a istate_scheme \<Rightarrow> 'a istate_scheme res" where
  "iunlockput me ip s = rbind (iunlock me ip s) (iput me ip)"

text \<open>\<open>struct stat\<close>: the inode number, type, link count and size, after the device.\<close>

record stat =
  st_dev :: uint32
  st_ino :: uint32
  st_type :: uint16
  st_nlink :: uint16
  st_size :: uint64

definition stati :: "nat \<Rightarrow> 'a istate_scheme \<Rightarrow> stat" where
  "stati ip s = \<lparr>st_dev = i_dev (ino s ip), st_ino = i_inum (ino s ip), st_type = i_type (ino s ip),
     st_nlink = i_nlink (ino s ip), st_size = ucast (i_size (ino s ip))\<rparr>"

text \<open>The loop of \<open>readi\<close>: returns the count (or -1) and the bytes read for a local destination.\<close>

function readi_loop ::
  "nat \<Rightarrow> nat \<Rightarrow> dst \<Rightarrow> nat \<Rightarrow> nat \<Rightarrow> nat \<Rightarrow> 'a istate_scheme \<Rightarrow> (int \<times> bytes \<times> 'a istate_scheme) res" where
  "readi_loop me ip dst off n tot s =
     (if tot < n
      then
        rbind (bmap me ip (off div BSIZE) s) (\<lambda>(addr, s).
        if addr = 0 then Inr (int tot, [], s)
        else
          rbind (bread me (i_dev (ino s ip)) addr s) (\<lambda>(bp, s).
          let m = min (n - tot) (BSIZE - off mod BSIZE);
              xs = get_bytes (off mod BSIZE) m (b_data (bufs s ! bp)) in
          rbind (either_copyout me dst xs s) (\<lambda>(r, s).
          if r = -1 then rbind (brelse me bp s) (\<lambda>s. Inr (-1, [], s))
          else
            rbind (brelse me bp s) (\<lambda>s.
            rbind (readi_loop me ip (dst_add dst m) (off + m) n (tot + m) s) (\<lambda>(r, ys, s).
            Inr (r, xs @ ys, s))))))
      else Inr (int tot, [], s))"
  by pat_completeness auto
termination
  by (relation "measure (\<lambda>(me, ip, dst, off, n, tot, s). n - tot)") auto

declare readi_loop.simps [simp del]

definition readi ::
  "nat \<Rightarrow> nat \<Rightarrow> dst \<Rightarrow> uint32 \<Rightarrow> uint32 \<Rightarrow> 'a istate_scheme \<Rightarrow> (int \<times> bytes \<times> 'a istate_scheme) res" where
  "readi me ip dst off n s =
     (if i_size (ino s ip) < off \<or> off + n < off then Inr (0, [], s)
      else
        let n = (if i_size (ino s ip) < off + n then i_size (ino s ip) - off else n) in
        readi_loop me ip dst (unat off) (unat n) 0 s)"

text \<open>The loop of \<open>writei\<close>: returns the count and the offset reached.\<close>

function writei_loop ::
  "nat \<Rightarrow> nat \<Rightarrow> src \<Rightarrow> nat \<Rightarrow> nat \<Rightarrow> nat \<Rightarrow> 'a istate_scheme \<Rightarrow> (nat \<times> nat \<times> 'a istate_scheme) res" where
  "writei_loop me ip src off n tot s =
     (if tot < n
      then
        rbind (bmap me ip (off div BSIZE) s) (\<lambda>(addr, s).
        if addr = 0 then Inr (tot, off, s)
        else
          rbind (bread me (i_dev (ino s ip)) addr s) (\<lambda>(bp, s).
          let m = min (n - tot) (BSIZE - off mod BSIZE) in
          rbind (either_copyin me src m s) (\<lambda>(r, xs).
          let s = upd_buf bp (\<lambda>x. x\<lparr>b_data := put_bytes (off mod BSIZE) xs (b_data x)\<rparr>) s in
          if r = -1 then rbind (brelse me bp s) (\<lambda>s. Inr (tot, off, s))
          else
            rbind (log_write bp s) (\<lambda>s.
            rbind (brelse me bp s) (\<lambda>s.
            writei_loop me ip (src_add src m) (off + m) n (tot + m) s)))))
      else Inr (tot, off, s))"
  by pat_completeness auto
termination
  by (relation "measure (\<lambda>(me, ip, src, off, n, tot, s). n - tot)") auto

declare writei_loop.simps [simp del]

definition writei ::
  "nat \<Rightarrow> nat \<Rightarrow> src \<Rightarrow> uint32 \<Rightarrow> uint32 \<Rightarrow> 'a istate_scheme \<Rightarrow> (int \<times> 'a istate_scheme) res" where
  "writei me ip src off n s =
     (if i_size (ino s ip) < off \<or> off + n < off then Inr (-1, s)
      else if of_nat (MAXFILE * BSIZE) < off + n then Inr (-1, s)
      else
        rbind (writei_loop me ip src (unat off) (unat n) 0 s) (\<lambda>(tot, off, s).
        let s = (if i_size (ino s ip) < of_nat off then upd_inode ip (\<lambda>i. i\<lparr>i_size := of_nat off\<rparr>) s else s) in
        rbind (iupdate me ip s) (\<lambda>s. Inr (int tot, s))))"

section \<open>Directories\<close>

text \<open>
  A directory entry is a 16-bit inode number and \<open>DIRSIZ\<close> bytes of name.  A name is kept as its bytes,
  at most \<open>DIRSIZ\<close> of them and without the terminator; \<open>cstr\<close> is the pointer to it.
\<close>

definition de_inum :: "bytes \<Rightarrow> uint16" where "de_inum de = get16 0 de"

definition de_name :: "bytes \<Rightarrow> ptr" where "de_name de = cstr (get_bytes 2 DIRSIZ de)"

definition dirent_bytes :: "uint16 \<Rightarrow> ptr \<Rightarrow> bytes" where
  "dirent_bytes inum nm = word_bytes 2 inum @ map nm [0..<DIRSIZ]"

definition namecmp :: "ptr \<Rightarrow> ptr \<Rightarrow> int" where
  "namecmp p q = strncmp p q DIRSIZ"

function dirlookup_loop ::
  "nat \<Rightarrow> nat \<Rightarrow> bytes \<Rightarrow> nat \<Rightarrow> nat \<Rightarrow> 'a istate_scheme \<Rightarrow> ((nat \<times> uint32) option \<times> 'a istate_scheme) res" where
  "dirlookup_loop me dp nm sz off s =
     (if off < sz
      then
        rbind (readi me dp To_local (of_nat off) 16 s) (\<lambda>(r, de, s).
        if r \<noteq> 16 then Inl (Panic ''dirlookup read'')
        else if de_inum de = 0 then dirlookup_loop me dp nm sz (off + 16) s
        else if namecmp (cstr nm) (de_name de) = 0
        then rbind (iget (i_dev (ino s dp)) (ucast (de_inum de)) s) (\<lambda>(ip, s). Inr (Some (ip, of_nat off), s))
        else dirlookup_loop me dp nm sz (off + 16) s)
      else Inr (None, s))"
  by pat_completeness auto
termination
  by (relation "measure (\<lambda>(me, dp, nm, sz, off, s). sz - off)") auto

declare dirlookup_loop.simps [simp del]

definition dirlookup ::
  "nat \<Rightarrow> nat \<Rightarrow> bytes \<Rightarrow> 'a istate_scheme \<Rightarrow> ((nat \<times> uint32) option \<times> 'a istate_scheme) res" where
  "dirlookup me dp nm s =
     (if i_type (ino s dp) \<noteq> T_DIR then Inl (Panic ''dirlookup not DIR'')
      else dirlookup_loop me dp nm (unat (i_size (ino s dp))) 0 s)"

function dirlink_slot :: "nat \<Rightarrow> nat \<Rightarrow> nat \<Rightarrow> nat \<Rightarrow> 'a istate_scheme \<Rightarrow> (nat \<times> 'a istate_scheme) res" where
  "dirlink_slot me dp sz off s =
     (if off < sz
      then
        rbind (readi me dp To_local (of_nat off) 16 s) (\<lambda>(r, de, s).
        if r \<noteq> 16 then Inl (Panic ''dirlink read'')
        else if de_inum de = 0 then Inr (off, s)
        else dirlink_slot me dp sz (off + 16) s)
      else Inr (off, s))"
  by pat_completeness auto
termination
  by (relation "measure (\<lambda>(me, dp, sz, off, s). sz - off)") auto

declare dirlink_slot.simps [simp del]

definition dirlink :: "nat \<Rightarrow> nat \<Rightarrow> bytes \<Rightarrow> uint32 \<Rightarrow> 'a istate_scheme \<Rightarrow> (int \<times> 'a istate_scheme) res" where
  "dirlink me dp nm inum s =
     rbind (dirlookup me dp nm s) (\<lambda>(r, s).
     case r of
       Some (ip, _) \<Rightarrow> rbind (iput me ip s) (\<lambda>s. Inr (-1, s))
     | None \<Rightarrow>
         rbind (dirlink_slot me dp (unat (i_size (ino s dp))) 0 s) (\<lambda>(off, s).
         let de = dirent_bytes (ucast inum) (strncpy (\<lambda>_. 0) (cstr nm) (int DIRSIZ)) in
         rbind (writei me dp (From_local de) (of_nat off) 16 s) (\<lambda>(r, s).
         Inr (if r \<noteq> 16 then -1 else 0, s))))"

section \<open>Paths\<close>

definition slash :: uint8 where "slash = 47"

fun skip_slashes :: "bytes \<Rightarrow> bytes" where
  "skip_slashes [] = []"
| "skip_slashes (c # cs) = (if c = slash then skip_slashes cs else c # cs)"

fun take_elem :: "bytes \<Rightarrow> bytes \<times> bytes" where
  "take_elem [] = ([], [])"
| "take_elem (c # cs) = (if c = slash then ([], c # cs) else let (e, r) = take_elem cs in (c # e, r))"

definition skipelem :: "bytes \<Rightarrow> (bytes \<times> bytes) option" where
  "skipelem path =
     (let path = skip_slashes path in
      if path = [] then None
      else let (e, path) = take_elem path in Some (skip_slashes path, take DIRSIZ e))"

lemma skip_slashes_length: "length (skip_slashes p) \<le> length p"
  by (induction p) (auto simp: le_SucI)

lemma take_elem_length: "take_elem p = (e, r) \<Longrightarrow> length e + length r = length p"
  by (induction p arbitrary: e r) (auto split: if_splits prod.splits)

lemma skip_slashes_hd: "skip_slashes p = c # cs \<Longrightarrow> c \<noteq> slash"
  by (induction p) (auto split: if_splits)

lemma skipelem_shorter: "skipelem p = Some (r, e) \<Longrightarrow> length r < length p"
proof -
  assume h: "skipelem p = Some (r, e)"
  then obtain c cs where c: "skip_slashes p = c # cs" by (cases "skip_slashes p") (auto simp: skipelem_def)
  obtain f q where f: "take_elem (c # cs) = (f, q)" by (cases "take_elem (c # cs)")
  have "f \<noteq> []" using f skip_slashes_hd [OF c] by (auto split: prod.splits)
  then have "length q < length (c # cs)" using take_elem_length [OF f] by (cases f) auto
  moreover have "r = skip_slashes q" using h c f by (auto simp: skipelem_def)
  ultimately show ?thesis
    using skip_slashes_length [of q] skip_slashes_length [of p] c by simp
qed

function namex_loop ::
  "nat \<Rightarrow> bool \<Rightarrow> nat \<Rightarrow> bytes \<Rightarrow> bytes \<Rightarrow> 'a istate_scheme \<Rightarrow> (nat option \<times> bytes \<times> 'a istate_scheme) res" where
  "namex_loop me parent ip path nm s =
     (case skipelem path of
        None \<Rightarrow>
          if parent then rbind (iput me ip s) (\<lambda>s. Inr (None, nm, s))
          else Inr (Some ip, nm, s)
      | Some (path, nm) \<Rightarrow>
          rbind (ilock me ip s) (\<lambda>s.
          if i_type (ino s ip) \<noteq> T_DIR then rbind (iunlockput me ip s) (\<lambda>s. Inr (None, nm, s))
          else if parent \<and> path = [] then rbind (iunlock me ip s) (\<lambda>s. Inr (Some ip, nm, s))
          else
            rbind (dirlookup me ip nm s) (\<lambda>(r, s).
            case r of
              None \<Rightarrow> rbind (iunlockput me ip s) (\<lambda>s. Inr (None, nm, s))
            | Some (nxt, _) \<Rightarrow>
                rbind (iunlockput me ip s) (\<lambda>s. namex_loop me parent nxt path nm s))))"
  by pat_completeness auto
termination
  by (relation "measure (\<lambda>(me, parent, ip, path, nm, s). length path)") (auto dest!: skipelem_shorter)

declare namex_loop.simps [simp del]

definition namex :: "nat \<Rightarrow> bytes \<Rightarrow> bool \<Rightarrow> 'a istate_scheme \<Rightarrow> (nat option \<times> bytes \<times> 'a istate_scheme) res" where
  "namex me path parent s =
     (if path \<noteq> [] \<and> hd path = slash
      then rbind (iget ROOTDEV ROOTINO s) (\<lambda>(ip, s). namex_loop me parent ip path [] s)
      else
        case p_cwd (procs s ! me) of
          None \<Rightarrow> Inl (Fault ''idup'')
        | Some cwd \<Rightarrow> let (ip, s) = idup cwd s in namex_loop me parent ip path [] s)"

definition namei :: "nat \<Rightarrow> bytes \<Rightarrow> 'a istate_scheme \<Rightarrow> (nat option \<times> 'a istate_scheme) res" where
  "namei me path s = rbind (namex me path False s) (\<lambda>(ip, nm, s). Inr (ip, s))"

definition nameiparent :: "nat \<Rightarrow> bytes \<Rightarrow> 'a istate_scheme \<Rightarrow> (nat option \<times> bytes \<times> 'a istate_scheme) res" where
  "nameiparent me path s = namex me path True s"

end
