(* ===== verification/LogCrash.thy ===== *)
theory LogCrash
  imports Log
begin

text \<open>
  The log makes a transaction atomic.  Each loop of \<open>kernel/log.c\<close> is replaced by the list of disk
  writes it performs; a crash leaves the disk as some prefix of that list makes it, and recovery
  brings it to the state before or after the transaction.
\<close>

section \<open>Disk writes\<close>

definition apply_writes :: "(uint32 \<times> bytes) list \<Rightarrow> (uint32 \<Rightarrow> bytes) \<Rightarrow> uint32 \<Rightarrow> bytes" where
  "apply_writes ws d = fold (\<lambda>(b, x) m. m(b := x)) ws d"

lemma apply_writes_Nil [simp]: "apply_writes [] d = d"
  by (simp add: apply_writes_def)

lemma apply_writes_Cons [simp]: "apply_writes ((b, x) # ws) d = apply_writes ws (d(b := x))"
  by (simp add: apply_writes_def)

lemma apply_writes_append [simp]: "apply_writes (us @ ws) d = apply_writes ws (apply_writes us d)"
  by (simp add: apply_writes_def)

lemma apply_writes_other: "b \<notin> fst ` set ws \<Longrightarrow> apply_writes ws d b = d b"
  by (induction ws arbitrary: d) auto

lemma apply_writes_map:
  "apply_writes (map (\<lambda>t. (f t, g t)) ts) d b =
     (if b \<in> f ` set ts then g (last (filter (\<lambda>t. f t = b) ts)) else d b)"
  by (induction ts rule: rev_induct) auto

lemma apply_writes_fun:
  assumes "\<And>t u. t \<in> set ts \<Longrightarrow> u \<in> set ts \<Longrightarrow> f t = f u \<Longrightarrow> g t = g u" and "t \<in> set ts" and "b = f t"
  shows "apply_writes (map (\<lambda>t. (f t, g t)) ts) d b = g t"
proof -
  let ?l = "last (filter (\<lambda>u. f u = b) ts)"
  have "?l \<in> set (filter (\<lambda>u. f u = b) ts)" using assms(2,3) by (intro last_in_set) (auto simp: filter_empty_conv)
  then have "?l \<in> set ts" "f ?l = b" by auto
  then have "g ?l = g t" using assms by metis
  then show ?thesis using assms(2,3) by (auto simp: apply_writes_map)
qed

lemma klog_outside: "outside s' = outside s \<Longrightarrow> klog s' = klog (s :: 'a lstate_scheme)"
  by (cases s; cases s') (simp add: outside_def)

lemma log_blockno_klog: "klog s' = klog s \<Longrightarrow> log_blockno s' t = log_blockno s t"
  by (simp add: log_blockno_def)

lemma set_data_upd: "upd_buf b (\<lambda>x. x\<lparr>b_data := d\<rparr>) s = set_data b d s"
  by (simp add: set_data_def)

section \<open>Copying between the log and the home blocks\<close>

lemma write_log_loop_spec:
  assumes "cache_inv me dev s P {}" and "log_dev (klog s) = dev" and "finite P" and "card P < NBUF"
    and "\<And>t. t \<in> set ts \<Longrightarrow> t < LOGSIZE \<and> lhb s ! t \<in> P \<and> log_blockno s t \<notin> P"
  shows "\<exists>s'. write_log_loop me ts s = Inr s' \<and> cache_inv me dev s' P {} \<and> outside s' = outside s \<and>
    blk s' dev = apply_writes (map (\<lambda>t. (log_blockno s t, blk s dev (lhb s ! t))) ts) (blk s dev) \<and>
    disk s' = apply_writes (map (\<lambda>t. (log_blockno s t, blk s dev (lhb s ! t))) ts) (disk s) \<and>
    disk_writes s' = disk_writes s @ map (\<lambda>t. (log_blockno s t, blk s dev (lhb s ! t))) ts"
  using assms
proof (induction ts arbitrary: s)
  case Nil
  then show ?case by simp
next
  case (Cons t ts)
  let ?l = "log_blockno s t" and ?h = "lhb s ! t"
  have t: "t < LOGSIZE" "?h \<in> P" "?l \<notin> P" using Cons.prems(5) by auto
  then have ne: "?h \<noteq> ?l" by auto
  obtain b1 s1 b2 s2 s4 s5 s6 where c: "bread me dev ?l s = Inr (b1, s1)" "bread me dev ?h s1 = Inr (b2, s2)"
      "outside s1 = outside s" "outside s2 = outside s" "b_data (bufs s2 ! b2) = blk s dev ?h"
      "bwrite me b1 (set_data b1 (blk s dev ?h) s2) = Inr s4"
      "brelse me b2 s4 = Inr s5" "brelse me b1 s5 = Inr s6" "cache_inv me dev s6 P {}"
      "blk s6 dev = (blk s dev)(?l := blk s dev ?h)" "disk s6 = (disk s)(?l := blk s dev ?h)"
      "disk_writes s6 = disk_writes s @ [(?l, blk s dev ?h)]" "outside s6 = outside s"
    using bcache.copy_through [OF Cons.prems(1) ne t(3) Cons.prems(3,4)] t(2) by blast
  note k = klog_outside [OF c(3)] klog_outside [OF c(4)] klog_outside [OF c(13)]
  have step: "write_log_loop me (t # ts) s = write_log_loop me ts s6"
    using c(1-2,5-8) t(1) Cons.prems(2) k by (simp add: lh_get_def set_data_upd)
  have same: "blk s6 dev (lhb s ! u) = blk s dev (lhb s ! u)" if "u \<in> set ts" for u
    using Cons.prems(5) [of u] that t c(10) by auto
  have m: "map (\<lambda>t. (log_blockno s6 t, blk s6 dev (lhb s6 ! t))) ts =
      map (\<lambda>t. (log_blockno s t, blk s dev (lhb s ! t))) ts"
    using same k(3) log_blockno_klog [OF k(3)] by simp
  have "\<exists>s'. write_log_loop me ts s6 = Inr s' \<and> cache_inv me dev s' P {} \<and> outside s' = outside s6 \<and>
    blk s' dev = apply_writes (map (\<lambda>t. (log_blockno s6 t, blk s6 dev (lhb s6 ! t))) ts) (blk s6 dev) \<and>
    disk s' = apply_writes (map (\<lambda>t. (log_blockno s6 t, blk s6 dev (lhb s6 ! t))) ts) (disk s6) \<and>
    disk_writes s' = disk_writes s6 @ map (\<lambda>t. (log_blockno s6 t, blk s6 dev (lhb s6 ! t))) ts"
    using Cons.prems c(9) k(3) log_blockno_klog [OF k(3)] by (intro Cons.IH) auto
  then show ?case unfolding m step using c by auto
qed

lemma install_trans_loop_spec:
  assumes "cache_inv me dev s P {}" and "log_dev (klog s) = dev" and "finite P" and "card P < NBUF"
    and "rec \<longrightarrow> card P + 1 < NBUF" and "distinct (map ((!) (lhb s)) ts)"
    and "\<And>t. t \<in> set ts \<Longrightarrow> t < LOGSIZE \<and> (lhb s ! t \<in> P \<longleftrightarrow> \<not> rec)"
    and "\<And>t u. t \<in> set ts \<Longrightarrow> u \<in> set ts \<Longrightarrow> log_blockno s t \<noteq> lhb s ! u"
    and "\<And>t. t \<in> set ts \<Longrightarrow> log_blockno s t \<notin> P"
  shows "\<exists>s'. install_trans_loop me rec ts s = Inr s' \<and>
    cache_inv me dev s' (P - (!) (lhb s) ` set ts) {} \<and> outside s' = outside s \<and>
    blk s' dev = apply_writes (map (\<lambda>t. (lhb s ! t, blk s dev (log_blockno s t))) ts) (blk s dev) \<and>
    disk s' = apply_writes (map (\<lambda>t. (lhb s ! t, blk s dev (log_blockno s t))) ts) (disk s) \<and>
    disk_writes s' = disk_writes s @ map (\<lambda>t. (lhb s ! t, blk s dev (log_blockno s t))) ts"
  using assms
proof (induction ts arbitrary: s P)
  case Nil
  then show ?case by simp
next
  case (Cons t ts)
  let ?l = "log_blockno s t" and ?h = "lhb s ! t"
  have t: "t < LOGSIZE" "(\<not> rec) = (?h \<in> P)" "?l \<noteq> ?h" "?l \<notin> P"
    using Cons.prems(7) [of t] Cons.prems(8) [of t t] Cons.prems(9) [of t] by auto
  obtain b1 s1 b2 s2 s4 s5 s6 where c: "bread me dev ?l s = Inr (b1, s1)" "bread me dev ?h s1 = Inr (b2, s2)"
      "outside s1 = outside s" "outside s2 = outside s" "b_data (bufs s2 ! b1) = blk s dev ?l"
      "bwrite me b2 (set_data b2 (blk s dev ?l) s2) = Inr s4"
      "brelse me b1 (if \<not> rec then bunpin b2 s4 else s4) = Inr s5" "brelse me b2 s5 = Inr s6"
      "cache_inv me dev s6 (P - {?h}) {}"
      "blk s6 dev = (blk s dev)(?h := blk s dev ?l)" "disk s6 = (disk s)(?h := blk s dev ?l)"
      "disk_writes s6 = disk_writes s @ [(?h, blk s dev ?l)]" "outside s6 = outside s"
    using bcache.install_through [OF Cons.prems(1) t(3,4,2) Cons.prems(3,4)] Cons.prems(5) by blast
  note k = klog_outside [OF c(3)] klog_outside [OF c(4)] klog_outside [OF c(13)]
  have step: "install_trans_loop me rec (t # ts) s = install_trans_loop me rec ts s6"
    using c(1-2,5-8) t(1) Cons.prems(2) k by (simp add: lh_get_def set_data_upd)
  have same: "blk s6 dev (log_blockno s u) = blk s dev (log_blockno s u)" if "u \<in> set ts" for u
    using Cons.prems(8) [of u t] that c(10) by auto
  have m: "map (\<lambda>t. (lhb s6 ! t, blk s6 dev (log_blockno s6 t))) ts =
      map (\<lambda>t. (lhb s ! t, blk s dev (log_blockno s t))) ts"
    using same k(3) log_blockno_klog [OF k(3)] by simp
  have card: "card (P - {?h}) \<le> card P" using Cons.prems(3) by (simp add: card_Diff1_le)
  have "\<exists>s'. install_trans_loop me rec ts s6 = Inr s' \<and>
    cache_inv me dev s' (P - {?h} - (!) (lhb s6) ` set ts) {} \<and> outside s' = outside s6 \<and>
    blk s' dev = apply_writes (map (\<lambda>t. (lhb s6 ! t, blk s6 dev (log_blockno s6 t))) ts) (blk s6 dev) \<and>
    disk s' = apply_writes (map (\<lambda>t. (lhb s6 ! t, blk s6 dev (log_blockno s6 t))) ts) (disk s6) \<and>
    disk_writes s' = disk_writes s6 @ map (\<lambda>t. (lhb s6 ! t, blk s6 dev (log_blockno s6 t))) ts"
  proof (rule Cons.IH)
    show "u < LOGSIZE \<and> (lhb s6 ! u \<in> P - {?h} \<longleftrightarrow> \<not> rec)" if "u \<in> set ts" for u
      using Cons.prems(6) Cons.prems(7) [of u] that k(3) by (auto simp: image_iff)
    show "log_blockno s6 u \<noteq> lhb s6 ! v" if "u \<in> set ts" "v \<in> set ts" for u v
      using Cons.prems(8) [of u v] that k(3) log_blockno_klog [OF k(3)] by simp
    show "log_blockno s6 u \<notin> P - {?h}" if "u \<in> set ts" for u
      using Cons.prems(9) [of u] that log_blockno_klog [OF k(3)] by simp
  qed (use Cons.prems c(9) k(3) card in auto)
  moreover have "P - {?h} - (!) (lhb s) ` set ts = P - (!) (lhb s) ` set (t # ts)" by auto
  ultimately show ?case unfolding m step using c k(3) by auto
qed

section \<open>The header\<close>

definition is_header :: "int \<Rightarrow> uint32 list \<Rightarrow> bytes \<Rightarrow> bool" where
  "is_header n bl d \<longleftrightarrow> length d = BSIZE \<and> get32 0 d = word_of_int n \<and>
     (\<forall>i < nat n. get32 (4 + 4 * i) d = bl ! i)"

lemma write_head_loop_spec:
  assumes "\<And>i. i \<in> set is \<Longrightarrow> i < LOGSIZE" and "length d = BSIZE"
  shows "\<exists>d'. write_head_loop is bl d = Inr d' \<and> length d' = BSIZE \<and> get32 0 d' = get32 0 d \<and>
    (\<forall>j < LOGSIZE. get32 (4 + 4 * j) d' = (if j \<in> set is then bl ! j else get32 (4 + 4 * j) d))"
  using assms
proof (induction "is" arbitrary: d)
  case Nil
  then show ?case by simp
next
  case (Cons i "is")
  have i: "i < LOGSIZE" using Cons.prems(1) by simp
  then have fit: "4 + 4 * i + 4 \<le> length d" using Cons.prems(2) by (simp add: params)
  let ?d = "put32 (4 + 4 * i) (bl ! i) d"
  have len: "length ?d = BSIZE" using Cons.prems(2) length_put(1) [OF fit] by simp
  have g0: "get32 0 ?d = get32 0 d" using get32_put32_other [OF fit, of 0] by simp
  have gi: "get32 (4 + 4 * j) ?d = (if j = i then bl ! i else get32 (4 + 4 * j) d)" for j
    using get32_put32_same [OF fit] get32_put32_other [OF fit, of "4 + 4 * j"] by (cases "j < i") auto
  obtain d' where "write_head_loop is bl ?d = Inr d'" "length d' = BSIZE" "get32 0 d' = get32 0 ?d"
      "\<forall>j < LOGSIZE. get32 (4 + 4 * j) d' = (if j \<in> set is then bl ! j else get32 (4 + 4 * j) ?d)"
    using Cons.IH [OF _ len] Cons.prems(1) by auto
  then show ?case using i g0 gi by auto
qed

lemma read_head_loop_spec:
  assumes "\<And>i. i \<in> set is \<Longrightarrow> i < LOGSIZE" and "length bl = LOGSIZE"
  shows "\<exists>bl'. read_head_loop is d bl = Inr bl' \<and> length bl' = LOGSIZE \<and>
    (\<forall>j < LOGSIZE. bl' ! j = (if j \<in> set is then get32 (4 + 4 * j) d else bl ! j))"
  using assms
proof (induction "is" arbitrary: bl)
  case Nil
  then show ?case by simp
next
  case (Cons i "is")
  have "\<exists>bl'. read_head_loop is d (bl[i := get32 (4 + 4 * i) d]) = Inr bl' \<and> length bl' = LOGSIZE \<and>
    (\<forall>j < LOGSIZE. bl' ! j =
      (if j \<in> set is then get32 (4 + 4 * j) d else bl[i := get32 (4 + 4 * i) d] ! j))"
    using Cons.prems by (intro Cons.IH) auto
  then show ?case using Cons.prems by (auto simp: nth_upd)
qed

abbreviation log_head :: "'a lstate_scheme \<Rightarrow> uint32" where
  "log_head s \<equiv> word_of_int (log_start (klog s))"

lemma write_head_spec:
  assumes inv: "cache_inv me dev s P {}" and dev: "log_dev (klog s) = dev" and fin: "finite P" "card P < NBUF"
    and h: "log_head s \<notin> P" and n: "0 \<le> lhn s" "lhn s \<le> int LOGSIZE"
  shows "\<exists>s' d. write_head me s = Inr s' \<and> cache_inv me dev s' P {} \<and> outside s' = outside s \<and>
    is_header (lhn s) (lhb s) d \<and> blk s' dev = (blk s dev)(log_head s := d) \<and>
    disk s' = (disk s)(log_head s := d) \<and> disk_writes s' = disk_writes s @ [(log_head s, d)]"
proof -
  obtain b s1 where 1: "bread me dev (log_head s) s = Inr (b, s1)"
      "b_data (bufs s1 ! b) = blk s dev (log_head s)" "outside s1 = outside s"
      "\<forall>d. length d = BSIZE \<longrightarrow> (\<exists>s3 s4. bwrite me b (set_data b d s1) = Inr s3 \<and> brelse me b s3 = Inr s4 \<and>
       cache_inv me dev s4 P {} \<and> blk s4 dev = (blk s dev)(log_head s := d) \<and>
       disk s4 = (disk s)(log_head s := d) \<and> disk_writes s4 = disk_writes s @ [(log_head s, d)] \<and>
       outside s4 = outside s)"
    using bcache.update_through [OF inv h fin] by blast
  have k: "klog s1 = klog s" using klog_outside [OF 1(3)] .
  let ?d0 = "put32 0 (word_of_int (lhn s)) (blk s dev (log_head s))"
  have l: "length (blk s dev (log_head s)) = BSIZE" using bcache.length_law [OF inv] .
  then have l0: "length ?d0 = BSIZE" by simp
  have i: "i < LOGSIZE" if "i \<in> set [0..<nat (lhn s)]" for i using that n by auto
  obtain d where d: "write_head_loop [0..<nat (lhn s)] (lhb s) ?d0 = Inr d" "length d = BSIZE"
      "get32 0 d = get32 0 ?d0"
      "\<forall>j < LOGSIZE. get32 (4 + 4 * j) d = (if j \<in> set [0..<nat (lhn s)] then lhb s ! j else get32 (4 + 4 * j) ?d0)"
    using write_head_loop_spec [of "[0..<nat (lhn s)]" ?d0 "lhb s", OF i l0] by auto
  have "get32 0 ?d0 = word_of_int (lhn s)" using get32_put32_same [of 0 "blk s dev (log_head s)"] l by simp
  moreover have "get32 (4 + 4 * i) d = lhb s ! i" if "i < nat (lhn s)" for i using d(4) that n by auto
  ultimately have hdr: "is_header (lhn s) (lhb s) d" using d(2,3) by (simp add: is_header_def)
  obtain s3 s4 where "bwrite me b (set_data b d s1) = Inr s3" "brelse me b s3 = Inr s4"
       "cache_inv me dev s4 P {} \<and> blk s4 dev = (blk s dev)(log_head s := d) \<and>
       disk s4 = (disk s)(log_head s := d) \<and> disk_writes s4 = disk_writes s @ [(log_head s, d)] \<and>
       outside s4 = outside s"
    using 1(4) d(2) by blast
  then show ?thesis using 1(1,2) k dev d(1) hdr by (auto simp: write_head_def set_data_upd)
qed

lemma upd_log_cache [simp]:
  "cache_inv me dev (upd_log f s) P H = cache_inv me dev s P H" "blk (upd_log f s) = blk s"
  "disk (upd_log f s) = disk s" "disk_writes (upd_log f s) = disk_writes s" "bufs (upd_log f s) = bufs s"
  "procs (upd_log f s) = procs s" "block_of (upd_log f s) = block_of s"
  by (simp_all add: upd_log_def cache_inv_def bst_def blk_def cached_def fun_eq_iff block_of_def
      split: option.split)

lemma upd_lh_cache [simp]:
  "cache_inv me dev (upd_lh f s) P H = cache_inv me dev s P H" "blk (upd_lh f s) = blk s"
  "disk (upd_lh f s) = disk s" "disk_writes (upd_lh f s) = disk_writes s" "bufs (upd_lh f s) = bufs s"
  "procs (upd_lh f s) = procs s" "block_of (upd_lh f s) = block_of s"
  by (simp_all add: upd_lh_def)

lemma klog_upd_lh [simp]: "klog (upd_lh f s) = (klog s)\<lparr>log_lh := f (log_lh (klog s))\<rparr>"
  by (simp add: upd_lh_def upd_log_def)

lemma sint_count: "0 \<le> n \<Longrightarrow> n \<le> int LOGSIZE \<Longrightarrow> sint (word_of_int n :: uint32) = n"
  by (simp add: params sint_sbintrunc' signed_take_bit_int_eq_self)

lemma read_head_spec:
  assumes inv: "cache_inv me dev s {} {}" and dev: "log_dev (klog s) = dev"
    and hdr: "is_header n bl (blk s dev (log_head s))" and n: "0 \<le> n" "n \<le> int LOGSIZE"
    and l: "length (lhb s) = LOGSIZE" "nat n \<le> length bl"
  shows "\<exists>s' bl'. read_head me s = Inr s' \<and> cache_inv me dev s' {} {} \<and> blk s' dev = blk s dev \<and>
    disk s' = disk s \<and> disk_writes s' = disk_writes s \<and>
    klog s' = (klog s)\<lparr>log_lh := \<lparr>lh_n = n, lh_block = bl'\<rparr>\<rparr> \<and>
    length bl' = LOGSIZE \<and> take (nat n) bl' = take (nat n) bl"
proof -
  have "log_head s \<in> {} \<or> finite ({} :: uint32 set) \<and> card ({} :: nat set) + card ({} :: uint32 set) < NBUF"
    by (simp add: params)
  then obtain b s1 where 1: "bread me dev (log_head s) s = Inr (b, s1)" "cache_inv me dev s1 {} {b}"
      "block_of s1 b = log_head s" "blk s1 dev = blk s dev" "disk s1 = disk s" "disk_writes s1 = disk_writes s"
      "outside s1 = outside s"
    using bcache.rd_law [OF inv, of "log_head s"] by auto
  have k: "klog s1 = klog s" using klog_outside [OF 1(7)] .
  have dt: "b_data (bufs s1 ! b) = blk s dev (log_head s)"
    using bcache.dat_law [OF 1(2), of b] 1(3,4) by simp
  let ?d = "blk s dev (log_head s)"
  have g0: "sint (get32 0 ?d) = n" using hdr n sint_count by (simp add: is_header_def)
  have i: "i < LOGSIZE" if "i \<in> set [0..<nat n]" for i using that n by auto
  obtain bl' where bl': "read_head_loop [0..<nat n] ?d (lhb s) = Inr bl'" "length bl' = LOGSIZE"
      "\<forall>j < LOGSIZE. bl' ! j = (if j \<in> set [0..<nat n] then get32 (4 + 4 * j) ?d else lhb s ! j)"
    using read_head_loop_spec [of "[0..<nat n]" "lhb s" ?d, OF i l(1)] by blast
  have nl: "nat n \<le> LOGSIZE" using n by simp
  have tk: "take (nat n) bl' = take (nat n) bl"
    by (rule nth_equalityI) (use bl'(2,3) l(2) nl hdr in \<open>auto simp: is_header_def\<close>)
  let ?s2 = "upd_lh (\<lambda>h. h\<lparr>lh_block := bl'\<rparr>) (upd_lh (\<lambda>h. h\<lparr>lh_n := n\<rparr>) s1)"
  have i2: "cache_inv me dev ?s2 {} {b}" using 1(2) by simp
  have cl: "blk ?s2 dev (block_of ?s2 b) = disk ?s2 (block_of ?s2 b)"
    using bcache.view_law [OF inv, of "log_head s"] 1(3-5) by simp
  obtain s3 where 3: "brelse me b ?s2 = Inr s3" "cache_inv me dev s3 {} {}" "blk s3 dev = blk s dev"
      "disk s3 = disk s" "disk_writes s3 = disk_writes s" "outside s3 = outside ?s2"
    using bcache.rel_law [OF i2, of b] cl 1(4-6) by auto
  have "klog s3 = (klog s)\<lparr>log_lh := \<lparr>lh_n = n, lh_block = bl'\<rparr>\<rparr>"
    using klog_outside [OF 3(6)] k by simp
  moreover have "read_head me s = Inr s3"
    using 1(1) 3(1) bl'(1) k dt g0 dev by (simp add: read_head_def Let_def)
  ultimately show ?thesis using 3 bl'(2) tk by blast
qed

end
