(* ===== verification/LogAtomic.thy ===== *)
theory LogAtomic
  imports LogCrash "HOL-Library.Sublist"
begin

text \<open>
  Crash atomicity of the log (\<open>kernel/log.c\<close>).  A transaction is the list of blocks in the header and
  their pinned buffers; a crash at any point of \<open>commit\<close> leaves the disk as a prefix of its writes
  makes it, and so does a crash of the recovery after the reboot.  The disks that can be found then
  are described by \<open>holds\<close> (an empty log) and \<open>committed\<close> (a full log, with the home blocks in any
  state), and recovery takes each of them to the transaction as a whole or to nothing of it.
\<close>

section \<open>The blocks of the log\<close>

definition log_region :: "int \<Rightarrow> uint32 set" where
  "log_region st = (\<lambda>k. word_of_int (st + int k)) ` {..<LOGSIZE}"

definition log_fits :: "int \<Rightarrow> bool" where
  "log_fits st \<longleftrightarrow> 0 \<le> st \<and> st + int LOGSIZE < 2 ^ 31"

lemma log_inj:
  assumes "log_fits st" and "i \<le> LOGSIZE" and "j \<le> LOGSIZE"
  shows "(word_of_int (st + int i) :: uint32) = word_of_int (st + int j) \<longleftrightarrow> i = j"
proof
  assume "(word_of_int (st + int i) :: uint32) = word_of_int (st + int j)"
  then have "uint (word_of_int (st + int i) :: uint32) = uint (word_of_int (st + int j) :: uint32)" by simp
  moreover have "uint (word_of_int (st + int k) :: uint32) = st + int k" if "k \<le> LOGSIZE" for k
    by (subst uint_word_of_int) (use assms(1) that in \<open>simp add: log_fits_def\<close>)
  ultimately show "i = j" using assms(2,3) by simp
qed simp

abbreviation logblk :: "int \<Rightarrow> nat \<Rightarrow> uint32" where
  "logblk st t \<equiv> word_of_int (st + int t + 1)"

lemma logblk_Suc: "logblk st t = word_of_int (st + int (Suc t))"
  by (simp add: algebra_simps)

lemma logblk_region: "Suc t < LOGSIZE \<Longrightarrow> logblk st t \<in> log_region st"
  unfolding log_region_def logblk_Suc by (rule imageI) simp

lemma not_log_region:
  assumes "log_fits st" and "uint b < st \<or> st + int LOGSIZE \<le> uint b"
  shows "b \<notin> log_region st"
proof
  assume "b \<in> log_region st"
  then obtain k where k: "k < LOGSIZE" "b = word_of_int (st + int k)" by (auto simp: log_region_def)
  have "uint b = st + int k"
    unfolding k(2) by (subst uint_word_of_int) (use assms(1) k(1) in \<open>simp add: log_fits_def\<close>)
  then show False using assms(2) k(1) by simp
qed

lemma head_region: "word_of_int st \<in> log_region st"
  unfolding log_region_def by (rule image_eqI [of _ _ 0]) (simp_all add: params)

lemma logblk_head: "log_fits st \<Longrightarrow> t < LOGSIZE \<Longrightarrow> logblk st t \<noteq> word_of_int st"
  unfolding logblk_Suc using log_inj [of st "Suc t" 0] by simp

lemma logblk_inj: "log_fits st \<Longrightarrow> t < LOGSIZE \<Longrightarrow> u < LOGSIZE \<Longrightarrow> logblk st t = logblk st u \<longleftrightarrow> t = u"
  unfolding logblk_Suc using log_inj [of st "Suc t" "Suc u"] by simp

section \<open>Disks\<close>

text \<open>The log is empty and the blocks outside the log are those of \<open>v\<close>.\<close>

definition holds :: "int \<Rightarrow> (uint32 \<Rightarrow> bytes) \<Rightarrow> (uint32 \<Rightarrow> bytes) \<Rightarrow> bool" where
  "holds st v d \<longleftrightarrow> is_header 0 [] (d (word_of_int st)) \<and> (\<forall>b. b \<notin> log_region st \<longrightarrow> d b = v b)"

text \<open>The header lists the blocks \<open>bl\<close>, the log has their content in \<open>v\<close>, and the blocks that are not
  listed already are those of \<open>v\<close>.\<close>

definition committed :: "int \<Rightarrow> uint32 list \<Rightarrow> (uint32 \<Rightarrow> bytes) \<Rightarrow> (uint32 \<Rightarrow> bytes) \<Rightarrow> bool" where
  "committed st bl v d \<longleftrightarrow> is_header (int (length bl)) bl (d (word_of_int st)) \<and>
     length bl < LOGSIZE \<and> distinct bl \<and> set bl \<inter> log_region st = {} \<and>
     (\<forall>t < length bl. d (logblk st t) = v (bl ! t)) \<and>
     (\<forall>b. b \<notin> log_region st \<longrightarrow> b \<notin> set bl \<longrightarrow> d b = v b)"

lemma holds_log_writes:
  assumes "holds st v d" and "\<And>b x. (b, x) \<in> set ws \<Longrightarrow> b \<in> log_region st \<and> b \<noteq> word_of_int st"
  shows "holds st v (apply_writes ws d)"
proof -
  have "apply_writes ws d b = d b" if "b \<notin> log_region st \<or> b = word_of_int st" for b
    using that assms(2) by (intro apply_writes_other) force
  then show ?thesis using assms(1) by (simp add: holds_def)
qed

lemma committed_install:
  assumes "committed st bl v d" and "\<And>b x. (b, x) \<in> set ws \<Longrightarrow> b \<in> set bl \<and> x = v b"
  shows "committed st bl v (apply_writes ws d)"
proof -
  have bl: "set bl \<inter> log_region st = {}" using assms(1) by (simp add: committed_def)
  have "apply_writes ws d b = d b" if "b \<notin> set bl" for b
    using that assms(2) by (intro apply_writes_other) force
  moreover have "b \<notin> set bl" if "b \<in> log_region st" for b using that bl by auto
  ultimately show ?thesis
    using assms(1) head_region [of st] logblk_region [of _ st] by (simp add: committed_def)
qed

lemma committed_installed:
  assumes "committed st bl v d" and "is_header 0 [] h"
  shows "holds st v ((apply_writes (map (\<lambda>t. (bl ! t, v (bl ! t))) [0..<length bl]) d)(word_of_int st := h))"
proof -
  have "apply_writes (map (\<lambda>t. (bl ! t, v (bl ! t))) [0..<length bl]) d b = v b" if "b \<notin> log_region st" for b
  proof (cases "b \<in> set bl")
    case True
    then obtain t where "t < length bl" "b = bl ! t" by (auto simp: in_set_conv_nth)
    then show ?thesis by (intro trans [OF apply_writes_fun [of _ _ _ t]]) auto
  next
    case False
    then have "apply_writes (map (\<lambda>t. (bl ! t, v (bl ! t))) [0..<length bl]) d b = d b"
      by (intro apply_writes_other) force
    then show ?thesis using assms(1) False that by (simp add: committed_def)
  qed
  then show ?thesis using assms(2) head_region [of st] by (auto simp: holds_def)
qed

lemma is_header_zero: "is_header 0 bl d \<longleftrightarrow> is_header 0 [] d"
  by (simp add: is_header_def)

section \<open>Commit\<close>

text \<open>The log between transactions' writes and their commit: the listed blocks are pinned, the rest of
  the cache, apart from the locked buffers \<open>H\<close>, is clean, and the log on disk is empty.\<close>

definition log_ok :: "nat \<Rightarrow> 'a lstate_scheme \<Rightarrow> nat set \<Rightarrow> bool" where
  "log_ok me s H \<longleftrightarrow>
     (let dev = log_dev (klog s); st = log_start (klog s); bl = take (nat (lhn s)) (lhb s) in
      cache_inv me dev s (set bl) H \<and> 0 \<le> lhn s \<and> lhn s < int NBUF \<and> length (lhb s) = LOGSIZE \<and>
      distinct bl \<and> log_fits st \<and> set bl \<inter> log_region st = {} \<and>
      is_header 0 [] (disk s (word_of_int st)))"

lemma log_okD:
  assumes "log_ok me s H" and "dev = log_dev (klog s)" and "st = log_start (klog s)" and "n = nat (lhn s)"
    and "bl = take n (lhb s)"
  shows "cache_inv me dev s (set bl) H" and "n < LOGSIZE" and "lhn s = int n" and "length bl = n"
    and "length (lhb s) = LOGSIZE" and "distinct bl" and "log_fits st" and "set bl \<inter> log_region st = {}"
    and "is_header 0 [] (disk s (word_of_int st))" and "card (set bl) < NBUF" and "n < NBUF"
    and "0 \<le> lhn s" and "lhn s < int NBUF"
proof -
  have a: "cache_inv me dev s (set bl) H" "0 \<le> lhn s" "lhn s < int NBUF" "length (lhb s) = LOGSIZE"
      "distinct bl" "log_fits st" "set bl \<inter> log_region st = {}" "is_header 0 [] (disk s (word_of_int st))"
    using assms by (auto simp: log_ok_def Let_def)
  then show "cache_inv me dev s (set bl) H" "length (lhb s) = LOGSIZE" "distinct bl" "log_fits st"
    "set bl \<inter> log_region st = {}" "is_header 0 [] (disk s (word_of_int st))" "0 \<le> lhn s" "lhn s < int NBUF" by blast+
  show n: "n < NBUF" "lhn s = int n" using a assms(4) by simp_all
  then show le: "n < LOGSIZE" by (simp add: params)
  then show l: "length bl = n" using a assms(5) by simp
  show "card (set bl) < NBUF" using n l card_length [of bl] by simp
qed

lemma holds_before: "log_ok me s H \<Longrightarrow> holds (log_start (klog s)) (disk s) (disk s)"
  by (simp add: log_ok_def holds_def Let_def)

lemma is_header_take: "0 \<le> n \<Longrightarrow> is_header n bl d \<longleftrightarrow> is_header n (take (nat n) bl) d"
  by (simp add: is_header_def)

lemma log_blockno_logblk: "log_blockno s t = logblk (log_start (klog s)) t"
  by (simp add: log_blockno_def)

lemma map_nth_upt_take: "n \<le> length xs \<Longrightarrow> map ((!) xs) [0..<n] = take n xs"
  by (rule nth_equalityI) simp_all

lemma blk_clean_eq: "cache_inv me dev s {} {} \<Longrightarrow> blk s dev = disk s"
  using bcache.view_law by (intro ext) blast

text \<open>What \<open>commit\<close> writes to the disk, in order.\<close>

definition commit_writes ::
  "int \<Rightarrow> uint32 list \<Rightarrow> (uint32 \<Rightarrow> bytes) \<Rightarrow> bytes \<Rightarrow> bytes \<Rightarrow> (uint32 \<times> bytes) list" where
  "commit_writes st bl v h h' =
     map (\<lambda>t. (logblk st t, v (bl ! t))) [0..<length bl] @ [(word_of_int st, h)] @
     map (\<lambda>t. (bl ! t, v (bl ! t))) [0..<length bl] @ [(word_of_int st, h')]"

lemma commit_spec:
  assumes ok: "log_ok me s {}" and pos: "0 < lhn s"
  defines "dev \<equiv> log_dev (klog s)" and "st \<equiv> log_start (klog s)" and "n \<equiv> nat (lhn s)"
  defines "bl \<equiv> take n (lhb s)"
  shows "\<exists>s' h h'. commit me s = Inr s' \<and> is_header (int n) bl h \<and> is_header 0 [] h' \<and>
    disk_writes s' = disk_writes s @ commit_writes st bl (blk s dev) h h' \<and>
    disk s' = apply_writes (commit_writes st bl (blk s dev) h h') (disk s) \<and>
    cache_inv me dev s' {} {} \<and> klog s' = (klog s)\<lparr>log_lh := (log_lh (klog s))\<lparr>lh_n := 0\<rparr>\<rparr>"
proof -
  note d = log_okD [OF ok dev_def [THEN meta_eq_to_obj_eq] st_def [THEN meta_eq_to_obj_eq]
      n_def [THEN meta_eq_to_obj_eq] bl_def [THEN meta_eq_to_obj_eq]]
  let ?v = "blk s dev" and ?P = "set bl"
  have nth: "lhb s ! t = bl ! t" "bl ! t \<in> ?P" "bl ! t \<notin> log_region st" if "t < n" for t
  proof -
    show "lhb s ! t = bl ! t" using that by (simp add: bl_def)
    show "bl ! t \<in> ?P" using that d(4) nth_mem [of t bl] by simp
    then show "bl ! t \<notin> log_region st" using d(8) by blast
  qed
  have sl: "log_blockno s t = logblk st t" for t by (simp add: log_blockno_def st_def)
  have reg: "logblk st t \<in> log_region st" "logblk st t \<notin> ?P" if "Suc t < LOGSIZE" for t
    using logblk_region [OF that, of st] d(8) by auto
  let ?W1 = "map (\<lambda>t. (logblk st t, ?v (bl ! t))) [0..<n]"
  have m1: "map (\<lambda>t. (log_blockno s t, ?v (lhb s ! t))) [0..<n] = ?W1" using nth sl by simp
  obtain s1 where s1: "write_log_loop me [0..<n] s = Inr s1" "cache_inv me dev s1 ?P {}" "outside s1 = outside s"
      "blk s1 dev = apply_writes ?W1 ?v" "disk s1 = apply_writes ?W1 (disk s)"
      "disk_writes s1 = disk_writes s @ ?W1"
    using write_log_loop_spec [OF d(1) _ _ d(10), of "[0..<n]"] nth reg sl d(2) unfolding m1
    by (auto simp: dev_def)
  have k1: "klog s1 = klog s" using klog_outside [OF s1(3)] .
  have hd: "word_of_int st \<notin> ?P" using head_region [of st] d(8) by auto
  obtain s2 h where s2: "write_head me s1 = Inr s2" "cache_inv me dev s2 ?P {}" "outside s2 = outside s1"
      "is_header (lhn s) (lhb s) h" "blk s2 dev = (blk s1 dev)(word_of_int st := h)"
      "disk s2 = (disk s1)(word_of_int st := h)" "disk_writes s2 = disk_writes s1 @ [(word_of_int st, h)]"
    using write_head_spec [OF s1(2) _ _ d(10)] hd d(2,3) k1 by (auto simp: dev_def st_def)
  have k2: "klog s2 = klog s" using klog_outside [OF s2(3)] k1 by simp
  have v2: "blk s2 dev (logblk st t) = ?v (bl ! t)" if "t < n" for t
  proof -
    have "logblk st t \<noteq> word_of_int st" using logblk_head [OF d(7)] that d(2) by simp
    moreover have "apply_writes ?W1 ?v (logblk st t) = ?v (bl ! t)"
      using that d(2) logblk_inj [OF d(7)] by (intro apply_writes_fun) auto
    ultimately show ?thesis using s2(5) s1(4) by simp
  qed
  let ?W3 = "map (\<lambda>t. (bl ! t, ?v (bl ! t))) [0..<n]"
  have m3: "map (\<lambda>t. (lhb s2 ! t, blk s2 dev (log_blockno s2 t))) [0..<n] = ?W3"
    using nth v2 sl log_blockno_klog [OF k2] k2 by simp
  have "map ((!) (lhb s2)) [0..<n] = bl" using k2 d(2,5) by (simp add: bl_def map_nth_upt_take)
  then have di: "distinct (map ((!) (lhb s2)) [0..<n])" using d(6) by simp
  have im: "?P - (!) (lhb s2) ` set [0..<n] = {}" using nth k2 d(4) by (auto simp: in_set_conv_nth)
  have ne: "log_blockno s2 t \<noteq> bl ! u \<and> log_blockno s2 t \<notin> ?P" if "t < n" "u < n" for t u
    using reg [of t] nth(3) [OF that(2)] that(1) d(2) sl log_blockno_klog [OF k2] by auto
  have inst: "\<exists>s3. install_trans_loop me False [0..<n] s2 = Inr s3 \<and> cache_inv me dev s3 {} {} \<and>
      outside s3 = outside s2 \<and> blk s3 dev = apply_writes ?W3 (blk s2 dev) \<and>
      disk s3 = apply_writes ?W3 (disk s2) \<and> disk_writes s3 = disk_writes s2 @ ?W3"
    unfolding m3 [symmetric] im [symmetric]
    by (rule install_trans_loop_spec [OF s2(2) _ _ d(10) _ di])
      (use nth ne d(2) k2 in \<open>auto simp: dev_def\<close>)
  obtain s3 where s3: "install_trans_loop me False [0..<n] s2 = Inr s3" "cache_inv me dev s3 {} {}"
      "outside s3 = outside s2" "disk s3 = apply_writes ?W3 (disk s2)" "disk_writes s3 = disk_writes s2 @ ?W3"
    using inst by blast
  have k3: "klog s3 = klog s" using klog_outside [OF s3(3)] k2 by simp
  let ?s3 = "upd_lh (\<lambda>h. h\<lparr>lh_n := 0\<rparr>) s3"
  obtain s4 h' where s4: "write_head me ?s3 = Inr s4" "cache_inv me dev s4 {} {}" "outside s4 = outside ?s3"
      "is_header 0 (lhb ?s3) h'" "disk s4 = (disk s3)(word_of_int st := h')"
      "disk_writes s4 = disk_writes s3 @ [(word_of_int st, h')]"
    using write_head_spec [of me dev ?s3 "{}"] s3(2) k3 by (auto simp: dev_def st_def params)
  have "commit me s = Inr s4"
    using pos s1(1) s2(1) s3(1) s4(1) k2 by (simp add: commit_def write_log_def install_trans_def n_def)
  moreover have "is_header (int n) bl h"
    using s2(4) is_header_take [of "int n" "lhb s" h] unfolding d(3) bl_def by simp
  moreover have "is_header 0 [] h'" using s4(4) is_header_zero by blast
  moreover have "klog s4 = (klog s)\<lparr>log_lh := (log_lh (klog s))\<lparr>lh_n := 0\<rparr>\<rparr>"
    using klog_outside [OF s4(3)] k3 by simp
  moreover have "disk_writes s4 = disk_writes s @ commit_writes st bl ?v h h'"
    using s4(6) s3(5) s2(7) s1(6) d(4) by (simp add: commit_writes_def)
  moreover have "disk s4 = apply_writes (commit_writes st bl ?v h h') (disk s)"
    using s4(5) s3(4) s2(6) s1(5) d(4) by (simp add: commit_writes_def)
  ultimately show ?thesis using s4(2) by blast
qed

lemma holds_committed: "holds st v d \<longleftrightarrow> committed st [] v d"
  by (simp add: holds_def params committed_def)

text \<open>The disk once the header is written: everything is in the log.\<close>

lemma commit_logged:
  assumes ok: "log_ok me s {}" and h: "is_header (int (length bl)) bl h"
    and st: "dev = log_dev (klog s)" "st = log_start (klog s)" "bl = take (nat (lhn s)) (lhb s)"
  defines "W1 \<equiv> map (\<lambda>t. (logblk st t, blk s dev (bl ! t))) [0..<length bl]"
  shows "committed st bl (blk s dev) ((apply_writes W1 (disk s))(word_of_int st := h))"
    and "(b, x) \<in> set W1 \<Longrightarrow> b \<in> log_region st \<and> b \<noteq> word_of_int st"
proof -
  note d = log_okD [OF ok st(1,2) refl st(3)]
  let ?v = "blk s dev"
  have len: "length bl < LOGSIZE" using d(2,4) by simp
  have clean: "?v b = disk s b" if "b \<notin> set bl" for b
    using bcache.view_law [OF d(1) that] by blast
  have log: "b \<in> log_region st \<and> b \<noteq> word_of_int st" if "(b, x) \<in> set W1" for b x
    using that len logblk_region logblk_head [OF d(7)] by (auto simp: W1_def)
  then show "(b, x) \<in> set W1 \<Longrightarrow> b \<in> log_region st \<and> b \<noteq> word_of_int st" .
  have "apply_writes W1 (disk s) (logblk st t) = ?v (bl ! t)" if "t < length bl" for t
    unfolding W1_def using that len logblk_inj [OF d(7)] by (intro apply_writes_fun) auto
  moreover have "logblk st t \<noteq> word_of_int st" if "t < length bl" for t
    using logblk_head [OF d(7)] that len by simp
  moreover have "apply_writes W1 (disk s) b = ?v b" if "b \<notin> log_region st" "b \<notin> set bl" for b
    using that log clean by (subst apply_writes_other) force+
  moreover have "word_of_int st \<in> log_region st" by (rule head_region)
  ultimately show "committed st bl ?v ((apply_writes W1 (disk s))(word_of_int st := h))"
    using h len d(6,8) by (auto simp: committed_def)
qed

lemma commit_done:
  assumes "log_ok me s {}" and "is_header (int (length bl)) bl h" and "is_header 0 [] h'"
    and "dev = log_dev (klog s)" "st = log_start (klog s)" "bl = take (nat (lhn s)) (lhb s)"
  shows "holds st (blk s dev) (apply_writes (commit_writes st bl (blk s dev) h h') (disk s))"
  using committed_installed [OF commit_logged(1) [OF assms(1,2,4,5,6)] assms(3)]
  by (simp add: commit_writes_def)

lemma commit_crash:
  assumes ok: "log_ok me s {}" and pre: "prefix ws (commit_writes st bl (blk s dev) h h')"
    and h: "is_header (int (length bl)) bl h" "is_header 0 [] h'"
    and st: "dev = log_dev (klog s)" "st = log_start (klog s)" "bl = take (nat (lhn s)) (lhb s)"
  shows "holds st (disk s) (apply_writes ws (disk s)) \<or> (\<exists>bl. committed st bl (blk s dev) (apply_writes ws (disk s)))"
proof -
  let ?v = "blk s dev"
  let ?W1 = "map (\<lambda>t. (logblk st t, ?v (bl ! t))) [0..<length bl]"
  let ?W3 = "map (\<lambda>t. (bl ! t, ?v (bl ! t))) [0..<length bl]"
  note full = commit_logged [OF ok h(1) st]
  have old: "holds st (disk s) (disk s)" using holds_before [OF ok] st(2) by simp
  have home: "b \<in> set bl \<and> x = ?v b" if "(b, x) \<in> set ?W3" for b x using that by auto
  consider "prefix ws ?W1" | us where "ws = ?W1 @ (word_of_int st, h) # us" "prefix us ?W3"
    | "ws = commit_writes st bl ?v h h'"
    using pre unfolding commit_writes_def
    by (auto simp: prefix_append prefix_Cons)
  then show ?thesis
  proof cases
    case 1
    then have "set ws \<subseteq> set ?W1" by (rule set_mono_prefix)
    then show ?thesis using holds_log_writes [OF old, of ws] full(2) by blast
  next
    case (2 us)
    have "set us \<subseteq> set ?W3" using set_mono_prefix [OF 2(2)] .
    then have "committed st bl ?v (apply_writes us ((apply_writes ?W1 (disk s))(word_of_int st := h)))"
      using committed_install [OF full(1)] home by blast
    then show ?thesis using 2(1) by auto
  next
    case 3
    then show ?thesis using commit_done [OF ok h st] holds_committed by auto
  qed
qed

section \<open>Recovery\<close>

text \<open>A kernel that has just booted from the disk \<open>d\<close>: the cache is empty or clean.\<close>

definition booted :: "nat \<Rightarrow> uint32 \<Rightarrow> (uint32 \<Rightarrow> bytes) \<Rightarrow> 'a lstate_scheme \<Rightarrow> bool" where
  "booted me dev d r \<longleftrightarrow> cache_inv me dev r {} {} \<and> disk r = d \<and> length (lhb r) = LOGSIZE"

lemma recover_spec:
  assumes boot: "booted me dev d r" and c: "committed st bl v d" and st: "sint (sb_logstart sb) = st" "log_fits st"
  shows "\<exists>r' h. initlog me dev sb r = Inr r' \<and> is_header 0 [] h \<and> cache_inv me dev r' {} {} \<and>
    disk_writes r' = disk_writes r @ map (\<lambda>t. (bl ! t, v (bl ! t))) [0..<length bl] @ [(word_of_int st, h)] \<and>
    disk r' = (apply_writes (map (\<lambda>t. (bl ! t, v (bl ! t))) [0..<length bl]) d)(word_of_int st := h) \<and>
    log_start (klog r') = st \<and> log_dev (klog r') = dev \<and> lhn r' = 0 \<and> length (lhb r') = LOGSIZE"
proof -
  let ?n = "length bl" and ?W = "map (\<lambda>t. (bl ! t, v (bl ! t))) [0..<length bl]"
  define r0 where "r0 = upd_log (\<lambda>l. l\<lparr>log_start := st, log_size := sint (sb_nlog sb), log_dev := dev\<rparr>) r"
  have k0: "log_start (klog r0) = st" "log_dev (klog r0) = dev" "length (lhb r0) = LOGSIZE"
    using boot by (simp_all add: r0_def upd_log_def booted_def)
  have i0: "cache_inv me dev r0 {} {}" "disk r0 = d" "disk_writes r0 = disk_writes r"
    using boot by (simp_all add: r0_def booted_def)
  have b0: "blk r0 dev = d" using blk_clean_eq [OF i0(1)] i0(2) by simp
  note cd = c [unfolded committed_def]
  have hdr: "is_header (int ?n) bl (blk r0 dev (log_head r0))" using cd b0 k0 by simp
  obtain r1 bl' where r1: "read_head me r0 = Inr r1" "cache_inv me dev r1 {} {}" "blk r1 dev = blk r0 dev"
      "disk r1 = disk r0" "disk_writes r1 = disk_writes r0"
      "klog r1 = (klog r0)\<lparr>log_lh := \<lparr>lh_n = int ?n, lh_block = bl'\<rparr>\<rparr>"
      "length bl' = LOGSIZE" "take ?n bl' = bl"
    using read_head_spec [OF i0(1) k0(2) hdr _ _ k0(3)] cd by auto
  have nth: "lhb r1 ! t = bl ! t" if "t < ?n" for t
    using r1(6) that arg_cong [OF r1(8), of "\<lambda>xs. xs ! t"] by simp
  have sl: "log_blockno r1 t = logblk st t" for t using r1(6) k0 by (simp add: log_blockno_def)
  have m: "map (\<lambda>t. (lhb r1 ! t, blk r1 dev (log_blockno r1 t))) [0..<?n] = ?W"
    using nth sl r1(3) b0 cd by simp
  have "map ((!) (lhb r1)) [0..<?n] = bl" using r1(6-8) cd by (simp add: map_nth_upt_take)
  then have di: "distinct (map ((!) (lhb r1)) [0..<?n])" using cd by simp
  have ne: "logblk st t \<noteq> bl ! u" if "t < ?n" "u < ?n" for t u
    using logblk_region [of t st] nth_mem [OF that(2)] that(1) cd by auto
  have "\<exists>r2. install_trans_loop me True [0..<?n] r1 = Inr r2 \<and>
      cache_inv me dev r2 ({} - (!) (lhb r1) ` set [0..<?n]) {} \<and>
      outside r2 = outside r1 \<and> blk r2 dev = apply_writes ?W (blk r1 dev) \<and>
      disk r2 = apply_writes ?W (disk r1) \<and> disk_writes r2 = disk_writes r1 @ ?W"
    unfolding m [symmetric]
    by (rule install_trans_loop_spec [where rec = True, OF r1(2) _ _ _ _ di])
      (use nth ne sl r1(6) k0 cd in \<open>auto simp: params\<close>)
  then obtain r2 where r2: "install_trans_loop me True [0..<?n] r1 = Inr r2" "cache_inv me dev r2 {} {}"
      "outside r2 = outside r1" "disk r2 = apply_writes ?W d" "disk_writes r2 = disk_writes r @ ?W"
    using r1(4,5) i0 by auto
  have k2: "klog r2 = klog r1" using klog_outside [OF r2(3)] .
  let ?r2 = "upd_lh (\<lambda>h. h\<lparr>lh_n := 0\<rparr>) r2"
  obtain r3 h where r3: "write_head me ?r2 = Inr r3" "cache_inv me dev r3 {} {}" "outside r3 = outside ?r2"
      "is_header 0 (lhb ?r2) h" "disk r3 = (disk r2)(word_of_int st := h)"
      "disk_writes r3 = disk_writes r2 @ [(word_of_int st, h)]"
    using write_head_spec [of me dev ?r2 "{}"] r2(2) k2 r1(6) k0 by (auto simp: params)
  have k3: "klog r3 = klog ?r2" using klog_outside [OF r3(3)] .
  have "initlog me dev sb r = Inr r3"
    using r1(1) r2(1) r3(1) r1(6) st(1)
    by (simp add: initlog_def recover_from_log_def install_trans_def r0_def params)
  then show ?thesis
    using r3 r2 k3 k2 r1(6,7) k0 is_header_zero by auto
qed

lemma recover_crash:
  assumes "booted me dev d r" and "committed st bl v d" and "sint (sb_logstart sb) = st" and "log_fits st"
    and "initlog me dev sb r = Inr r'" and "disk_writes r' = disk_writes r @ W" and "prefix ws W"
  shows "\<exists>bl'. committed st bl' v (apply_writes ws d)"
proof -
  let ?W = "map (\<lambda>t. (bl ! t, v (bl ! t))) [0..<length bl]"
  obtain h where h: "is_header 0 [] h" "W = ?W @ [(word_of_int st, h)]"
    using recover_spec [OF assms(1-4)] assms(5,6) by auto
  consider "prefix ws ?W" | "ws = ?W @ [(word_of_int st, h)]"
    using assms(7) h(2) by (auto simp: prefix_append prefix_Cons)
  then show ?thesis
  proof cases
    case 1
    then have "set ws \<subseteq> set ?W" by (rule set_mono_prefix)
    then have "b \<in> set bl \<and> x = v b" if "(b, x) \<in> set ws" for b x using that by auto
    then show ?thesis using committed_install [OF assms(2)] by blast
  next
    case 2
    then show ?thesis using committed_installed [OF assms(2) h(1)] holds_committed by auto
  qed
qed

text \<open>Any number of crashes during recovery: \<open>d'\<close> is what they can leave of the disk \<open>d\<close>.\<close>

inductive crashes :: "uint32 \<Rightarrow> superblock \<Rightarrow> (uint32 \<Rightarrow> bytes) \<Rightarrow> (uint32 \<Rightarrow> bytes) \<Rightarrow> bool" for dev sb d where
  once: "crashes dev sb d d"
| again: "crashes dev sb d d1 \<Longrightarrow> booted me dev d1 (r :: lstate) \<Longrightarrow> initlog me dev sb r = Inr r' \<Longrightarrow>
    disk_writes r' = disk_writes r @ W \<Longrightarrow> prefix ws W \<Longrightarrow> crashes dev sb d (apply_writes ws d1)"

lemma crashes_committed:
  assumes "crashes dev sb d d'" and "committed st bl v d" and "sint (sb_logstart sb) = st" and "log_fits st"
  shows "\<exists>bl'. committed st bl' v d'"
  using assms
proof (induction rule: crashes.induct)
  case once
  then show ?case by blast
next
  case (again d1 me r r' W ws)
  then show ?case using recover_crash by blast
qed

lemma recovered:
  assumes "booted me dev d r" and "committed st bl v d" and "sint (sb_logstart sb) = st" and "log_fits st"
  shows "\<exists>r'. initlog me dev sb r = Inr r' \<and> log_ok me r' {} \<and> lhn r' = 0 \<and> holds st v (disk r') \<and>
    blk r' dev = disk r'"
proof -
  obtain r' h where r: "initlog me dev sb r = Inr r'" "is_header 0 [] h" "cache_inv me dev r' {} {}"
    "disk r' = (apply_writes (map (\<lambda>t. (bl ! t, v (bl ! t))) [0..<length bl]) d)(word_of_int st := h)"
    "log_start (klog r') = st" "log_dev (klog r') = dev" "lhn r' = 0" "length (lhb r') = LOGSIZE"
    using recover_spec [OF assms] by blast
  have h: "holds st v (disk r')" using committed_installed [OF assms(2) r(2)] r(4) by simp
  then have "log_ok me r' {}" using r assms(4) by (simp add: log_ok_def Let_def params)
  then show ?thesis using r h blk_clean_eq by blast
qed

section \<open>Adding a block to the transaction\<close>

abbreviation logged :: "'a lstate_scheme \<Rightarrow> uint32 list" where
  "logged s \<equiv> take (nat (lhn s)) (lhb s)"

lemma log_slot_absorbed:
  "bn \<in> set (logged s) \<Longrightarrow> log_slot s bn < length (logged s) \<and> lhb s ! log_slot s bn = bn"
  by (auto simp: log_slot_def first_index_None first_index_Some split: option.split)

lemma log_slot_new: "bn \<notin> set (logged s) \<Longrightarrow> log_slot s bn = nat (lhn s)"
  by (auto simp: log_slot_def first_index_Some split: option.split) (metis length_take min_less_iff_conj nth_mem nth_take)

lemma log_write_spec:
  assumes ok: "log_ok me s H" and b: "b \<in> H" and bn: "bn = block_of s b"
    and reg: "bn \<notin> log_region (log_start (klog s))" and room: "lhn s + 1 < int NBUF"
    and guard: "lhn s < log_size (klog s) - 1" "1 \<le> log_outstanding (klog s)"
  shows "\<exists>s'. log_write b s = Inr s' \<and> log_ok me s' H \<and> block_of s' = block_of s \<and>
    logged s' = (if bn \<in> set (logged s) then logged s else logged s @ [bn]) \<and>
    blk s' (log_dev (klog s)) = blk s (log_dev (klog s)) \<and> disk s' = disk s \<and> disk_writes s' = disk_writes s \<and>
    log_dev (klog s') = log_dev (klog s) \<and> log_start (klog s') = log_start (klog s)"
proof -
  note d = log_okD [OF ok refl refl refl refl]
  let ?dev = "log_dev (klog s)" and ?n = "nat (lhn s)"
  have n: "?n < LOGSIZE" "lhn s < int LOGSIZE" using room d(3) by (auto simp: params)
  have g: "\<not> (int LOGSIZE \<le> lhn s \<or> log_size (klog s) - 1 \<le> lhn s)" "\<not> log_outstanding (klog s) < 1"
    using n guard by auto
  show ?thesis
  proof (cases "bn \<in> set (logged s)")
    case True
    note sl = log_slot_absorbed [OF True]
    have "log_slot s bn < ?n" using sl d(4) by simp
    then have ne: "int (log_slot s bn) \<noteq> lhn s" using d(3) by linarith
    have same: "(lhb s)[log_slot s bn := bn] = lhb s" using sl by (metis list_update_id)
    have "log_write b s = Inr (upd_lh (\<lambda>h. h\<lparr>lh_block := (lh_block h)[log_slot s bn := bn]\<rparr>) s)"
      using g ne bn by (simp add: log_write_def Let_def block_of_def)
    moreover have "log_ok me (upd_lh (\<lambda>h. h\<lparr>lh_block := (lh_block h)[log_slot s bn := bn]\<rparr>) s) H"
      using ok same by (simp add: log_ok_def Let_def)
    ultimately show ?thesis using True same by simp
  next
    case False
    have sl: "log_slot s bn = ?n" using log_slot_new [OF False] .
    let ?s1 = "upd_lh (\<lambda>h. h\<lparr>lh_block := (lh_block h)[?n := bn]\<rparr>) s"
    let ?s2 = "bpin b ?s1" and ?s' = "upd_lh (\<lambda>h. h\<lparr>lh_n := lh_n h + 1\<rparr>) (bpin b ?s1)"
    have w: "log_write b s = Inr ?s'"
      using g sl d(3) bn by (simp add: log_write_def Let_def block_of_def)
    have i1: "cache_inv me ?dev ?s1 (set (logged s)) H" using d(1) by simp
    have nb: "block_of ?s1 b = bn" using bn by simp
    have i2: "cache_inv me ?dev ?s2 (insert bn (set (logged s))) H" "block_of ?s2 = block_of s"
        "blk ?s2 ?dev = blk s ?dev" "disk ?s2 = disk s" "disk_writes ?s2 = disk_writes s" "outside ?s2 = outside ?s1"
      using bcache.pin_law [OF i1 b] nb False by simp_all
    have k: "klog ?s2 = klog ?s1" using klog_outside [OF i2(6)] .
    have n1: "nat (lhn s + 1) = Suc ?n" using d(12) by simp
    have lg: "logged ?s' = logged s @ [bn]"
      using k n d(5) n1 by (simp add: take_Suc_conv_app_nth)
    have "log_ok me ?s' H"
      unfolding log_ok_def Let_def lg using i2(1,4) k d False reg room by simp
    then show ?thesis using w lg i2 k False by simp
  qed
qed

lemma log_update_spec:
  assumes ok: "log_ok me s {}" and dev: "dev = log_dev (klog s)"
    and reg: "bn \<notin> log_region (log_start (klog s))" and len: "length d = BSIZE"
    and room: "lhn s + 1 < int NBUF" "lhn s < log_size (klog s) - 1" "1 \<le> log_outstanding (klog s)"
  shows "\<exists>b s1 s2 s3. bread me dev bn s = Inr (b, s1) \<and> b_data (bufs s1 ! b) = blk s dev bn \<and>
    log_write b (set_data b d s1) = Inr s2 \<and> brelse me b s2 = Inr s3 \<and> log_ok me s3 {} \<and>
    blk s3 dev = (blk s dev)(bn := d) \<and> disk s3 = disk s \<and> disk_writes s3 = disk_writes s \<and>
    logged s3 = (if bn \<in> set (logged s) then logged s else logged s @ [bn]) \<and>
    log_dev (klog s3) = log_dev (klog s) \<and> log_start (klog s3) = log_start (klog s)"
proof -
  note k = log_okD [OF ok dev refl refl refl]
  obtain b s1 where s1: "bread me dev bn s = Inr (b, s1)" "cache_inv me dev s1 (set (logged s)) {b}"
      "block_of s1 b = bn" "blk s1 dev = blk s dev" "disk s1 = disk s" "disk_writes s1 = disk_writes s"
      "outside s1 = outside s"
    using bcache.rd_law [OF k(1), of bn] k(10) by auto
  have k1: "klog s1 = klog s" using klog_outside [OF s1(7)] .
  let ?s1 = "set_data b d s1"
  have a: "cache_inv me dev ?s1 (set (logged s)) {b}" "block_of ?s1 b = bn" "blk ?s1 dev = (blk s dev)(bn := d)"
      "disk ?s1 = disk s" "disk_writes ?s1 = disk_writes s" "outside ?s1 = outside s"
    using bcache.assign_law [OF s1(2), of b d] len s1 by auto
  have ka: "klog ?s1 = klog s" using klog_outside [OF a(6)] .
  have ok1: "log_ok me ?s1 {b}" unfolding log_ok_def ka Let_def using a(1,4) k(5-9,12,13) dev by simp
  obtain s2 where s2: "log_write b ?s1 = Inr s2" "log_ok me s2 {b}" "block_of s2 = block_of ?s1"
      "logged s2 = (if bn \<in> set (logged s) then logged s else logged s @ [bn])"
      "blk s2 dev = blk ?s1 dev" "disk s2 = disk s" "disk_writes s2 = disk_writes s"
      "log_dev (klog s2) = dev" "log_start (klog s2) = log_start (klog s)"
    using log_write_spec [OF ok1 _ a(2) [symmetric]] reg room dev ka a(4,5) by auto
  note k2 = log_okD [OF s2(2) s2(8) [symmetric] refl refl refl]
  have "bn \<in> set (logged s2)" using s2(4) by auto
  then obtain s3 where s3: "brelse me b s2 = Inr s3" "cache_inv me dev s3 (set (logged s2)) {}"
      "blk s3 dev = blk s2 dev" "disk s3 = disk s2" "disk_writes s3 = disk_writes s2" "outside s3 = outside s2"
    using bcache.rel_law [OF k2(1), of b] s2(3) a(2) by auto
  have k3: "klog s3 = klog s2" using klog_outside [OF s3(6)] .
  have "log_ok me s3 {}" unfolding log_ok_def k3 Let_def using s3(2,4) k2(5-9,12,13) s2(8) by simp
  moreover have "b_data (bufs s1 ! b) = blk s dev bn"
    using bcache.dat_law [OF s1(2), of b] s1(3,4) by simp
  moreover have "logged s3 = (if bn \<in> set (logged s) then logged s else logged s @ [bn])"
    unfolding k3 by (rule s2(4))
  ultimately show ?thesis using s1(1) s2(1,5-9) s3 a(3) k3 dev by auto
qed

section \<open>A booted machine with a zeroed disk\<close>

lemma bst_ext: "bufs s = bufs t \<Longrightarrow> disk s = disk t \<Longrightarrow> bst dev pid s P H = bst dev pid t P H"
  by (simp add: bst_def)

lemma blk_ext: "bufs s = bufs t \<Longrightarrow> disk s = disk t \<Longrightarrow> blk s dev bn = blk t dev bn"
  by (simp add: blk_def cached_def split: option.split)

definition zero_lstate :: lstate where
  "zero_lstate = \<lparr>pmem = (\<lambda>_. 0), freelist = 0, page_refcnt = (\<lambda>_. 0), kern_end = KERNBASE,
     procs = replicate NPROC zero_proc, nextpid = 1, initproc = None, ticks = 0,
     bufs = bufs (binit zero_bstate), disk = disk (binit zero_bstate), disk_writes = [],
     klog = \<lparr>log_start = 2, log_size = 30, log_outstanding = 1, log_committing = False, log_dev = ROOTDEV,
       log_lh = \<lparr>lh_n = 0, lh_block = replicate LOGSIZE 0\<rparr>\<rparr>\<rparr>"

definition zero_sb :: superblock where
  "zero_sb = \<lparr>sb_magic = 0x10203040, sb_size = 2000, sb_nblocks = 1954, sb_ninodes = 200, sb_nlog = 30,
     sb_logstart = 2, sb_inodestart = 32, sb_bmapstart = 45\<rparr>"

lemma zero_cache: "cache_inv 0 ROOTDEV zero_lstate {} {}"
  unfolding cache_inv_def using zero_bst [of ROOTDEV] bst_ext [of zero_lstate "binit zero_bstate"]
  by (simp add: zero_lstate_def params)

lemma zero_lstate_blk: "blk zero_lstate ROOTDEV bn = replicate BSIZE 0"
  using blk_ext [of zero_lstate "binit zero_bstate" ROOTDEV bn] zero_blk [of ROOTDEV bn]
  by (simp add: zero_lstate_def params)

lemma zero_disk: "disk zero_lstate = (\<lambda>_. replicate BSIZE 0)"
  using blk_clean_eq [OF zero_cache] zero_lstate_blk by auto

lemma get32_zeros: "k + 4 \<le> n \<Longrightarrow> get32 k (replicate n 0) = 0"
proof -
  assume "k + 4 \<le> n"
  then have "get_bytes k 4 (replicate n 0) = replicate 4 0" by (simp add: get_bytes_def)
  moreover have "bytes_word (replicate j 0) = (0 :: uint32)" for j by (induction j) simp_all
  ultimately show ?thesis unfolding get32_def by metis
qed

lemma zero_log_ok: "log_ok 0 zero_lstate {}"
proof -
  have "is_header 0 [] (replicate BSIZE 0)" by (simp add: is_header_def get32_zeros)
  then show ?thesis using zero_cache zero_disk
    by (simp add: log_ok_def Let_def log_fits_def params) (simp add: zero_lstate_def params)
qed

text \<open>A transaction that has filled block 32 with ones.\<close>

definition demo_txn :: lstate where
  "demo_txn =
     (case bread 0 ROOTDEV 32 zero_lstate of
        Inl _ \<Rightarrow> zero_lstate
      | Inr (b, s) \<Rightarrow>
          (case rbind (log_write b (set_data b (replicate BSIZE 1) s)) (brelse 0 b) of
             Inl _ \<Rightarrow> zero_lstate
           | Inr s \<Rightarrow> s))"

lemma demo_block: "32 \<notin> log_region (log_start (klog zero_lstate))"
  by (rule not_log_region) (simp_all add: log_fits_def zero_lstate_def params)

lemma demo_txn_facts:
  "log_ok 0 demo_txn {} \<and> blk demo_txn ROOTDEV 32 = replicate BSIZE 1 \<and> disk demo_txn = (\<lambda>_. replicate BSIZE 0) \<and>
   0 < lhn demo_txn \<and> log_dev (klog demo_txn) = ROOTDEV \<and> log_start (klog demo_txn) = 2"
proof -
  have z: "lhn zero_lstate = 0" "ROOTDEV = log_dev (klog zero_lstate)" "log_start (klog zero_lstate) = 2"
    "log_size (klog zero_lstate) = 30" "log_outstanding (klog zero_lstate) = 1"
    by (simp_all add: zero_lstate_def)
  obtain b s1 s2 s3 where u: "bread 0 ROOTDEV 32 zero_lstate = Inr (b, s1)"
      "log_write b (set_data b (replicate BSIZE 1) s1) = Inr s2" "brelse 0 b s2 = Inr s3" "log_ok 0 s3 {}"
      "blk s3 ROOTDEV = (blk zero_lstate ROOTDEV)(32 := replicate BSIZE 1)" "disk s3 = disk zero_lstate"
      "logged s3 = (if 32 \<in> set (logged zero_lstate) then logged zero_lstate else logged zero_lstate @ [32])"
      "log_dev (klog s3) = log_dev (klog zero_lstate)" "log_start (klog s3) = log_start (klog zero_lstate)"
    using log_update_spec [OF zero_log_ok z(2) demo_block, of "replicate BSIZE 1"] z by (auto simp: params)
  have e: "demo_txn = s3" unfolding demo_txn_def using u(1-3) by simp
  have "logged s3 = [32]" using u(7) z(1) by simp
  then have "nat (lhn s3) \<noteq> 0" by (intro notI) simp
  then have "0 < lhn s3" by simp
  then show ?thesis using u zero_disk z unfolding e by simp
qed

text \<open>C4: transactions are atomic under crashes.  \<open>commit\<close> returns, and the new content of every block of
the transaction is then on the disk, with the log empty.  If the machine stops after any number of
the disk writes of \<open>commit\<close>, and then any number of times during recovery, the recovery that
\<open>initlog\<close> does at the next boot returns with an empty, usable log, and the blocks outside the log
are either all as before the transaction or all as after it.\<close>

theorem log_crash_atomic:
  fixes s :: "'a lstate_scheme"
  assumes "log_ok me s {}" and "0 < lhn s" and "dev = log_dev (klog s)" and "st = log_start (klog s)"
    and "sint (sb_logstart sb) = st"
  shows "\<exists>s' W. commit me s = Inr s' \<and> disk_writes s' = disk_writes s @ W \<and> log_ok me s' {} \<and>
      holds st (blk s dev) (disk s') \<and>
      (\<forall>ws d me' r. prefix ws W \<longrightarrow> crashes dev sb (apply_writes ws (disk s)) d \<longrightarrow>
         booted me' dev d (r :: lstate) \<longrightarrow>
         (\<exists>r'. initlog me' dev sb r = Inr r' \<and> log_ok me' r' {} \<and> blk r' dev = disk r' \<and>
            (holds st (disk s) (disk r') \<or> holds st (blk s dev) (disk r'))))"
proof -
  let ?bl = "take (nat (lhn s)) (lhb s)"
  note d = log_okD [OF assms(1,3,4) refl refl]
  obtain s' h h' where s': "commit me s = Inr s'" "is_header (int (length ?bl)) ?bl h" "is_header 0 [] h'"
      "disk_writes s' = disk_writes s @ commit_writes st ?bl (blk s dev) h h'"
      "disk s' = apply_writes (commit_writes st ?bl (blk s dev) h h') (disk s)"
      "cache_inv me dev s' {} {}" "klog s' = (klog s)\<lparr>log_lh := (log_lh (klog s))\<lparr>lh_n := 0\<rparr>\<rparr>"
    using commit_spec [OF assms(1,2)] assms(3,4) d(4) by metis
  let ?W = "commit_writes st ?bl (blk s dev) h h'"
  have crash: "holds st (disk s) (apply_writes ws (disk s)) \<or> (\<exists>bl. committed st bl (blk s dev) (apply_writes ws (disk s)))"
    if "prefix ws ?W" for ws
    using commit_crash [OF assms(1) that s'(2,3) assms(3,4) refl] .
  have rec: "\<exists>r'. initlog me' dev sb r = Inr r' \<and> log_ok me' r' {} \<and> blk r' dev = disk r' \<and>
      (holds st (disk s) (disk r') \<or> holds st (blk s dev) (disk r'))"
    if pw: "prefix ws ?W" and c: "crashes dev sb (apply_writes ws (disk s)) d" and b: "booted me' dev d (r :: lstate)"
    for ws d me' r
  proof -
    obtain bl v where v: "committed st bl v (apply_writes ws (disk s))" "v = disk s \<or> v = blk s dev"
      using crash [OF pw] holds_committed by blast
    obtain bl' where "committed st bl' v d" using crashes_committed [OF c v(1) assms(5) d(7)] by blast
    from recovered [OF b this assms(5) d(7)] show ?thesis using v(2) by blast
  qed
  have "holds st (blk s dev) (disk s')"
    using commit_done [OF assms(1) s'(2,3) assms(3,4) refl] s'(5) by simp
  moreover have "log_ok me s' {}"
    using calculation s'(6,7) d(5,7) assms(3,4) by (simp add: log_ok_def Let_def holds_def params)
  ultimately show ?thesis using s'(1,4) rec by blast
qed

theorem log_crash_atomic_witness:
  "\<exists>s' r'. commit 0 demo_txn = Inr s' \<and> disk s' 32 = replicate BSIZE 1 \<and>
     initlog 0 ROOTDEV zero_sb zero_lstate = Inr r' \<and>
     (disk r' 32 = replicate BSIZE 0 \<or> disk r' 32 = replicate BSIZE 1)"
proof -
  note f = demo_txn_facts
  have r: "32 \<notin> log_region 2" using demo_block by (simp add: zero_lstate_def)
  have sb: "sint (sb_logstart zero_sb) = 2" by (simp add: zero_sb_def)
  have boot: "booted 0 ROOTDEV (disk demo_txn) zero_lstate"
    using zero_cache zero_disk f by (simp add: booted_def) (simp add: zero_lstate_def)
  have start: "crashes ROOTDEV zero_sb (apply_writes [] (disk demo_txn)) (disk demo_txn)"
    using crashes.once by simp
  from log_crash_atomic [of 0 demo_txn ROOTDEV 2 zero_sb] f sb
  obtain s' W where s': "commit 0 demo_txn = Inr s'" "holds 2 (blk demo_txn ROOTDEV) (disk s')"
    and rec: "\<forall>ws d me' r. prefix ws W \<longrightarrow> crashes ROOTDEV zero_sb (apply_writes ws (disk demo_txn)) d \<longrightarrow>
         booted me' ROOTDEV d (r :: lstate) \<longrightarrow>
         (\<exists>r'. initlog me' ROOTDEV zero_sb r = Inr r' \<and> log_ok me' r' {} \<and> blk r' ROOTDEV = disk r' \<and>
            (holds 2 (disk demo_txn) (disk r') \<or> holds 2 (blk demo_txn ROOTDEV) (disk r')))" by auto
  obtain r' where r': "initlog 0 ROOTDEV zero_sb zero_lstate = Inr r'"
      "holds 2 (disk demo_txn) (disk r') \<or> holds 2 (blk demo_txn ROOTDEV) (disk r')"
    using rec start boot Nil_prefix by blast
  have "disk s' 32 = replicate BSIZE 1" using s'(2) r f by (simp add: holds_def)
  moreover have "disk r' 32 = replicate BSIZE 0 \<or> disk r' 32 = replicate BSIZE 1"
    using r'(2) r f by (auto simp: holds_def)
  ultimately show ?thesis using s'(1) r'(1) by blast
qed

text \<open>C5: the way every file-system update goes through the log: read a block, assign its buffer,
\<open>log_write\<close> it and release it.  The block has the new content from then on, for every later reader;
the disk is not touched; the block is listed in the header exactly once, whether this is its first
or a later update in the transaction (absorption); and the invariant of the log is kept.\<close>

theorem log_update:
  assumes "log_ok me s {}" and "dev = log_dev (klog s)"
    and "bn \<notin> log_region (log_start (klog s))" and "length d = BSIZE"
    and "lhn s + 1 < int NBUF" and "lhn s < log_size (klog s) - 1" and "1 \<le> log_outstanding (klog s)"
  shows "\<exists>b s1 s2 s3. bread me dev bn s = Inr (b, s1) \<and> b_data (bufs s1 ! b) = blk s dev bn \<and>
    log_write b (set_data b d s1) = Inr s2 \<and> brelse me b s2 = Inr s3 \<and> log_ok me s3 {} \<and>
    blk s3 dev = (blk s dev)(bn := d) \<and> disk s3 = disk s \<and> disk_writes s3 = disk_writes s \<and>
    logged s3 = (if bn \<in> set (logged s) then logged s else logged s @ [bn])"
  using log_update_spec [OF assms] by blast

theorem log_update_witness:
  "\<exists>b s1 s2 s3. bread 0 ROOTDEV 32 zero_lstate = Inr (b, s1) \<and> b_data (bufs s1 ! b) = replicate BSIZE 0 \<and>
    log_write b (set_data b (replicate BSIZE 1) s1) = Inr s2 \<and> brelse 0 b s2 = Inr s3 \<and>
    blk s3 ROOTDEV 32 = replicate BSIZE 1 \<and> logged s3 = [32]"
proof -
  have "lhn zero_lstate = 0" "ROOTDEV = log_dev (klog zero_lstate)"
    "log_size (klog zero_lstate) = 30" "log_outstanding (klog zero_lstate) = 1"
    by (simp_all add: zero_lstate_def)
  then show ?thesis
    using log_update [OF zero_log_ok _ demo_block, of ROOTDEV "replicate BSIZE 1"] zero_lstate_blk
    by (fastforce simp: params)
qed

end
