(* ===== verification/FsBlocks.thy ===== *)
theory FsBlocks
  imports Fs LogAtomic
begin

text \<open>
  Blocks as the file system sees them (\<open>kernel/fs.c\<close> over \<open>kernel/log.c\<close> and \<open>kernel/bio.c\<close>): inside a
  transaction, reading, assigning and releasing blocks is reading and assigning a function from block
  numbers to contents.  The allocator of blocks works on the bitmap in that function.
\<close>

section \<open>A transaction with room for more blocks\<close>

text \<open>\<open>H\<close> are the buffers that the process has locked, \<open>k\<close> the number of blocks it may still log.\<close>

definition txn :: "nat \<Rightarrow> uint32 \<Rightarrow> nat set \<Rightarrow> nat \<Rightarrow> 'a lstate_scheme \<Rightarrow> bool" where
  "txn me dev H k s \<longleftrightarrow> log_ok me s H \<and> log_dev (klog s) = dev \<and> 1 \<le> log_outstanding (klog s) \<and>
     lhn s + int k + 2 \<le> int NBUF \<and> lhn s + int k + 1 \<le> log_size (klog s)"

text \<open>What the operations on blocks leave alone: everything but the buffers and the header in memory.\<close>

definition kept :: "'a lstate_scheme \<Rightarrow> (memory \<times> uint64 \<times> (uint64 \<Rightarrow> int) \<times> uint64 \<times> int list \<times> int \<times> nat option \<times> uint32) \<times>
    (int \<times> int \<times> int \<times> bool \<times> uint32) \<times> (uint32 \<Rightarrow> bytes) \<times> (uint32 \<times> bytes) list \<times> 'a" where
  "kept s = ((pmem s, freelist s, page_refcnt s, kern_end s, map p_pid (procs s), nextpid s, initproc s, ticks s),
     (log_start (klog s), log_size (klog s), log_outstanding (klog s), log_committing (klog s), log_dev (klog s)),
     disk s, disk_writes s, lstate.more s)"

lemma kept_outside:
  "outside s' = outside s \<Longrightarrow> disk s' = disk s \<Longrightarrow> disk_writes s' = disk_writes s \<Longrightarrow>
   kept s' = kept (s :: 'a lstate_scheme)"
  by (cases s; cases s') (simp add: outside_def kept_def)

lemma keptD:
  assumes "kept s' = kept s"
  shows "log_start (klog s') = log_start (klog s)" and "log_size (klog s') = log_size (klog s)"
    and "log_outstanding (klog s') = log_outstanding (klog s)" and "log_dev (klog s') = log_dev (klog s)"
    and "disk s' = disk s" and "lstate.more s' = lstate.more s" and "pmem s' = pmem s"
    and "map p_pid (procs s') = map p_pid (procs s)"
  using assms by (simp_all add: kept_def)

lemma log_write_kept: "log_write b s = Inr s' \<Longrightarrow> kept s' = kept s"
  by (auto simp: log_write_def kept_def Let_def upd_lh_def upd_log_def bpin_def upd_buf_def split: if_splits)

lemma kept_set_data [simp]: "kept (set_data b d s) = kept s"
  by (simp add: kept_def set_data_def upd_buf_def)

text \<open>The buffer of a block may be released when the block is in the transaction or as on disk.\<close>

definition settled :: "uint32 \<Rightarrow> 'a lstate_scheme \<Rightarrow> uint32 \<Rightarrow> bool" where
  "settled dev s bn \<longleftrightarrow> bn \<in> set (logged s) \<or> blk s dev bn = disk s bn"

lemma txn_cache:
  assumes "txn me dev H k s"
  shows "cache_inv me dev s (set (logged s)) H" and "lhn s = int (length (logged s))" and "card (set (logged s)) + 1 < NBUF"
    and "log_fits (log_start (klog s))" and "finite H"
proof -
  have ok: "log_ok me s H" "log_dev (klog s) = dev" "lhn s + 2 \<le> int NBUF" using assms by (auto simp: txn_def)
  note d = log_okD [OF ok(1) ok(2) [symmetric] refl refl refl]
  show c: "cache_inv me dev s (set (logged s)) H" "log_fits (log_start (klog s))" using d(1,7) by simp_all
  show l: "lhn s = int (length (logged s))" using d(3,4) by simp
  show "card (set (logged s)) + 1 < NBUF" using card_length [of "logged s"] l ok(3) by linarith
  show "finite H" using bcache.finite_law [OF c(1)] .
qed

lemma txn_data: "txn me dev H k s \<Longrightarrow> b \<in> H \<Longrightarrow> b_data (bufs s ! b) = blk s dev (block_of s b)"
  using bcache.dat_law [OF txn_cache(1)] by blast

lemma txn_length [simp]: "txn me dev H k s \<Longrightarrow> length (blk s dev bn) = BSIZE"
  using bcache.length_law [OF txn_cache(1)] by blast

lemma txn_mono: "txn me dev H k s \<Longrightarrow> j \<le> k \<Longrightarrow> txn me dev H j s"
  by (auto simp: txn_def)

lemma txn_outside:
  assumes "txn me dev H k s" and "outside s' = outside s" and "disk s' = disk s" and "cache_inv me dev s' (set (logged s)) H'"
  shows "txn me dev H' k s'"
proof -
  have k: "klog s' = klog s" using klog_outside [OF assms(2)] .
  show ?thesis using assms(1,3,4) by (auto simp: txn_def log_ok_def Let_def k)
qed

lemma txn_bread:
  fixes s :: "'a lstate_scheme"
  assumes t: "txn me dev H k s" and bn: "\<And>i. i \<in> H \<Longrightarrow> block_of s i \<noteq> bn" and H: "card H \<le> 1"
  shows "\<exists>b s'. bread me dev bn s = Inr (b, s') \<and> b \<notin> H \<and> txn me dev (insert b H) k s' \<and> block_of s' b = bn \<and>
    (\<forall>i \<in> H. block_of s' i = block_of s i) \<and> b_data (bufs s' ! b) = blk s dev bn \<and> settled dev s' bn \<and>
    blk s' dev = blk s dev \<and> logged s' = logged s \<and> kept s' = kept s"
proof -
  note c = txn_cache [OF t]
  obtain b s' where b: "bread me dev bn s = Inr (b, s')" "b \<notin> H" "cache_inv me dev s' (set (logged s)) (insert b H)"
    "block_of s' b = bn" "\<forall>i \<in> H. block_of s' i = block_of s i" "blk s' dev = blk s dev" "disk s' = disk s"
    "disk_writes s' = disk_writes s" "outside s' = outside s"
    using bcache.rd_law [OF c(1) bn] c(3) H by fastforce
  have k: "klog s' = klog s" using klog_outside [OF b(9)] .
  have t': "txn me dev (insert b H) k s'" using txn_outside [OF t b(9,7,3)] .
  moreover have "settled dev s' bn"
    using bcache.view_law [OF c(1), of bn] bn b(6,7) unfolding settled_def k by auto
  ultimately show ?thesis
    using b txn_data [OF t', of b] kept_outside [OF b(9,7,8)] k by auto
qed

lemma txn_brelse:
  fixes s :: "'a lstate_scheme"
  assumes t: "txn me dev H k s" and b: "b \<in> H" and st: "settled dev s (block_of s b)"
  shows "\<exists>s'. brelse me b s = Inr s' \<and> txn me dev (H - {b}) k s' \<and> (\<forall>i \<in> H - {b}. block_of s' i = block_of s i) \<and>
    blk s' dev = blk s dev \<and> logged s' = logged s \<and> kept s' = kept s"
proof -
  obtain s' where r: "brelse me b s = Inr s'" "cache_inv me dev s' (set (logged s)) (H - {b})"
    "\<forall>i \<in> H - {b}. block_of s' i = block_of s i" "blk s' dev = blk s dev" "disk s' = disk s"
    "disk_writes s' = disk_writes s" "outside s' = outside s"
    using bcache.rel_law [OF txn_cache(1) [OF t] b] st unfolding settled_def by blast
  have k: "klog s' = klog s" using klog_outside [OF r(7)] .
  show ?thesis using r txn_outside [OF t r(7,5,2)] kept_outside [OF r(7,5,6)] k by auto
qed

lemma txn_write:
  fixes s :: "'a lstate_scheme"
  assumes t: "txn me dev H (Suc k) s" and b: "b \<in> H" and bn: "block_of s b = bn"
    and reg: "bn \<notin> log_region (log_start (klog s))" and len: "length d = BSIZE"
  shows "\<exists>s'. log_write b (set_data b d s) = Inr s' \<and> txn me dev H k s' \<and> (\<forall>i \<in> H. block_of s' i = block_of s i) \<and>
    blk s' dev = (blk s dev)(bn := d) \<and> bn \<in> set (logged s') \<and> set (logged s) \<subseteq> set (logged s') \<and> kept s' = kept s"
proof -
  let ?s = "set_data b d s"
  have ok: "log_ok me s H" "log_dev (klog s) = dev" "1 \<le> log_outstanding (klog s)"
    "lhn s + 1 < int NBUF" "lhn s < log_size (klog s) - 1" using t by (auto simp: txn_def)
  have a: "cache_inv me dev ?s (set (logged s)) H" "\<forall>i \<in> H. block_of ?s i = block_of s i" "blk ?s dev = (blk s dev)(bn := d)"
    "disk ?s = disk s" "outside ?s = outside s"
    using bcache.assign_law [OF txn_cache(1) [OF t] b len] bn by auto
  have k: "klog ?s = klog s" using klog_outside [OF a(5)] .
  have t1: "txn me dev H (Suc k) ?s" using txn_outside [OF t a(5,4,1)] .
  have n: "block_of ?s b = bn" using a(2) b bn by simp
  obtain s' where w: "log_write b ?s = Inr s'" "log_ok me s' H" "block_of s' = block_of ?s"
    "logged s' = (if bn \<in> set (logged ?s) then logged ?s else logged ?s @ [bn])" "blk s' dev = blk ?s dev"
    "log_dev (klog s') = dev"
    using log_write_spec [of me ?s H b bn] t1 b n reg ok k by (auto simp: txn_def)
  note kp = log_write_kept [OF w(1)]
  have lg: "logged ?s = logged s" unfolding k ..
  have "lhn s' = int (length (logged s'))" using log_okD(3,4) [OF w(2) refl refl refl refl] by simp
  then have "lhn s' \<le> lhn s + 1" using w(4) txn_cache(2) [OF t] lg by simp
  then have "txn me dev H k s'" using w(2,6) t keptD [OF kp] k by (auto simp: txn_def)
  then show ?thesis using w a kp lg by auto
qed

text \<open>The two patterns of the file system: read a block; read, assign and log a block.\<close>

lemma txn_read:
  fixes s :: "'a lstate_scheme"
  assumes t: "txn me dev H k s" and bn: "\<And>i. i \<in> H \<Longrightarrow> block_of s i \<noteq> bn" and H: "card H \<le> 1"
  shows "\<exists>b s1 s2. bread me dev bn s = Inr (b, s1) \<and> b_data (bufs s1 ! b) = blk s dev bn \<and> kept s1 = kept s \<and>
    brelse me b s1 = Inr s2 \<and> txn me dev H k s2 \<and> (\<forall>i \<in> H. block_of s2 i = block_of s i) \<and>
    blk s2 dev = blk s dev \<and> logged s2 = logged s \<and> kept s2 = kept s"
proof -
  obtain b s1 where b: "bread me dev bn s = Inr (b, s1)" "b \<notin> H" "txn me dev (insert b H) k s1" "block_of s1 b = bn"
    "\<forall>i \<in> H. block_of s1 i = block_of s i" "b_data (bufs s1 ! b) = blk s dev bn" "settled dev s1 bn"
    "blk s1 dev = blk s dev" "logged s1 = logged s" "kept s1 = kept s" using txn_bread [OF t bn H] by blast
  moreover obtain s2 where "brelse me b s1 = Inr s2" "txn me dev (insert b H - {b}) k s2"
    "\<forall>i \<in> insert b H - {b}. block_of s2 i = block_of s1 i" "blk s2 dev = blk s1 dev" "logged s2 = logged s1" "kept s2 = kept s1"
    using txn_brelse [OF b(3), of b] b(4,7) by auto
  ultimately show ?thesis by auto
qed

lemma txn_update:
  fixes s :: "'a lstate_scheme"
  assumes t: "txn me dev H (Suc k) s" and bn: "\<And>i. i \<in> H \<Longrightarrow> block_of s i \<noteq> bn" and H: "card H \<le> 1"
    and reg: "bn \<notin> log_region (log_start (klog s))" and len: "length d = BSIZE"
  shows "\<exists>b s1 s2 s3. bread me dev bn s = Inr (b, s1) \<and> b_data (bufs s1 ! b) = blk s dev bn \<and> kept s1 = kept s \<and>
    log_write b (set_data b d s1) = Inr s2 \<and> kept s2 = kept s \<and> brelse me b s2 = Inr s3 \<and> txn me dev H k s3 \<and>
    (\<forall>i \<in> H. block_of s3 i = block_of s i) \<and> blk s3 dev = (blk s dev)(bn := d) \<and>
    set (logged s) \<subseteq> set (logged s3) \<and> kept s3 = kept s"
proof -
  obtain b s1 where b: "bread me dev bn s = Inr (b, s1)" "b \<notin> H" "txn me dev (insert b H) (Suc k) s1" "block_of s1 b = bn"
    "\<forall>i \<in> H. block_of s1 i = block_of s i" "b_data (bufs s1 ! b) = blk s dev bn" "blk s1 dev = blk s dev"
    "logged s1 = logged s" "kept s1 = kept s" using txn_bread [OF t bn H] by blast
  have reg1: "bn \<notin> log_region (log_start (klog s1))" using reg keptD(1) [OF b(9)] by simp
  obtain s2 where w: "log_write b (set_data b d s1) = Inr s2" "txn me dev (insert b H) k s2"
    "\<forall>i \<in> insert b H. block_of s2 i = block_of s1 i" "blk s2 dev = (blk s1 dev)(bn := d)" "bn \<in> set (logged s2)"
    "set (logged s1) \<subseteq> set (logged s2)" "kept s2 = kept s1"
    using txn_write [OF b(3) insertI1 b(4) reg1 len] by blast
  have st: "settled dev s2 (block_of s2 b)" using w(3,5) b(4) by (simp add: settled_def)
  obtain s3 where r: "brelse me b s2 = Inr s3" "txn me dev (insert b H - {b}) k s3"
    "\<forall>i \<in> insert b H - {b}. block_of s3 i = block_of s2 i" "blk s3 dev = blk s2 dev" "logged s3 = logged s2" "kept s3 = kept s2"
    using txn_brelse [OF w(2) insertI1 st] by blast
  have "insert b H - {b} = H" using b(2) by simp
  moreover have "\<forall>i \<in> H. block_of s3 i = block_of s i" using r(3) w(3) b(2,5) by auto
  ultimately show ?thesis using b w r by auto
qed

section \<open>The bitmap\<close>

text \<open>Bit \<open>b\<close> of the bitmap in the blocks \<open>v\<close>.\<close>

definition in_use :: "superblock \<Rightarrow> (uint32 \<Rightarrow> bytes) \<Rightarrow> nat \<Rightarrow> bool" where
  "in_use sb v b \<longleftrightarrow> bit (v (BBLOCK (of_nat b) sb) ! (b mod BPB div 8)) (b mod 8)"

definition mark :: "nat \<Rightarrow> bytes \<Rightarrow> bytes" where
  "mark bi d = d[bi div 8 := (d ! (bi div 8)) OR bitmap_bit bi]"

definition unmark :: "nat \<Rightarrow> bytes \<Rightarrow> bytes" where
  "unmark bi d = d[bi div 8 := (d ! (bi div 8)) AND NOT (bitmap_bit bi)]"

lemma bit_bitmap_bit: "bit (bitmap_bit bi) n \<longleftrightarrow> n = bi mod 8"
  by (auto simp: bitmap_bit_def bit_exp_iff)

lemma bitmap_test: "x AND bitmap_bit bi = 0 \<longleftrightarrow> \<not> bit x (bi mod 8)"
proof
  assume "x AND bitmap_bit bi = 0"
  then have "\<not> bit (x AND bitmap_bit bi) (bi mod 8)" by simp
  then show "\<not> bit x (bi mod 8)" by (simp add: bit_and_iff bit_bitmap_bit)
next
  assume "\<not> bit x (bi mod 8)"
  then show "x AND bitmap_bit bi = 0" by (intro bit_eqI) (auto simp: bit_and_iff bit_bitmap_bit)
qed

lemma length_mark [simp]: "length (mark bi d) = length d" "length (unmark bi d) = length d"
  by (simp_all add: mark_def unmark_def)

lemma div_mod_eq: "i div 8 = j div 8 \<Longrightarrow> i mod 8 = j mod 8 \<Longrightarrow> i = (j :: nat)"
  by (metis div_mult_mod_eq)

lemma bit_mark:
  assumes "i div 8 < length d"
  shows "bit (mark i d ! (j div 8)) (j mod 8) \<longleftrightarrow> bit (d ! (j div 8)) (j mod 8) \<or> j = i"
    and "bit (unmark i d ! (j div 8)) (j mod 8) \<longleftrightarrow> bit (d ! (j div 8)) (j mod 8) \<and> j \<noteq> i"
  using assms div_mod_eq [of i j]
  by (auto simp: mark_def unmark_def nth_list_update bit_or_iff bit_and_iff bit_not_iff bit_bitmap_bit)

lemma BBLOCK_eq: "b < 2 ^ 32 \<Longrightarrow> c < 2 ^ 32 \<Longrightarrow> BBLOCK (of_nat b) sb = BBLOCK (of_nat c) sb \<longleftrightarrow> b div BPB = c div BPB"
proof -
  assume h: "b < 2 ^ 32" "c < 2 ^ 32"
  have u: "unat ((of_nat x :: uint32) div of_nat BPB) = x div BPB" if "x < 2 ^ 32" for x
    using that by (simp add: unat_div unat_of_nat fs_params BSIZE_def)
  have "BBLOCK (of_nat b) sb = BBLOCK (of_nat c) sb \<longleftrightarrow> (of_nat b :: uint32) div of_nat BPB = of_nat c div of_nat BPB"
    by (simp add: BBLOCK_def)
  also have "\<dots> \<longleftrightarrow> b div BPB = c div BPB" using u [OF h(1)] u [OF h(2)] by (simp add: word_unat_eq_iff)
  finally show ?thesis .
qed

lemma in_use_upd:
  assumes "b < 2 ^ 32" and "c < 2 ^ 32" and "length (v (BBLOCK (of_nat b) sb)) = BSIZE"
  shows "in_use sb (v(BBLOCK (of_nat b) sb := mark (b mod BPB) (v (BBLOCK (of_nat b) sb)))) c \<longleftrightarrow> in_use sb v c \<or> c = b"
    and "in_use sb (v(BBLOCK (of_nat b) sb := unmark (b mod BPB) (v (BBLOCK (of_nat b) sb)))) c \<longleftrightarrow> in_use sb v c \<and> c \<noteq> b"
proof -
  have l: "b mod BPB div 8 < length (v (BBLOCK (of_nat b) sb))" using assms(3) by (simp add: fs_params BSIZE_def)
  have m: "x mod BPB mod 8 = x mod 8" for x by (simp add: fs_params BSIZE_def mod_mod_cancel)
  have e: "b div BPB = c div BPB \<Longrightarrow> c mod BPB = b mod BPB \<longleftrightarrow> c = b" by (metis div_mult_mod_eq)
  show "in_use sb (v(BBLOCK (of_nat b) sb := mark (b mod BPB) (v (BBLOCK (of_nat b) sb)))) c \<longleftrightarrow> in_use sb v c \<or> c = b"
    and "in_use sb (v(BBLOCK (of_nat b) sb := unmark (b mod BPB) (v (BBLOCK (of_nat b) sb)))) c \<longleftrightarrow> in_use sb v c \<and> c \<noteq> b"
    using bit_mark [OF l, of "c mod BPB"] e BBLOCK_eq [OF assms(1,2), of sb] unfolding in_use_def m
    by (cases "b div BPB = c div BPB"; auto)+
qed

lemma balloc_scan_Some:
  "balloc_scan d b sz bi = Some j \<Longrightarrow> bi \<le> j \<and> j < BPB \<and> b + j < sz \<and> \<not> bit (d ! (j div 8)) (j mod 8) \<and>
     (\<forall>i. bi \<le> i \<longrightarrow> i < j \<longrightarrow> bit (d ! (i div 8)) (i mod 8))"
proof (induction d b sz bi rule: balloc_scan.induct)
  case (1 d b sz bi)
  show ?case
  proof (cases "bi < BPB \<and> b + bi < sz \<and> bit (d ! (bi div 8)) (bi mod 8)")
    case True
    then have "balloc_scan d b sz (bi + 1) = Some j" using "1.prems" by (subst (asm) balloc_scan.simps) (simp add: bitmap_test)
    then have h: "bi + 1 \<le> j \<and> j < BPB \<and> b + j < sz \<and> \<not> bit (d ! (j div 8)) (j mod 8) \<and>
      (\<forall>i. bi + 1 \<le> i \<longrightarrow> i < j \<longrightarrow> bit (d ! (i div 8)) (i mod 8))"
      using True by (intro "1.IH") (simp_all add: bitmap_test)
    have "bit (d ! (i div 8)) (i mod 8)" if "bi \<le> i" "i < j" for i
      using h True that by (cases "i = bi") simp_all
    then show ?thesis using h by simp
  next
    case False
    then show ?thesis using "1.prems" by (subst (asm) balloc_scan.simps) (auto simp: bitmap_test split: if_splits)
  qed
qed

lemma balloc_scan_None:
  "balloc_scan d b sz bi = None \<Longrightarrow> bi \<le> i \<Longrightarrow> i < BPB \<Longrightarrow> b + i < sz \<Longrightarrow> bit (d ! (i div 8)) (i mod 8)"
proof (induction d b sz bi rule: balloc_scan.induct)
  case (1 d b sz bi)
  then have b: "bi < BPB \<and> b + bi < sz" by simp
  then have u: "bit (d ! (bi div 8)) (bi mod 8)" "balloc_scan d b sz (bi + 1) = None"
    using "1.prems"(1) by (subst (asm) balloc_scan.simps, simp add: bitmap_test split: if_splits)+
  show ?case using "1.IH" [OF b _ u(2)] u(1) "1.prems" by (cases "i = bi") (simp_all add: bitmap_test)
qed

section \<open>Allocating and freeing\<close>

text \<open>The bitmap is outside the log, and what it calls free is neither the log nor the bitmap nor block 0.\<close>

definition free_ok :: "int \<Rightarrow> superblock \<Rightarrow> (uint32 \<Rightarrow> bytes) \<Rightarrow> bool" where
  "free_ok st sb v \<longleftrightarrow>
     (\<forall>c < unat (sb_size sb). BBLOCK (of_nat c) sb \<notin> log_region st) \<and>
     (\<forall>b < unat (sb_size sb). \<not> in_use sb v b \<longrightarrow> b \<noteq> 0 \<and> of_nat b \<notin> log_region st \<and>
        (\<forall>c < unat (sb_size sb). BBLOCK (of_nat c) sb \<noteq> of_nat b))"

text \<open>The buffers \<open>H\<close> that a caller of the allocator has locked are neither bitmap nor free blocks.\<close>

definition apart :: "superblock \<Rightarrow> (uint32 \<Rightarrow> bytes) \<Rightarrow> uint32 \<Rightarrow> bool" where
  "apart sb v bn \<longleftrightarrow> (\<forall>c < unat (sb_size sb). BBLOCK (of_nat c) sb \<noteq> bn \<and> (\<not> in_use sb v c \<longrightarrow> of_nat c \<noteq> bn))"

lemma kept_istate:
  fixes s s' :: "'a istate_scheme"
  shows "kept s' = kept s \<Longrightarrow> fs_sb s' = fs_sb s \<and> itable s' = itable s \<and> istate.more s' = istate.more s"
  by (cases s; cases s') (simp add: kept_def)

lemma upd_buf_data: "upd_buf b (\<lambda>x. x\<lparr>b_data := f (b_data x)\<rparr>) s = set_data b (f (b_data (bufs s ! b))) s"
  by (simp add: upd_buf_def set_data_def)

lemma bzero_spec:
  fixes s :: "'a lstate_scheme"
  assumes "txn me dev H (Suc k) s" and "\<And>i. i \<in> H \<Longrightarrow> block_of s i \<noteq> bn" and "card H \<le> 1"
    and "bn \<notin> log_region (log_start (klog s))"
  shows "\<exists>s'. bzero me dev bn s = Inr s' \<and> txn me dev H k s' \<and> (\<forall>i \<in> H. block_of s' i = block_of s i) \<and>
    blk s' dev = (blk s dev)(bn := replicate BSIZE 0) \<and> set (logged s) \<subseteq> set (logged s') \<and> kept s' = kept s"
proof -
  obtain b s1 s2 s3 where "bread me dev bn s = Inr (b, s1)" "log_write b (set_data b (replicate BSIZE 0) s1) = Inr s2"
    "brelse me b s2 = Inr s3" "txn me dev H k s3" "\<forall>i \<in> H. block_of s3 i = block_of s i"
    "blk s3 dev = (blk s dev)(bn := replicate BSIZE 0)" "set (logged s) \<subseteq> set (logged s3)" "kept s3 = kept s"
    using txn_update [OF assms, of "replicate BSIZE 0"] by auto
  then show ?thesis unfolding bzero_def set_data_def by simp
qed

text \<open>The block taken: the first one free, marked in the bitmap and filled with zeros.\<close>

definition alloc_blk :: "superblock \<Rightarrow> nat \<Rightarrow> (uint32 \<Rightarrow> bytes) \<Rightarrow> uint32 \<Rightarrow> bytes" where
  "alloc_blk sb c v = v(BBLOCK (of_nat c) sb := mark (c mod BPB) (v (BBLOCK (of_nat c) sb)), of_nat c := replicate BSIZE 0)"

lemma balloc_take:
  fixes s :: "'a lstate_scheme"
  assumes t: "txn me dev (insert bp H) (Suc (Suc k)) s" and bp: "bp \<notin> H" "block_of s bp = BBLOCK (of_nat c) sb" and H: "card H \<le> 1"
    and reg: "BBLOCK (of_nat c) sb \<notin> log_region (log_start (klog s))" "of_nat c \<notin> log_region (log_start (klog s))"
    and ne: "\<And>i. i \<in> H \<Longrightarrow> block_of s i \<noteq> of_nat c"
  shows "\<exists>s1 s2 s3. log_write bp (set_data bp (mark (c mod BPB) (b_data (bufs s ! bp))) s) = Inr s1 \<and> brelse me bp s1 = Inr s2 \<and>
    bzero me dev (of_nat c) s2 = Inr s3 \<and> txn me dev H k s3 \<and> (\<forall>i \<in> H. block_of s3 i = block_of s i) \<and>
    blk s3 dev = alloc_blk sb c (blk s dev) \<and> set (logged s) \<subseteq> set (logged s3) \<and> kept s3 = kept s"
proof -
  let ?bb = "BBLOCK (of_nat c) sb"
  have d: "b_data (bufs s ! bp) = blk s dev ?bb" using txn_data [OF t insertI1] bp(2) by simp
  have l: "length (mark (c mod BPB) (b_data (bufs s ! bp))) = BSIZE" using d txn_length [OF t] by simp
  obtain s1 where w: "log_write bp (set_data bp (mark (c mod BPB) (b_data (bufs s ! bp))) s) = Inr s1" "txn me dev (insert bp H) (Suc k) s1"
    "\<forall>i \<in> insert bp H. block_of s1 i = block_of s i" "blk s1 dev = (blk s dev)(?bb := mark (c mod BPB) (b_data (bufs s ! bp)))"
    "?bb \<in> set (logged s1)" "set (logged s) \<subseteq> set (logged s1)" "kept s1 = kept s"
    using txn_write [OF t insertI1 bp(2) reg(1) l] by blast
  have st: "settled dev s1 (block_of s1 bp)" using w(3,5) bp(2) by (simp add: settled_def)
  obtain s2 where r: "brelse me bp s1 = Inr s2" "txn me dev (insert bp H - {bp}) (Suc k) s2"
    "\<forall>i \<in> insert bp H - {bp}. block_of s2 i = block_of s1 i" "blk s2 dev = blk s1 dev" "logged s2 = logged s1" "kept s2 = kept s1"
    using txn_brelse [OF w(2) insertI1 st] by blast
  have H2: "insert bp H - {bp} = H" using bp(1) by simp
  have b2: "block_of s2 i = block_of s i" if "i \<in> H" for i using r(3) w(3) that bp(1) by auto
  have reg2: "of_nat c \<notin> log_region (log_start (klog s2))" using reg(2) r(6) w(7) keptD(1) [of s2 s] by simp
  obtain s3 where z: "bzero me dev (of_nat c) s2 = Inr s3" "txn me dev H k s3" "\<forall>i \<in> H. block_of s3 i = block_of s2 i"
    "blk s3 dev = (blk s2 dev)(of_nat c := replicate BSIZE 0)" "set (logged s2) \<subseteq> set (logged s3)" "kept s3 = kept s2"
    using bzero_spec [OF r(2) [unfolded H2] _ H reg2] ne b2 by auto
  show ?thesis using w r z b2 d by (auto simp: alloc_blk_def)
qed

lemma balloc_loop_spec:
  fixes s :: "'a istate_scheme"
  assumes "txn me dev H (Suc (Suc k)) s" and "free_ok (log_start (klog s)) (fs_sb s) (blk s dev)"
    and "\<And>i. i \<in> H \<Longrightarrow> apart (fs_sb s) (blk s dev) (block_of s i)" and H: "card H \<le> 1"
    and "BPB dvd b" and "\<And>c. c < b \<Longrightarrow> c < unat (sb_size (fs_sb s)) \<Longrightarrow> in_use (fs_sb s) (blk s dev) c"
  shows "\<exists>r s'. balloc_loop me dev (unat (sb_size (fs_sb s))) b s = Inr (r, s') \<and> txn me dev H k s' \<and>
    (\<forall>i \<in> H. block_of s' i = block_of s i) \<and> set (logged s) \<subseteq> set (logged s') \<and> kept s' = kept s \<and>
    (r = 0 \<and> blk s' dev = blk s dev \<and> (\<forall>c < unat (sb_size (fs_sb s)). in_use (fs_sb s) (blk s dev) c) \<or>
     (\<exists>c < unat (sb_size (fs_sb s)). r = of_nat c \<and> \<not> in_use (fs_sb s) (blk s dev) c \<and>
        (\<forall>e < c. in_use (fs_sb s) (blk s dev) e) \<and> blk s' dev = alloc_blk (fs_sb s) c (blk s dev)))"
  using assms(1-3,5,6)
proof (induction "unat (sb_size (fs_sb s)) - b" arbitrary: b s rule: less_induct)
  case less
  let ?sb = "fs_sb s" and ?sz = "unat (sb_size (fs_sb s))"
  let ?bb = "BBLOCK (of_nat b) ?sb"
  have sz: "?sz < 2 ^ 32" by (rule order_less_le_trans [OF unsigned_less]) simp
  show ?case
  proof (cases "b < ?sz")
    case False
    then show ?thesis using less.prems(1,5) txn_mono [OF less.prems(1), of k]
      by (subst balloc_loop.simps) (intro exI [of _ 0] exI [of _ s], auto)
  next
    case True
    have nb: "block_of s i \<noteq> ?bb" if "i \<in> H" for i
      using less.prems(3) [OF that] True unfolding apart_def by metis
    obtain b0 where b0: "b = b0 * BPB" using less.prems(4) by (metis dvdE mult.commute)
    have pos: "0 < BPB" by (simp add: fs_params BSIZE_def)
    have word: "BBLOCK (of_nat (b + i)) ?sb = ?bb \<and> in_use ?sb (blk s dev) (b + i) = bit (blk s dev ?bb ! (i div 8)) (i mod 8) \<and>
      (b + i) mod BPB = i" if "i < BPB" "b + i < ?sz" for i
    proof -
      have d: "(b + i) div BPB = b div BPB" "(b + i) mod BPB = i" using that(1) pos b0 by simp_all
      have "BBLOCK (of_nat (b + i)) ?sb = ?bb" using BBLOCK_eq [of "b + i" b ?sb] d(1) that(2) sz by simp
      moreover have "b mod 8 = 0" using dvd_trans [OF _ less.prems(4), of 8] by (simp add: fs_params BSIZE_def)
      then have "(b + i) mod 8 = i mod 8" by (metis add.left_neutral mod_add_left_eq)
      ultimately show ?thesis using d by (simp add: in_use_def)
    qed
    obtain bp s1 where r1: "bread me dev ?bb s = Inr (bp, s1)" "bp \<notin> H" "txn me dev (insert bp H) (Suc (Suc k)) s1"
      "block_of s1 bp = ?bb" "\<forall>i \<in> H. block_of s1 i = block_of s i" "b_data (bufs s1 ! bp) = blk s dev ?bb"
      "settled dev s1 ?bb" "blk s1 dev = blk s dev" "logged s1 = logged s" "kept s1 = kept s"
      using txn_bread [OF less.prems(1) nb H] by blast
    show ?thesis
    proof (cases "balloc_scan (blk s dev ?bb) b ?sz 0")
      case None
      obtain s2 where r2: "brelse me bp s1 = Inr s2" "txn me dev (insert bp H - {bp}) (Suc (Suc k)) s2"
        "\<forall>i \<in> insert bp H - {bp}. block_of s2 i = block_of s1 i" "blk s2 dev = blk s1 dev" "logged s2 = logged s1" "kept s2 = kept s1"
        using txn_brelse [OF r1(3) insertI1] r1(4,7) by auto
      have H2: "insert bp H - {bp} = H" using r1(2) by simp
      have kp: "kept s2 = kept s" "fs_sb s2 = ?sb" "log_start (klog s2) = log_start (klog s)" "fs_sb s1 = ?sb"
        using r1(10) r2(6) kept_istate [of s2 s] kept_istate [of s1 s] keptD(1) [of s2 s] by auto
      have v: "blk s2 dev = blk s dev" "\<And>i. i \<in> H \<Longrightarrow> block_of s2 i = block_of s i"
        using r1(5,8) r2(3,4) H2 by auto
      have used: "in_use ?sb (blk s dev) c" if "c < b + BPB" "c < ?sz" for c
      proof (cases "c < b")
        case True
        then show ?thesis using less.prems(5) that by simp
      next
        case False
        then have "c - b < BPB" "b + (c - b) = c" using that by auto
        then show ?thesis using word [of "c - b"] balloc_scan_None [OF None, of "c - b"] that by simp
      qed
      have "\<exists>r s'. balloc_loop me dev (unat (sb_size (fs_sb s2))) (b + BPB) s2 = Inr (r, s') \<and> txn me dev H k s' \<and>
        (\<forall>i \<in> H. block_of s' i = block_of s2 i) \<and> set (logged s2) \<subseteq> set (logged s') \<and> kept s' = kept s2 \<and>
        (r = 0 \<and> blk s' dev = blk s2 dev \<and> (\<forall>c < unat (sb_size (fs_sb s2)). in_use (fs_sb s2) (blk s2 dev) c) \<or>
         (\<exists>c < unat (sb_size (fs_sb s2)). r = of_nat c \<and> \<not> in_use (fs_sb s2) (blk s2 dev) c \<and>
            (\<forall>e < c. in_use (fs_sb s2) (blk s2 dev) e) \<and> blk s' dev = alloc_blk (fs_sb s2) c (blk s2 dev)))"
        by (rule less.hyps) (use less.prems r2(2) True pos used in \<open>simp_all add: kp v H2\<close>)
      then show ?thesis
        unfolding kp v using True r1(1,6,9) r2(1,5) v(2) None kp(1,4)
        by (subst balloc_loop.simps) auto
    next
      case (Some bi)
      note sc = balloc_scan_Some [OF Some]
      have bb: "BBLOCK (of_nat (b + bi)) ?sb = ?bb" "\<not> in_use ?sb (blk s dev) (b + bi)" "(b + bi) mod BPB = bi"
        using word [of bi] sc by auto
      have used: "in_use ?sb (blk s dev) e" if "e < b + bi" for e
      proof (cases "e < b")
        case True
        then show ?thesis using less.prems(5) that sc by simp
      next
        case False
        then have "e - b < BPB" "b + (e - b) = e" "e - b < bi" using that sc by auto
        then show ?thesis using word [of "e - b"] sc that by simp
      qed
      have kp: "fs_sb s1 = ?sb" "log_start (klog s1) = log_start (klog s)"
        using kept_istate [OF r1(10)] keptD(1) [OF r1(10)] by auto
      have free: "?bb \<notin> log_region (log_start (klog s))" "of_nat (b + bi) \<notin> log_region (log_start (klog s))"
        using less.prems(2) sc bb unfolding free_ok_def by metis+
      have ne: "block_of s1 i \<noteq> of_nat (b + bi)" if "i \<in> H" for i
        using less.prems(3) [OF that] sc bb r1(5) that unfolding apart_def by metis
      obtain s2 s3 s4 where a: "log_write bp (set_data bp (mark bi (b_data (bufs s1 ! bp))) s1) = Inr s2" "brelse me bp s2 = Inr s3"
        "bzero me dev (of_nat (b + bi)) s3 = Inr s4" "txn me dev H k s4" "\<forall>i \<in> H. block_of s4 i = block_of s1 i"
        "blk s4 dev = alloc_blk ?sb (b + bi) (blk s1 dev)" "set (logged s1) \<subseteq> set (logged s4)" "kept s4 = kept s1"
        using balloc_take [OF r1(3,2) _ H, of "b + bi" ?sb] r1(4) free ne unfolding bb kp by blast
      have "balloc_loop me dev ?sz b s = Inr (of_nat (b + bi), s4)"
        using True r1(1,6) Some a(1-3) kp
        by (subst balloc_loop.simps) (simp add: mark_def set_data_def upd_buf_def)
      then show ?thesis using a(4-8) r1(5,8-10) sc bb used by auto
    qed
  qed
qed

lemmas balloc_spec = balloc_loop_spec [where b = 0, folded balloc_def, simplified]

lemma alloc_blk_in_use:
  assumes "free_ok st sb v" and "c < unat (sb_size sb)" and "\<not> in_use sb v c" and "e < unat (sb_size sb)"
    and "\<And>bn. length (v bn) = BSIZE"
  shows "in_use sb (alloc_blk sb c v) e \<longleftrightarrow> in_use sb v e \<or> e = c"
proof -
  have sz: "unat (sb_size sb) < 2 ^ 32" by (rule order_less_le_trans [OF unsigned_less]) simp
  have "BBLOCK (of_nat e) sb \<noteq> of_nat c" using assms(1-4) by (simp add: free_ok_def)
  then have "in_use sb (alloc_blk sb c v) e \<longleftrightarrow>
      in_use sb (v(BBLOCK (of_nat c) sb := mark (c mod BPB) (v (BBLOCK (of_nat c) sb)))) e"
    by (simp add: in_use_def alloc_blk_def)
  also have "\<dots> \<longleftrightarrow> in_use sb v e \<or> e = c" using assms(2,4,5) sz by (intro in_use_upd) simp_all
  finally show ?thesis .
qed

lemma free_ok_alloc:
  assumes "free_ok st sb v" and "c < unat (sb_size sb)" and "\<not> in_use sb v c" and "\<And>bn. length (v bn) = BSIZE"
  shows "free_ok st sb (alloc_blk sb c v)"
  using assms alloc_blk_in_use [OF assms(1-3) _ assms(4)] by (simp add: free_ok_def)

lemma unmark_mark:
  assumes "i div 8 < length d" and "\<not> bit (d ! (i div 8)) (i mod 8)"
  shows "unmark i (mark i d) = d"
proof -
  have "(d ! (i div 8) OR bitmap_bit i) AND NOT (bitmap_bit i) = d ! (i div 8)"
    using assms(2) by (intro bit_eqI) (auto simp: bit_or_iff bit_and_iff bit_not_iff bit_bitmap_bit)
  then show ?thesis using assms(1) by (simp add: unmark_def mark_def)
qed

lemma unat_of_nat32: "c < unat (n :: uint32) \<Longrightarrow> unat (of_nat c :: uint32) = c"
  using order_less_trans [OF _ unsigned_less, of c n] by (simp add: unat_of_nat)

lemma bfree_spec:
  fixes s :: "'a istate_scheme"
  assumes t: "txn me dev H (Suc k) s" and ne: "\<And>i. i \<in> H \<Longrightarrow> block_of s i \<noteq> BBLOCK (of_nat c) (fs_sb s)" and H: "card H \<le> 1"
    and reg: "BBLOCK (of_nat c) (fs_sb s) \<notin> log_region (log_start (klog s))" and c: "c < unat (sb_size (fs_sb s))"
    and use: "in_use (fs_sb s) (blk s dev) c"
  shows "\<exists>s'. bfree me dev (of_nat c) s = Inr s' \<and> txn me dev H k s' \<and>
    (\<forall>i \<in> H. block_of s' i = block_of s i) \<and> set (logged s) \<subseteq> set (logged s') \<and> kept s' = kept s \<and>
    blk s' dev = (blk s dev)(BBLOCK (of_nat c) (fs_sb s) := unmark (c mod BPB) (blk s dev (BBLOCK (of_nat c) (fs_sb s))))"
proof -
  let ?bb = "BBLOCK (of_nat c) (fs_sb s)"
  let ?d = "unmark (c mod BPB) (blk s dev ?bb)"
  have u: "unat (of_nat c :: uint32) = c" using unat_of_nat32 [OF c] .
  have m: "c mod BPB mod 8 = c mod 8" by (simp add: fs_params BSIZE_def mod_mod_cancel)
  have l: "length ?d = BSIZE" using txn_length [OF t] by simp
  obtain b s1 s2 s3 where r: "bread me dev ?bb s = Inr (b, s1)" "b_data (bufs s1 ! b) = blk s dev ?bb"
    "log_write b (set_data b ?d s1) = Inr s2" "brelse me b s2 = Inr s3" "txn me dev H k s3"
    "\<forall>i \<in> H. block_of s3 i = block_of s i" "blk s3 dev = (blk s dev)(?bb := ?d)"
    "set (logged s) \<subseteq> set (logged s3)" "kept s3 = kept s"
    using txn_update [OF t ne H reg l] by blast
  then show ?thesis using use
    by (intro exI [of _ s3]) (simp add: bfree_def u m bitmap_test in_use_def unmark_def set_data_def)
qed

lemma bfree_panic:
  fixes s :: "'a istate_scheme"
  assumes "txn me dev {} k s" and "c < unat (sb_size (fs_sb s))" and "\<not> in_use (fs_sb s) (blk s dev) c"
  shows "bfree me dev (of_nat c) s = Inl (Panic ''freeing free block'')"
proof -
  have "c mod BPB mod 8 = c mod 8" by (simp add: fs_params BSIZE_def mod_mod_cancel)
  moreover obtain b s1 where "bread me dev (BBLOCK (of_nat c) (fs_sb s)) s = Inr (b, s1)"
    "b_data (bufs s1 ! b) = blk s dev (BBLOCK (of_nat c) (fs_sb s))"
    using txn_bread [OF assms(1), of "BBLOCK (of_nat c) (fs_sb s)"] by auto
  ultimately show ?thesis using assms(3) unat_of_nat32 [OF assms(2)] by (simp add: bfree_def bitmap_test in_use_def)
qed

section \<open>Inodes in their blocks\<close>

lemma length_concat_words: "length (concat (map (word_bytes n) ws)) = n * length ws"
  by (induction ws) simp_all

lemma length_dinode_put:
  "length (i_addrs i) = NDIRECT + 1 \<Longrightarrow> 64 * k + 64 \<le> length d \<Longrightarrow> length (dinode_put k i d) = length d"
  by (simp add: dinode_put_def put16_def put32_def length_concat_words fs_params)

section \<open>A small file system\<close>

text \<open>The disk that \<open>mkfs\<close> lays out, with a root directory of two entries: inode 1 is in block 32, the bitmap
  in block 45 with the first 48 blocks in use, and the directory in block 46.\<close>

definition demo_root :: inode where
  "demo_root = \<lparr>i_dev = ROOTDEV, i_inum = 1, i_ref = 1, i_lock = initsleeplock ''inode'', i_valid = True, i_type = T_DIR,
     i_major = 0, i_minor = 0, i_nlink = 1, i_size = 32, i_addrs = 46 # replicate 12 0\<rparr>"

definition demo_disk :: "uint32 \<Rightarrow> bytes" where
  "demo_disk = (\<lambda>_. replicate BSIZE 0)(32 := dinode_put 1 demo_root (replicate BSIZE 0), 45 := replicate 6 255 @ replicate 1018 0,
     46 := dirent_bytes 1 (cstr [46]) @ dirent_bytes 1 (cstr [46, 46]) @ replicate 992 0)"

definition demo_istate :: istate where
  "demo_istate = \<lparr>pmem = (\<lambda>_. 0), freelist = 0, page_refcnt = (\<lambda>_. 0), kern_end = KERNBASE,
     procs = replicate NPROC zero_proc, nextpid = 1, initproc = None, ticks = 0,
     bufs = bufs (binit zero_bstate), disk = demo_disk, disk_writes = [], klog = klog zero_lstate,
     itable = [demo_root, demo_root\<lparr>i_ref := 0\<rparr>], fs_sb = zero_sb\<rparr>"

lemma demo_disk_length: "length (demo_disk bn) = BSIZE"
proof -
  have "length (dinode_put 1 demo_root (replicate BSIZE 0)) = BSIZE"
    by (subst length_dinode_put) (simp_all add: demo_root_def fs_params BSIZE_def)
  then show ?thesis by (simp add: demo_disk_def dirent_bytes_def fs_params BSIZE_def)
qed

lemma demo_istate_txn: "txn 0 ROOTDEV {} 28 demo_istate" and demo_istate_blk: "blk demo_istate ROOTDEV = demo_disk"
proof -
  let ?b = "zero_bstate\<lparr>disk := demo_disk\<rparr>"
  have z: "length (bufs ?b) = Suc NBUF" "\<And>i. i < NBUF \<Longrightarrow> fresh_buf (bufs ?b ! i)" "\<And>bn. length (disk ?b bn) = BSIZE"
    by (simp_all add: zero_bstate_def fresh_buf_def zero_buf_def demo_disk_length del: replicate_Suc)
  have e: "bufs demo_istate = bufs (binit ?b)" "disk demo_istate = disk (binit ?b)"
    by (simp_all add: demo_istate_def binit_eq zero_bstate_def)
  have "bst ROOTDEV pid demo_istate {} {}" for pid
    using binit_spec(1) [OF z, of ROOTDEV pid] bst_ext [OF e] by (simp add: ROOTDEV_def)
  then have c: "cache_inv 0 ROOTDEV demo_istate {} {}" by (simp add: cache_inv_def demo_istate_def params)
  show "blk demo_istate ROOTDEV = demo_disk"
    using binit_spec(2) [OF z, of ROOTDEV] blk_ext [OF e] by (auto simp: ROOTDEV_def)
  have "is_header 0 [] (replicate BSIZE 0)" by (simp add: is_header_def get32_zeros)
  then show "txn 0 ROOTDEV {} 28 demo_istate"
    using c by (simp add: txn_def log_ok_def Let_def log_fits_def)
      (simp add: demo_istate_def zero_lstate_def params demo_disk_def)
qed

lemma demo_bitmap:
  assumes "c < 2000"
  shows "BBLOCK (of_nat c) zero_sb = 45" and "in_use zero_sb demo_disk c \<longleftrightarrow> c < 48"
proof -
  have "BBLOCK (of_nat c) zero_sb = BBLOCK (of_nat 0) zero_sb" using assms by (subst BBLOCK_eq) (simp_all add: fs_params BSIZE_def)
  then show b: "BBLOCK (of_nat c) zero_sb = 45" by (simp add: BBLOCK_def zero_sb_def)
  have "(255 :: uint8) = mask 8" by (simp add: mask_eq_exp_minus_1)
  then have "bit (255 :: uint8) (c mod 8) \<longleftrightarrow> c mod 8 < 8" by (simp only: bit_mask_iff) simp
  moreover have "demo_disk 45 ! (c div 8) = (if c < 48 then 255 else 0)"
  proof -
    have d: "demo_disk 45 = replicate 6 255 @ replicate 1018 0" by (simp add: demo_disk_def)
    have "c div 8 < 6 \<longleftrightarrow> c < 48" "c div 8 - 6 < 1018" using assms by auto
    then show ?thesis unfolding d nth_append by simp
  qed
  moreover have "c mod BPB = c" using assms by (simp add: fs_params BSIZE_def)
  ultimately show "in_use zero_sb demo_disk c \<longleftrightarrow> c < 48" unfolding in_use_def b by (cases "c < 48") simp_all
qed

lemma demo_free_ok: "free_ok (log_start (klog demo_istate)) (fs_sb demo_istate) (blk demo_istate ROOTDEV)"
proof -
  have e: "log_start (klog demo_istate) = 2" "fs_sb demo_istate = zero_sb" "unat (sb_size zero_sb) = 2000"
    by (simp_all add: demo_istate_def zero_lstate_def zero_sb_def)
  have out: "of_nat b \<notin> log_region 2" if "32 \<le> b" "b < 2000" for b
    by (rule not_log_region) (use that in \<open>simp_all add: log_fits_def params uint_nat unat_of_nat\<close>)
  have "of_nat b \<noteq> (45 :: uint32)" if "48 \<le> b" "b < 2000" for b :: nat
    using that by (simp add: word_unat_eq_iff unat_of_nat)
  then show ?thesis
    unfolding free_ok_def e demo_istate_blk using demo_bitmap out [of 45] out by (auto simp: not_less)
qed

section \<open>Properties\<close>

text \<open>C1: the block allocator.  \<open>balloc\<close> returns the first block that the bitmap calls free, filled with zeros and
  marked, and changes nothing else on the disk; it returns 0 exactly when no block is free.  Freeing the block
  gives back the bitmap as it was, so that nothing but the content of that block has changed; freeing
  it again panics.\<close>

theorem balloc_bfree:
  fixes s :: "'a istate_scheme"
  assumes "txn me dev {} (k + 3) s" and "free_ok (log_start (klog s)) (fs_sb s) (blk s dev)"
  shows "\<exists>r s'. balloc me dev s = Inr (r, s') \<and> txn me dev {} (k + 1) s' \<and> kept s' = kept s \<and>
    (r = 0 \<and> blk s' dev = blk s dev \<and> (\<forall>c < unat (sb_size (fs_sb s)). in_use (fs_sb s) (blk s dev) c) \<or>
     r \<noteq> 0 \<and> r < sb_size (fs_sb s) \<and> \<not> in_use (fs_sb s) (blk s dev) (unat r) \<and>
       (\<forall>e < unat r. in_use (fs_sb s) (blk s dev) e) \<and> blk s' dev r = replicate BSIZE 0 \<and>
       (\<forall>e < unat (sb_size (fs_sb s)). in_use (fs_sb s) (blk s' dev) e \<longleftrightarrow> in_use (fs_sb s) (blk s dev) e \<or> e = unat r) \<and>
       (\<forall>bn. bn \<noteq> r \<longrightarrow> bn \<noteq> BBLOCK r (fs_sb s) \<longrightarrow> blk s' dev bn = blk s dev bn) \<and>
       (\<exists>s''. bfree me dev r s' = Inr s'' \<and> txn me dev {} k s'' \<and> blk s'' dev = (blk s dev)(r := replicate BSIZE 0) \<and>
          bfree me dev r s'' = Inl (Panic ''freeing free block'')))"
proof -
  let ?sb = "fs_sb s" and ?sz = "unat (sb_size (fs_sb s))" and ?v = "blk s dev"
  have t: "txn me dev {} (Suc (Suc (Suc k))) s" using assms(1) by (simp add: numeral_3_eq_3)
  obtain r s' where a: "balloc me dev s = Inr (r, s')" "txn me dev {} (Suc k) s'" "kept s' = kept s"
    and alt: "r = 0 \<and> blk s' dev = ?v \<and> (\<forall>c < ?sz. in_use ?sb ?v c) \<or>
      (\<exists>c < ?sz. r = of_nat c \<and> \<not> in_use ?sb ?v c \<and> (\<forall>e < c. in_use ?sb ?v e) \<and> blk s' dev = alloc_blk ?sb c ?v)"
    using balloc_spec [OF t assms(2)] by auto
  show ?thesis
  proof (rule exI [of _ r], rule exI [of _ s'], intro conjI)
    from alt show "r = 0 \<and> blk s' dev = ?v \<and> (\<forall>c < ?sz. in_use ?sb ?v c) \<or>
     r \<noteq> 0 \<and> r < sb_size ?sb \<and> \<not> in_use ?sb ?v (unat r) \<and>
       (\<forall>e < unat r. in_use ?sb ?v e) \<and> blk s' dev r = replicate BSIZE 0 \<and>
       (\<forall>e < ?sz. in_use ?sb (blk s' dev) e \<longleftrightarrow> in_use ?sb ?v e \<or> e = unat r) \<and>
       (\<forall>bn. bn \<noteq> r \<longrightarrow> bn \<noteq> BBLOCK r ?sb \<longrightarrow> blk s' dev bn = ?v bn) \<and>
       (\<exists>s''. bfree me dev r s' = Inr s'' \<and> txn me dev {} k s'' \<and> blk s'' dev = ?v(r := replicate BSIZE 0) \<and>
          bfree me dev r s'' = Inl (Panic ''freeing free block''))"
    proof (elim disjE exE conjE)
      fix c assume c: "c < ?sz" "r = of_nat c" "\<not> in_use ?sb ?v c" "\<forall>e < c. in_use ?sb ?v e" "blk s' dev = alloc_blk ?sb c ?v"
      note F = assms(2) [unfolded free_ok_def]
      have u: "unat r = c" using unat_of_nat32 [OF c(1)] c(2) by simp
      have r: "r \<noteq> 0" "r < sb_size ?sb" using F c(1,3) u by (auto simp: word_less_nat_alt)
      have len: "length (?v bn) = BSIZE" for bn using txn_length [OF assms(1)] by blast
      have inu: "in_use ?sb (blk s' dev) e \<longleftrightarrow> in_use ?sb ?v e \<or> e = c" if "e < ?sz" for e
        unfolding c(5) using alloc_blk_in_use [OF assms(2) c(1,3) that len] .
      have ne: "BBLOCK r ?sb \<noteq> r" using F c(1-3) by auto
      have sb: "fs_sb s' = ?sb" "log_start (klog s') = log_start (klog s)" using kept_istate [OF a(3)] keptD(1) [OF a(3)] by auto
      obtain s'' where f: "bfree me dev r s' = Inr s''" "txn me dev {} k s''" "kept s'' = kept s'"
        "blk s'' dev = (blk s' dev)(BBLOCK r ?sb := unmark (c mod BPB) (blk s' dev (BBLOCK r ?sb)))"
        using bfree_spec [OF a(2), of c] F c(1) inu [OF c(1)] by (auto simp: sb c(2))
      have bit: "c mod BPB div 8 < length (?v (BBLOCK r ?sb))" "\<not> bit (?v (BBLOCK r ?sb) ! (c mod BPB div 8)) (c mod BPB mod 8)"
        using c(2,3) len by (simp_all add: in_use_def fs_params BSIZE_def mod_mod_cancel)
      have v: "blk s'' dev = ?v(r := replicate BSIZE 0)"
        using f(4) unmark_mark [OF bit] ne unfolding c(5) alloc_blk_def by (auto simp: c(2))
      have "in_use ?sb (blk s'' dev) c \<longleftrightarrow> in_use ?sb ?v c" using ne c(2) by (simp add: v in_use_def)
      then have "bfree me dev r s'' = Inl (Panic ''freeing free block'')"
        using bfree_panic [OF f(2), of c] c kept_istate [OF f(3)] sb by simp
      then show ?thesis using r u c(3,4) inu f(1,2) v by (auto simp: c(2,5) alloc_blk_def)
    qed simp
  qed (use a in simp_all)
qed

theorem balloc_bfree_witness:
  "\<exists>s'. balloc 0 ROOTDEV demo_istate = Inr (48, s') \<and> blk s' ROOTDEV 48 = replicate BSIZE 0 \<and>
     in_use zero_sb (blk s' ROOTDEV) 48 \<and> (\<exists>s''. bfree 0 ROOTDEV 48 s' = Inr s'')"
proof -
  have e: "fs_sb demo_istate = zero_sb" "unat (sb_size zero_sb) = 2000" by (simp_all add: demo_istate_def zero_sb_def)
  have t: "txn 0 ROOTDEV {} (25 + 3) demo_istate" using demo_istate_txn by simp
  have n: "\<not> (\<forall>c < 2000. in_use zero_sb demo_disk c)" using demo_bitmap(2) [of 100] by (intro notI) (drule spec [of _ 100], simp)
  obtain r s' where r: "balloc 0 ROOTDEV demo_istate = Inr (r, s')" "r < sb_size zero_sb" "\<not> in_use zero_sb demo_disk (unat r)"
    "\<forall>e < unat r. in_use zero_sb demo_disk e" "blk s' ROOTDEV r = replicate BSIZE 0"
    "\<forall>e < 2000. in_use zero_sb (blk s' ROOTDEV) e \<longleftrightarrow> in_use zero_sb demo_disk e \<or> e = unat r"
    "\<exists>s''. bfree 0 ROOTDEV r s' = Inr s''"
    using balloc_bfree [OF t demo_free_ok] n unfolding e demo_istate_blk by blast
  have l: "unat r < 2000" using r(2) e(2) by (simp add: word_less_nat_alt)
  have "\<not> unat r < 48" using demo_bitmap(2) [OF l] r(3) by simp
  moreover have "\<not> 48 < unat r" using r(4) demo_bitmap(2) [of 48] by auto
  ultimately have "unat r = 48" by simp
  then have "r = 48" by (simp add: word_unat_eq_iff)
  then show ?thesis using r(1,5,6,7) by auto
qed

end
