(* ===== verification/LogSpace.thy ===== *)
theory LogSpace
  imports LogAtomic
begin

text \<open>
  The space of the log.  \<open>begin_op\<close> (\<open>kernel/log.c\<close>) admits an operation only if the log has room for
  \<open>MAXOPBLOCKS\<close> blocks of it and of every operation that is running.  The operations in progress are
  a list of the numbers of blocks that each may still write; the interleavings of their steps are a
  relation, and the reservation is its invariant.
\<close>

section \<open>The log record under the operations of the cache\<close>

lemma upd_buf_more [simp]: "bstate.more (upd_buf b f s) = bstate.more s"
  by (simp add: upd_buf_def)

lemma disk_rw_more [simp]: "bstate.more (disk_rw b w s) = bstate.more s"
  by (simp add: disk_rw_def Let_def)

lemma block_lock_more: "block_lock me b s = Inr (c, s') \<Longrightarrow> bstate.more s' = bstate.more s"
  by (auto simp: block_lock_def)

lemma bget_more: "bget me dev bn s = Inr (b, s') \<Longrightarrow> bstate.more s' = bstate.more s"
  by (auto simp: bget_def dest!: block_lock_more split: option.splits)

lemma bread_more: "bread me dev bn s = Inr (b, s') \<Longrightarrow> bstate.more s' = bstate.more s"
  by (auto simp: bread_def dest!: bget_more split: if_splits)

lemma bwrite_more: "bwrite me b s = Inr s' \<Longrightarrow> bstate.more s' = bstate.more s"
  by (auto simp: bwrite_def split: if_splits)

lemma brelse_more: "brelse me b s = Inr s' \<Longrightarrow> bstate.more s' = bstate.more s"
  by (auto simp: brelse_def releasesleep_def Let_def split: if_splits)

lemma bpin_more [simp]: "bstate.more (bpin b s) = bstate.more s" "bstate.more (bunpin b s) = bstate.more s"
  by (simp_all add: bpin_def bunpin_def)

lemma klog_more: "bstate.more s' = bstate.more s \<Longrightarrow> klog s' = klog (s :: 'a lstate_scheme)"
  by (cases s; cases s') simp

lemmas cache_klog = bread_more [THEN klog_more] bwrite_more [THEN klog_more] brelse_more [THEN klog_more]

lemma klog_frame [simp]:
  "klog (upd_buf b f s) = klog s" "klog (bpin b s) = klog s" "klog (bunpin b s) = klog s"
  "klog (upd_log g s) = g (klog s)" "klog (wakeup m c s) = klog s"
  by (simp_all add: upd_buf_def bpin_def bunpin_def upd_log_def wakeup_def)

lemma write_head_klog: "write_head me s = Inr s' \<Longrightarrow> klog s' = klog s"
  by (auto simp: write_head_def Let_def dest!: cache_klog)

lemma write_log_loop_klog: "write_log_loop me ts s = Inr s' \<Longrightarrow> klog s' = klog s"
proof (induction ts arbitrary: s)
  case (Cons t ts)
  then obtain s6 where "klog s6 = klog s" "write_log_loop me ts s6 = Inr s'"
    by (auto dest!: cache_klog)
  then show ?case using Cons.IH by simp
qed simp

lemma install_trans_loop_klog: "install_trans_loop me rec ts s = Inr s' \<Longrightarrow> klog s' = klog s"
proof (induction ts arbitrary: s)
  case (Cons t ts)
  then obtain s6 where "klog s6 = klog s" "install_trans_loop me rec ts s6 = Inr s'"
    by (auto simp: Let_def dest!: cache_klog split: if_splits)
  then show ?case using Cons.IH by simp
qed simp

lemma commit_klog:
  assumes "commit me s = Inr s'"
  shows "klog s' = (if 0 < lhn s then (klog s)\<lparr>log_lh := (log_lh (klog s))\<lparr>lh_n := 0\<rparr>\<rparr> else klog s)"
  using assms
  by (auto simp: commit_def write_log_def install_trans_def
      dest!: write_log_loop_klog install_trans_loop_klog write_head_klog split: if_splits)

section \<open>Operations in progress\<close>

text \<open>
  One rule for each way the log record can change: an operation is admitted, writes one of the blocks
  it may still write, or ends, perhaps with a commit; whatever else runs leaves the record alone.
\<close>

inductive op_step :: "lstate \<times> nat list \<Rightarrow> lstate \<times> nat list \<Rightarrow> bool" where
  begins: "begin_op s = Inr s' \<Longrightarrow> op_step (s, qs) (s', MAXOPBLOCKS # qs)"
| writes: "i < length qs \<Longrightarrow> qs ! i = Suc q \<Longrightarrow> log_write b s = Inr s' \<Longrightarrow> op_step (s, qs) (s', qs[i := q])"
| ends: "i < length qs \<Longrightarrow> end_op me s = Inr s' \<Longrightarrow> op_step (s, qs) (s', take i qs @ drop (Suc i) qs)"
| elsewhere: "klog s' = klog s \<Longrightarrow> op_step (s, qs) (s', qs)"

definition space_inv :: "lstate \<times> nat list \<Rightarrow> bool" where
  "space_inv = (\<lambda>(s, qs). log_outstanding (klog s) = int (length qs) \<and> 0 \<le> lhn s \<and>
     (\<forall>q \<in> set qs. q \<le> MAXOPBLOCKS) \<and> length qs * MAXOPBLOCKS \<le> LOGSIZE \<and>
     lhn s + int (sum_list qs) \<le> int LOGSIZE)"

lemma sum_list_bound: "(\<forall>q \<in> set qs. q \<le> (c :: nat)) \<Longrightarrow> sum_list qs \<le> length qs * c"
  by (induction qs) auto

lemma sum_list_remove: "i < length qs \<Longrightarrow> sum_list (take i qs @ drop (Suc i) qs) + qs ! i = sum_list (qs :: nat list)"
  using arg_cong [OF id_take_nth_drop, of i qs sum_list] by simp

lemma begin_op_space:
  assumes "space_inv (s, qs)" and "begin_op s = Inr s'"
  shows "space_inv (s', MAXOPBLOCKS # qs)"
proof -
  have k: "klog s' = (klog s)\<lparr>log_outstanding := log_outstanding (klog s) + 1\<rparr>"
    and g: "lhn s + (log_outstanding (klog s) + 1) * int MAXOPBLOCKS \<le> int LOGSIZE"
    using assms(2) by (auto simp: begin_op_def split: if_splits)
  have o: "log_outstanding (klog s) = int (length qs)" "0 \<le> lhn s" "\<forall>q \<in> set qs. q \<le> MAXOPBLOCKS"
    using assms(1) by (auto simp: space_inv_def)
  have "int (sum_list qs) \<le> int (length qs * MAXOPBLOCKS)"
    using sum_list_bound [OF o(3)] by (simp only: of_nat_le_iff)
  then have "lhn s + int (MAXOPBLOCKS + sum_list qs) \<le> int LOGSIZE"
    using g o(1) by (simp add: algebra_simps)
  moreover have "int (Suc (length qs) * MAXOPBLOCKS) \<le> int LOGSIZE"
    using g o(1,2) by (simp add: algebra_simps)
  then have "Suc (length qs) * MAXOPBLOCKS \<le> LOGSIZE" by (simp only: of_nat_le_iff)
  ultimately show ?thesis using k o by (simp add: space_inv_def)
qed

lemma log_write_space:
  assumes "space_inv (s, qs)" and "i < length qs" and "qs ! i = Suc q" and "log_write b s = Inr s'"
  shows "space_inv (s', qs[i := q])"
proof -
  have k: "log_outstanding (klog s') = log_outstanding (klog s)" "lhn s \<le> lhn s'" "lhn s' \<le> lhn s + 1"
    using assms(4) by (auto simp: log_write_def Let_def split: if_splits)
  have "sum_list (qs[i := q]) + qs ! i = sum_list qs + q"
    using assms(2) by (induction qs arbitrary: i) (auto simp: nth_Cons split: nat.split)
  then have "sum_list (qs[i := q]) + 1 = sum_list qs" using assms(3) by simp
  moreover have "\<forall>x \<in> set (qs[i := q]). x \<le> MAXOPBLOCKS"
  proof
    fix x assume "x \<in> set (qs[i := q])"
    then have "x = q \<or> x \<in> set qs" using set_update_subset_insert [of qs i q] by auto
    moreover have "Suc q \<le> MAXOPBLOCKS" using assms(1-3) nth_mem [of i qs] by (auto simp: space_inv_def)
    ultimately show "x \<le> MAXOPBLOCKS" using assms(1) by (auto simp: space_inv_def)
  qed
  ultimately show ?thesis using assms(1) k by (auto simp: space_inv_def)
qed

lemma end_op_klog:
  assumes "end_op me s = Inr s'"
  shows "log_outstanding (klog s') = log_outstanding (klog s) - 1" and "lhn s' = lhn s \<or> lhn s' = 0"
  using assms
  by (auto simp: end_op_def Let_def dest!: commit_klog split: if_splits)

lemma end_op_space:
  assumes "space_inv (s, qs)" and "i < length qs" and "end_op me s = Inr s'"
  shows "space_inv (s', take i qs @ drop (Suc i) qs)"
proof -
  let ?qs = "take i qs @ drop (Suc i) qs"
  have l: "length ?qs = length qs - 1" using assms(2) by simp
  have "set ?qs \<subseteq> set qs" using set_take_subset [of i qs] set_drop_subset [of "Suc i" qs] by auto
  moreover have "sum_list ?qs \<le> sum_list qs" using sum_list_remove [OF assms(2)] by linarith
  moreover have "length ?qs * MAXOPBLOCKS \<le> LOGSIZE"
    unfolding l
    by (rule order_trans [of _ "length qs * MAXOPBLOCKS"]) (use assms(1) in \<open>simp_all add: space_inv_def\<close>)
  moreover have "int (length ?qs) = int (length qs) - 1" unfolding l using assms(2) by auto
  ultimately show ?thesis
    using assms(1) end_op_klog [OF assms(3)] unfolding space_inv_def prod.case
    by (auto simp del: length_append sum_list_append set_append)
qed

lemma op_step_space: "op_step x y \<Longrightarrow> space_inv x \<Longrightarrow> space_inv y"
proof (induction rule: op_step.induct)
  case (elsewhere s' s qs)
  then show ?case by (simp add: space_inv_def)
qed (blast intro: begin_op_space log_write_space end_op_space)+

lemma op_steps_space: "op_step\<^sup>*\<^sup>* x y \<Longrightarrow> space_inv x \<Longrightarrow> space_inv y"
  by (induction rule: rtranclp_induct) (auto intro: op_step_space)

text \<open>C6: the log never overflows.  In every interleaving of operations that each write at most
\<open>MAXOPBLOCKS\<close> blocks, the blocks in the header and the blocks that the running operations may still
write fit into \<open>LOGSIZE\<close> together, at most three operations run, and a \<open>log_write\<close> by an operation
that is within its limit is accepted if the log area has \<open>LOGSIZE\<close> blocks besides the header block.
In an area of \<open>LOGSIZE\<close> blocks with the header, which is what \<open>mkfs\<close> makes, the last of those writes
panics.\<close>

theorem log_space_reserved:
  assumes "op_step\<^sup>*\<^sup>* (s0, []) (s, qs)" and "lhn s0 = 0" and "log_outstanding (klog s0) = 0"
  shows "lhn s + int (sum_list qs) \<le> int LOGSIZE \<and> length qs \<le> 3 \<and>
    (\<forall>q \<in> set qs. 0 < q \<and> int LOGSIZE < log_size (klog s) \<longrightarrow> (\<exists>s'. log_write b s = Inr s')) \<and>
    (lhn s = int LOGSIZE - 1 \<and> log_size (klog s) = int LOGSIZE \<longrightarrow>
       log_write b s = Inl (Panic ''too big a transaction''))"
proof -
  have "space_inv (s0, [])" using assms(2,3) by (simp add: space_inv_def)
  then have inv: "space_inv (s, qs)" using op_steps_space [OF assms(1)] by blast
  have acc: "\<exists>s'. log_write b s = Inr s'" if "q \<in> set qs" "0 < q" "int LOGSIZE < log_size (klog s)" for q
  proof -
    have "q \<le> sum_list qs" using that(1) by (rule member_le_sum_list) simp
    then have "lhn s < int LOGSIZE" using inv that(2) by (simp add: space_inv_def)
    moreover have "1 \<le> log_outstanding (klog s)" using inv that(1) by (cases qs) (auto simp: space_inv_def)
    ultimately show ?thesis using that(3) by (auto simp: log_write_def Let_def)
  qed
  have "lhn s + int (sum_list qs) \<le> int LOGSIZE" "length qs \<le> 3"
    using inv by (auto simp: space_inv_def params)
  moreover have "log_write b s = Inl (Panic ''too big a transaction'')"
    if "lhn s = int LOGSIZE - 1" "log_size (klog s) = int LOGSIZE" using that by (simp add: log_write_def)
  ultimately show ?thesis using acc by blast
qed

theorem log_space_reserved_witness:
  "\<exists>s qs. op_step\<^sup>*\<^sup>* (upd_log (\<lambda>l. l\<lparr>log_outstanding := 0\<rparr>) zero_lstate, []) (s, qs) \<and> qs = [10] \<and>
     lhn s + int (sum_list qs) \<le> int LOGSIZE"
proof -
  let ?s0 = "upd_log (\<lambda>l. l\<lparr>log_outstanding := 0\<rparr>) zero_lstate"
  have "begin_op ?s0 = Inr (upd_log (\<lambda>l. l\<lparr>log_outstanding := log_outstanding l + 1\<rparr>) ?s0)"
    by (simp add: begin_op_def) (simp add: zero_lstate_def params)
  then obtain s where "op_step\<^sup>*\<^sup>* (?s0, []) (s, [MAXOPBLOCKS])" using op_step.begins by blast
  moreover have "lhn ?s0 = 0" "log_outstanding (klog ?s0) = 0" by simp (simp_all add: zero_lstate_def)
  ultimately have "op_step\<^sup>*\<^sup>* (?s0, []) (s, [10]) \<and> lhn s + int (sum_list [10]) \<le> int LOGSIZE"
    using log_space_reserved [of ?s0 s "[MAXOPBLOCKS]" 0] by (simp add: params)
  then show ?thesis by blast
qed

end
