(* ===== verification/Printf.thy ===== *)
theory Printf
  imports ProcTable
begin

text \<open>
  Formatted output: the kernel's \<open>printf\<close> (\<open>kernel/printf.c\<close>), the user library's
  (\<open>user/printf.c\<close>) and the listing \<open>procdump\<close> of \<open>kernel/proc.c\<close>.  A format is the list of its
  bytes before the terminating nul; the result is the list of the bytes handed to \<open>consputc\<close> or
  to \<open>putc\<close>, in order.  Reading an argument of the wrong kind is a fault.
\<close>

section \<open>Digits\<close>

definition ch :: "char \<Rightarrow> uint8" where "ch c = of_char c"

definition str :: "string \<Rightarrow> bytes" where "str cs = map of_char cs"

definition digits :: bytes where "digits = str ''0123456789abcdef''"
definition udigits :: bytes where "udigits = str ''0123456789ABCDEF''"

text \<open>The do-while loop that fills \<open>buf\<close>, least significant digit first.\<close>

function printint_digits :: "bytes \<Rightarrow> uint32 \<Rightarrow> uint32 \<Rightarrow> bytes" where
  "printint_digits ds x base =
     (if unat base < 2 then []
      else
        let d = ds ! unat (x mod base); x = x div base in
        if x \<noteq> 0 then d # printint_digits ds x base else [d])"
  by pat_completeness auto
termination
proof (relation "measure (\<lambda>(ds, x, base). unat x)", goal_cases)
  case (2 ds x base d xa)
  then have "unat x div unat base < unat x"
    by (intro div_less_dividend) (auto simp: unat_gt_0 intro!: Nat.gr0I)
  then show ?case using 2 by (simp add: unat_div_distrib)
qed simp

declare printint_digits.simps [simp del]

definition printint :: "uint32 \<Rightarrow> uint32 \<Rightarrow> bool \<Rightarrow> bytes" where
  "printint xx base sign =
     (let sign = (sign \<and> sint xx < 0);
          x = (if sign then - xx else xx);
          buf = printint_digits digits x base;
          buf = (if sign then buf @ [ch CHR ''-''] else buf)
      in rev buf)"

definition uprintint :: "uint32 \<Rightarrow> uint32 \<Rightarrow> bool \<Rightarrow> bytes" where
  "uprintint xx base sign =
     (let neg = (sign \<and> sint xx < 0);
          x = (if neg then - xx else xx);
          buf = printint_digits udigits x base;
          buf = (if neg then buf @ [ch CHR ''-''] else buf)
      in rev buf)"

fun printptr_loop :: "bytes \<Rightarrow> nat \<Rightarrow> uint64 \<Rightarrow> bytes" where
  "printptr_loop ds 0 x = []"
| "printptr_loop ds (Suc n) x = ds ! unat (drop_bit 60 x) # printptr_loop ds n (push_bit 4 x)"

definition printptr :: "uint64 \<Rightarrow> bytes" where
  "printptr x = [ch CHR ''0'', ch CHR ''x''] @ printptr_loop digits 16 x"

definition uprintptr :: "uint64 \<Rightarrow> bytes" where
  "uprintptr x = [ch CHR ''0'', ch CHR ''x''] @ printptr_loop udigits 16 x"

section \<open>Arguments\<close>

datatype arg = Arg_int uint32 | Arg_long uint64 | Arg_str "bytes option"

fun va_int :: "arg list \<Rightarrow> (uint32 \<times> arg list) res" where
  "va_int (Arg_int n # ap) = Inr (n, ap)"
| "va_int _ = Inl (Fault ''va_arg'')"

fun va_long :: "arg list \<Rightarrow> (uint64 \<times> arg list) res" where
  "va_long (Arg_long n # ap) = Inr (n, ap)"
| "va_long _ = Inl (Fault ''va_arg'')"

fun va_str :: "arg list \<Rightarrow> (bytes \<times> arg list) res" where
  "va_str (Arg_str None # ap) = Inr (str ''(null)'', ap)"
| "va_str (Arg_str (Some xs) # ap) = Inr (xs, ap)"
| "va_str _ = Inl (Fault ''va_arg'')"

section \<open>The kernel's printf\<close>

definition printf_conv :: "uint8 \<Rightarrow> arg list \<Rightarrow> (bytes \<times> arg list) res" where
  "printf_conv c ap =
     (if c = ch CHR ''d'' then rbind (va_int ap) (\<lambda>(n, ap). Inr (printint n 10 True, ap))
      else if c = ch CHR ''x'' then rbind (va_int ap) (\<lambda>(n, ap). Inr (printint n 16 True, ap))
      else if c = ch CHR ''p'' then rbind (va_long ap) (\<lambda>(n, ap). Inr (printptr n, ap))
      else if c = ch CHR ''s'' then va_str ap
      else if c = ch CHR ''%'' then Inr ([ch CHR ''%''], ap)
      else Inr ([ch CHR ''%'', c], ap))"

fun printf :: "bytes \<Rightarrow> arg list \<Rightarrow> bytes res" where
  "printf [] ap = Inr []"
| "printf (c # fmt) ap =
     (if c \<noteq> ch CHR ''%'' then rbind (printf fmt ap) (\<lambda>out. Inr (c # out))
      else case fmt of
        [] \<Rightarrow> Inr []
      | c # fmt \<Rightarrow>
          rbind (printf_conv c ap) (\<lambda>(out1, ap).
          rbind (printf fmt ap) (\<lambda>out. Inr (out1 @ out))))"

section \<open>The user library's printf\<close>

definition vprintf_conv :: "uint8 \<Rightarrow> arg list \<Rightarrow> (bytes \<times> arg list) res" where
  "vprintf_conv c ap =
     (if c = ch CHR ''d'' then rbind (va_int ap) (\<lambda>(n, ap). Inr (uprintint n 10 True, ap))
      else if c = ch CHR ''l'' then rbind (va_long ap) (\<lambda>(n, ap). Inr (uprintint (ucast n) 10 False, ap))
      else if c = ch CHR ''x'' then rbind (va_int ap) (\<lambda>(n, ap). Inr (uprintint n 16 False, ap))
      else if c = ch CHR ''p'' then rbind (va_long ap) (\<lambda>(n, ap). Inr (uprintptr n, ap))
      else if c = ch CHR ''s'' then va_str ap
      else if c = ch CHR ''c'' then rbind (va_int ap) (\<lambda>(n, ap). Inr ([ucast n], ap))
      else if c = ch CHR ''%'' then Inr ([c], ap)
      else Inr ([ch CHR ''%'', c], ap))"

text \<open>\<open>state\<close> says whether the byte before was an open percent sign.\<close>

fun vprintf :: "bool \<Rightarrow> bytes \<Rightarrow> arg list \<Rightarrow> bytes res" where
  "vprintf state [] ap = Inr []"
| "vprintf state (c # fmt) ap =
     (if \<not> state
      then if c = ch CHR ''%'' then vprintf True fmt ap
           else rbind (vprintf False fmt ap) (\<lambda>out. Inr (c # out))
      else
        rbind (vprintf_conv c ap) (\<lambda>(out1, ap).
        rbind (vprintf False fmt ap) (\<lambda>out. Inr (out1 @ out))))"

definition fprintf :: "bytes \<Rightarrow> arg list \<Rightarrow> bytes res" where
  "fprintf fmt ap = vprintf False fmt ap"

section \<open>The process listing\<close>

fun state_name :: "procstate \<Rightarrow> bytes" where
  "state_name UNUSED = str ''unused''"
| "state_name USED = str ''used''"
| "state_name SLEEPING = str ''sleep ''"
| "state_name RUNNABLE = str ''runble''"
| "state_name RUNNING = str ''run   ''"
| "state_name ZOMBIE = str ''zombie''"

text \<open>The string that a pointer points to.\<close>

definition string_at :: "ptr \<Rightarrow> bytes res" where
  "string_at p = (case strlen p of Some n \<Rightarrow> Inr (map p [0..<n]) | None \<Rightarrow> Inl (Fault ''unterminated string''))"

fun procdump_loop :: "proc list \<Rightarrow> bytes res" where
  "procdump_loop [] = Inr []"
| "procdump_loop (p # ps) =
     (if p_state p = UNUSED then procdump_loop ps
      else
        rbind (string_at (p_name p)) (\<lambda>name.
        rbind (printf (str ''%d %s %s'')
                 [Arg_int (word_of_int (p_pid p)), Arg_str (Some (state_name (p_state p))), Arg_str (Some name)]) (\<lambda>out1.
        rbind (printf [10] []) (\<lambda>out2.
        rbind (procdump_loop ps) (\<lambda>out. Inr (out1 @ out2 @ out))))))"

definition procdump :: "'a pstate_scheme \<Rightarrow> bytes res" where
  "procdump s = rbind (printf [10] []) (\<lambda>out1. rbind (procdump_loop (procs s)) (\<lambda>out. Inr (out1 @ out)))"

end
