(* ===== verification/Uart.thy ===== *)
theory Uart
  imports Fs Printf
begin

text \<open>
  The UART driver (\<open>kernel/uart.c\<close>) and the console (\<open>kernel/console.c\<close>).  The device is the sequence
  of values that the next reads of its line status register and of its receive register return, and
  the sequence of the writes it has seen; both are given from outside.  When the readings are used up
  the line status reads as not ready.  The driver works on its own record and on the process table,
  whose sleepers it wakes.
\<close>

section \<open>The device\<close>

definition RHR :: nat where "RHR = 0"
definition THR :: nat where "THR = 0"
definition IER :: nat where "IER = 1"
definition IER_RX_ENABLE :: uint8 where "IER_RX_ENABLE = push_bit 0 1"
definition IER_TX_ENABLE :: uint8 where "IER_TX_ENABLE = push_bit 1 1"
definition FCR :: nat where "FCR = 2"
definition FCR_FIFO_ENABLE :: uint8 where "FCR_FIFO_ENABLE = push_bit 0 1"
definition FCR_FIFO_CLEAR :: uint8 where "FCR_FIFO_CLEAR = push_bit 1 3"
definition LCR :: nat where "LCR = 3"
definition LCR_EIGHT_BITS :: uint8 where "LCR_EIGHT_BITS = push_bit 0 3"
definition LCR_BAUD_LATCH :: uint8 where "LCR_BAUD_LATCH = push_bit 7 1"
definition LSR_RX_READY :: uint8 where "LSR_RX_READY = push_bit 0 1"
definition LSR_TX_IDLE :: uint8 where "LSR_TX_IDLE = push_bit 5 1"
definition UART_TX_BUF_SIZE :: nat where "UART_TX_BUF_SIZE = 32"

record uart =
  hw_lsr :: bytes
  hw_rhr :: bytes
  hw_writes :: "(nat \<times> uint8) list"
  uart_tx_buf :: bytes
  uart_tx_w :: uint64
  uart_tx_r :: uint64
  panicked :: bool

definition WriteReg :: "nat \<Rightarrow> uint8 \<Rightarrow> uart \<Rightarrow> uart" where
  "WriteReg reg v u = u\<lparr>hw_writes := hw_writes u @ [(reg, v)]\<rparr>"

definition read_lsr :: "uart \<Rightarrow> uint8 \<times> uart" where
  "read_lsr u = (case hw_lsr u of [] \<Rightarrow> (0, u) | x # xs \<Rightarrow> (x, u\<lparr>hw_lsr := xs\<rparr>))"

definition read_rhr :: "uart \<Rightarrow> uint8 \<times> uart" where
  "read_rhr u = (case hw_rhr u of [] \<Rightarrow> (0, u) | x # xs \<Rightarrow> (x, u\<lparr>hw_rhr := xs\<rparr>))"

definition uartinit :: "uart \<Rightarrow> uart" where
  "uartinit u =
     (let u = WriteReg IER 0 u;
          u = WriteReg LCR LCR_BAUD_LATCH u;
          u = WriteReg 0 3 u;
          u = WriteReg 1 0 u;
          u = WriteReg LCR LCR_EIGHT_BITS u;
          u = WriteReg FCR (FCR_FIFO_ENABLE OR FCR_FIFO_CLEAR) u
      in WriteReg IER (IER_TX_ENABLE OR IER_RX_ENABLE) u)"

section \<open>Transmitting\<close>

text \<open>\<open>uartstart\<close> sends buffered bytes while the device takes them.\<close>

function uartstart :: "nat option \<Rightarrow> uart \<Rightarrow> 'a pstate_scheme \<Rightarrow> uart \<times> 'a pstate_scheme" where
  "uartstart me u s =
     (if uart_tx_w u = uart_tx_r u then (u, s)
      else
        case hw_lsr u of
          [] \<Rightarrow> (u, s)
        | x # xs \<Rightarrow>
            let u = u\<lparr>hw_lsr := xs\<rparr> in
            if x AND LSR_TX_IDLE = 0 then (u, s)
            else
              let c = uart_tx_buf u ! (unat (uart_tx_r u) mod UART_TX_BUF_SIZE);
                  u = u\<lparr>uart_tx_r := uart_tx_r u + 1\<rparr>;
                  s = wakeup me Chan_uart s in
              uartstart me (WriteReg THR c u) s)"
  by pat_completeness auto
termination
  by (relation "measure (\<lambda>(me, u, s). length (hw_lsr u))") (auto simp: WriteReg_def)

declare uartstart.simps [simp del]

text \<open>What a call that may block returns: a value, or the progress at which the process sleeps.\<close>

datatype 'a blocked = Done 'a | Sleeping int

definition uart_full :: "uart \<Rightarrow> bool" where
  "uart_full u \<longleftrightarrow> uart_tx_w u = uart_tx_r u + of_nat UART_TX_BUF_SIZE"

definition uartputc :: "nat \<Rightarrow> uint8 \<Rightarrow> uart \<Rightarrow> 'a pstate_scheme \<Rightarrow> (unit blocked \<times> uart \<times> 'a pstate_scheme) res" where
  "uartputc me c u s =
     (if panicked u then Inl (Asleep ''panicked'')
      else if uart_full u then Inr (Sleeping 0, u, sleep me Chan_uart s)
      else
        let u = u\<lparr>uart_tx_buf := (uart_tx_buf u)[unat (uart_tx_w u) mod UART_TX_BUF_SIZE := c]\<rparr>;
            u = u\<lparr>uart_tx_w := uart_tx_w u + 1\<rparr>;
            (u, s) = uartstart (Some me) u s in
        Inr (Done (), u, s))"

text \<open>The synchronous variant spins on the line status; the readings say how often.\<close>

fun uart_wait_idle :: "bytes \<Rightarrow> bytes res" where
  "uart_wait_idle [] = Inl (Asleep ''spinning'')"
| "uart_wait_idle (x # xs) = (if x AND LSR_TX_IDLE = 0 then uart_wait_idle xs else Inr xs)"

definition uartputc_sync :: "uint8 \<Rightarrow> uart \<Rightarrow> uart res" where
  "uartputc_sync c u =
     (if panicked u then Inl (Asleep ''panicked'')
      else rbind (uart_wait_idle (hw_lsr u)) (\<lambda>xs. Inr (WriteReg THR c (u\<lparr>hw_lsr := xs\<rparr>))))"

definition uartgetc :: "uart \<Rightarrow> int \<times> uart" where
  "uartgetc u =
     (let (x, u) = read_lsr u in
      if x AND 1 \<noteq> 0 then let (c, u) = read_rhr u in (uint c, u) else (-1, u))"

section \<open>The console (kernel/console.c)\<close>

definition BACKSPACE :: int where "BACKSPACE = 0x100"
definition INPUT_BUF_SIZE :: nat where "INPUT_BUF_SIZE = 128"

definition CTRL :: "int \<Rightarrow> int" where "CTRL x = x - 64"

record cons =
  cons_buf :: bytes
  cons_r :: uint32
  cons_w :: uint32
  cons_e :: uint32

definition consputc :: "int \<Rightarrow> uart \<Rightarrow> uart res" where
  "consputc c u =
     (if c = BACKSPACE
      then rbind (uartputc_sync 8 u) (\<lambda>u. rbind (uartputc_sync 32 u) (\<lambda>u. uartputc_sync 8 u))
      else uartputc_sync (word_of_int c) u)"

text \<open>A byte is read at \<open>src + i\<close> and queued; a full queue blocks with \<open>i\<close> bytes sent.\<close>

fun consolewrite_loop ::
  "nat \<Rightarrow> src \<Rightarrow> nat \<Rightarrow> nat \<Rightarrow> uart \<Rightarrow> 'a pstate_scheme \<Rightarrow> (int blocked \<times> uart \<times> 'a pstate_scheme) res" where
  "consolewrite_loop me src i 0 u s = Inr (Done (int i), u, s)"
| "consolewrite_loop me src i (Suc k) u s =
     rbind (either_copyin me (src_add src i) 1 s) (\<lambda>(r, cs).
     if r = -1 then Inr (Done (int i), u, s)
     else
       rbind (uartputc me (hd cs) u s) (\<lambda>(b, u, s).
       case b of
         Sleeping _ \<Rightarrow> Inr (Sleeping (int i), u, s)
       | Done _ \<Rightarrow> consolewrite_loop me src (Suc i) k u s))"

definition consolewrite ::
  "nat \<Rightarrow> src \<Rightarrow> int \<Rightarrow> uart \<Rightarrow> 'a pstate_scheme \<Rightarrow> (int blocked \<times> uart \<times> 'a pstate_scheme) res" where
  "consolewrite me src n u s = consolewrite_loop me src 0 (nat n) u s"

text \<open>\<open>n\<close> bytes are still wanted of \<open>target\<close>; sleeping leaves \<open>n\<close> for the next round.\<close>

fun consoleread_loop ::
  "nat \<Rightarrow> dst \<Rightarrow> nat \<Rightarrow> nat \<Rightarrow> cons \<Rightarrow> 'a pstate_scheme \<Rightarrow> (int blocked \<times> cons \<times> 'a pstate_scheme) res" where
  "consoleread_loop me dst target 0 co s = Inr (Done (int target), co, s)"
| "consoleread_loop me dst target (Suc n) co s =
     (if cons_r co = cons_w co
      then if killed me s \<noteq> 0 then Inr (Done (-1), co, s)
           else Inr (Sleeping (int (Suc n)), co, sleep me Chan_cons s)
      else
        let c = cons_buf co ! (unat (cons_r co) mod INPUT_BUF_SIZE);
            co = co\<lparr>cons_r := cons_r co + 1\<rparr> in
        if uint c = CTRL 68
        then Inr (Done (int (target - Suc n)), (if Suc n < target then co\<lparr>cons_r := cons_r co - 1\<rparr> else co), s)
        else
          rbind (either_copyout me dst [c] s) (\<lambda>(r, s).
          if r = -1 then Inr (Done (int (target - Suc n)), co, s)
          else if c = 10 then Inr (Done (int (target - n)), co, s)
          else consoleread_loop me (dst_add dst 1) target n co s))"

definition consoleread ::
  "nat \<Rightarrow> dst \<Rightarrow> int \<Rightarrow> cons \<Rightarrow> 'a pstate_scheme \<Rightarrow> (int blocked \<times> cons \<times> 'a pstate_scheme) res" where
  "consoleread me dst n co s =
     (if n \<le> 0 then Inr (Done 0, co, s) else consoleread_loop me dst (nat n) (nat n) co s)"

text \<open>The line-kill loop goes back from \<open>e\<close> to \<open>w\<close>; \<open>k\<close> counts the characters between them.\<close>

fun kill_line :: "nat \<Rightarrow> cons \<Rightarrow> uart \<Rightarrow> (cons \<times> uart) res" where
  "kill_line 0 co u = Inr (co, u)"
| "kill_line (Suc k) co u =
     (if cons_e co \<noteq> cons_w co \<and> cons_buf co ! (unat (cons_e co - 1) mod INPUT_BUF_SIZE) \<noteq> 10
      then rbind (consputc BACKSPACE u) (\<lambda>u. kill_line k (co\<lparr>cons_e := cons_e co - 1\<rparr>) u)
      else Inr (co, u))"

text \<open>Formatted output goes to the console byte by byte.\<close>

fun consputs :: "bytes \<Rightarrow> uart \<Rightarrow> uart res" where
  "consputs [] u = Inr u"
| "consputs (c # cs) u = rbind (consputc (uint c) u) (\<lambda>u. consputs cs u)"

definition consoleintr ::
  "nat option \<Rightarrow> int \<Rightarrow> cons \<Rightarrow> uart \<Rightarrow> 'a pstate_scheme \<Rightarrow> (cons \<times> uart \<times> 'a pstate_scheme) res" where
  "consoleintr me c co u s =
     (if c = CTRL 80 then rbind (rbind (procdump s) (\<lambda>out. consputs out u)) (\<lambda>u. Inr (co, u, s))
      else if c = CTRL 85
      then rbind (kill_line (unat (cons_e co - cons_w co)) co u) (\<lambda>(co, u). Inr (co, u, s))
      else if c = CTRL 72 \<or> c = 0x7f
      then
        if cons_e co \<noteq> cons_w co
        then rbind (consputc BACKSPACE u) (\<lambda>u. Inr (co\<lparr>cons_e := cons_e co - 1\<rparr>, u, s))
        else Inr (co, u, s)
      else if c \<noteq> 0 \<and> cons_e co - cons_r co < of_nat INPUT_BUF_SIZE
      then
        let c = (if c = 13 then 10 else c) in
        rbind (consputc c u) (\<lambda>u.
        let co = co\<lparr>cons_buf := (cons_buf co)[unat (cons_e co) mod INPUT_BUF_SIZE := word_of_int c]\<rparr>;
            co = co\<lparr>cons_e := cons_e co + 1\<rparr> in
        if c = 10 \<or> c = CTRL 68 \<or> cons_e co - cons_r co = of_nat INPUT_BUF_SIZE
        then Inr (co\<lparr>cons_w := cons_e co\<rparr>, u, wakeup me Chan_cons s)
        else Inr (co, u, s))
      else Inr (co, u, s))"

text \<open>The receive loop of \<open>uartintr\<close>; every round uses up a reading of the line status.\<close>

lemma read_lsr_shrinks: "fst (read_lsr u) \<noteq> 0 \<Longrightarrow> length (hw_lsr (snd (read_lsr u))) < length (hw_lsr u)"
  by (auto simp: read_lsr_def split: list.splits)

fun uartintr_loop ::
  "nat \<Rightarrow> nat option \<Rightarrow> cons \<Rightarrow> uart \<Rightarrow> 'a pstate_scheme \<Rightarrow> (cons \<times> uart \<times> 'a pstate_scheme) res" where
  "uartintr_loop 0 me co u s = Inr (co, u, s)"
| "uartintr_loop (Suc k) me co u s =
     (let (c, u) = uartgetc u in
      if c = -1 then Inr (co, u, s)
      else rbind (consoleintr me c co u s) (\<lambda>(co, u, s). uartintr_loop k me co u s))"

definition uartintr ::
  "nat option \<Rightarrow> cons \<Rightarrow> uart \<Rightarrow> 'a pstate_scheme \<Rightarrow> (cons \<times> uart \<times> 'a pstate_scheme) res" where
  "uartintr me co u s =
     rbind (uartintr_loop (Suc (length (hw_lsr u))) me co u s) (\<lambda>(co, u, s).
     let (u, s) = uartstart me u s in Inr (co, u, s))"

end
