(* ===== verification/Pipe.thy ===== *)
theory Pipe
  imports Uart
begin

text \<open>
  Pipes (\<open>kernel/pipe.c\<close>): the structure, reading and writing.  The counters are 32-bit and wrap.
  A call that would block returns the number of bytes moved so far and the state in which the process
  sleeps; the caller's loop goes on from there when it runs again.
\<close>

definition PIPESIZE :: nat where "PIPESIZE = 512"

record pipe =
  pipe_data :: bytes
  nread :: uint32
  nwrite :: uint32
  readopen :: bool
  writeopen :: bool

definition pipe_full :: "pipe \<Rightarrow> bool" where
  "pipe_full pi \<longleftrightarrow> nwrite pi = nread pi + of_nat PIPESIZE"

definition pipe_empty :: "pipe \<Rightarrow> bool" where
  "pipe_empty pi \<longleftrightarrow> nread pi = nwrite pi"

text \<open>The two assignments \<open>pi->data[pi->nwrite++ % PIPESIZE] = ch\<close> and \<open>ch = pi->data[pi->nread++ % PIPESIZE]\<close>.\<close>

definition pipe_put :: "uint8 \<Rightarrow> pipe \<Rightarrow> pipe" where
  "pipe_put c pi = pi\<lparr>pipe_data := (pipe_data pi)[unat (nwrite pi) mod PIPESIZE := c], nwrite := nwrite pi + 1\<rparr>"

definition pipe_get :: "pipe \<Rightarrow> uint8 \<times> pipe" where
  "pipe_get pi = (pipe_data pi ! (unat (nread pi) mod PIPESIZE), pi\<lparr>nread := nread pi + 1\<rparr>)"

text \<open>\<open>k\<close> bytes of \<open>n\<close> are left; \<open>i\<close> of them are in the pipe.\<close>

fun pipewrite_loop ::
  "nat \<Rightarrow> uint64 \<Rightarrow> uint64 \<Rightarrow> nat \<Rightarrow> nat \<Rightarrow> pipe \<Rightarrow> 'a pstate_scheme \<Rightarrow> (int blocked \<times> pipe \<times> 'a pstate_scheme) res" where
  "pipewrite_loop me a addr i 0 pi s = Inr (Done (int i), pi, wakeup (Some me) (Chan_pipe_read a) s)"
| "pipewrite_loop me a addr i (Suc k) pi s =
     (if \<not> readopen pi \<or> killed me s \<noteq> 0 then Inr (Done (-1), pi, s)
      else if pipe_full pi
      then Inr (Sleeping (int i), pi, sleep me (Chan_pipe_write a) (wakeup (Some me) (Chan_pipe_read a) s))
      else
        rbind (copyin (p_pagetable (procs s ! me)) (addr + of_nat i) 1 s) (\<lambda>(r, cs).
        if r = -1 then Inr (Done (int i), pi, wakeup (Some me) (Chan_pipe_read a) s)
        else pipewrite_loop me a addr (Suc i) k (pipe_put (hd cs) pi) s))"

definition pipewrite ::
  "nat \<Rightarrow> uint64 \<Rightarrow> uint64 \<Rightarrow> int \<Rightarrow> pipe \<Rightarrow> 'a pstate_scheme \<Rightarrow> (int blocked \<times> pipe \<times> 'a pstate_scheme) res" where
  "pipewrite me a addr n pi s = pipewrite_loop me a addr 0 (nat n) pi s"

fun piperead_loop ::
  "nat \<Rightarrow> uint64 \<Rightarrow> nat \<Rightarrow> nat \<Rightarrow> pipe \<Rightarrow> 'a pstate_scheme \<Rightarrow> (int \<times> pipe \<times> 'a pstate_scheme) res" where
  "piperead_loop me addr i 0 pi s = Inr (int i, pi, s)"
| "piperead_loop me addr i (Suc k) pi s =
     (if pipe_empty pi then Inr (int i, pi, s)
      else
        let (c, pi) = pipe_get pi in
        rbind (copyout (p_pagetable (procs s ! me)) (addr + of_nat i) [c] s) (\<lambda>(r, s).
        if r = -1 then Inr (int i, pi, s) else piperead_loop me addr (Suc i) k pi s))"

definition piperead ::
  "nat \<Rightarrow> uint64 \<Rightarrow> uint64 \<Rightarrow> int \<Rightarrow> pipe \<Rightarrow> 'a pstate_scheme \<Rightarrow> (int blocked \<times> pipe \<times> 'a pstate_scheme) res" where
  "piperead me a addr n pi s =
     (if pipe_empty pi \<and> writeopen pi
      then if killed me s \<noteq> 0 then Inr (Done (-1), pi, s)
           else Inr (Sleeping 0, pi, sleep me (Chan_pipe_read a) s)
      else
        rbind (piperead_loop me addr 0 (nat n) pi s) (\<lambda>(i, pi, s).
        Inr (Done i, pi, wakeup (Some me) (Chan_pipe_write a) s)))"

end
