(* ===== verification/Ring.thy ===== *)
theory Ring
  imports Prelude
begin

text \<open>
  Ring buffers with free-running counters, as the pipe, the UART and the console use them: two words
  count the bytes ever read and written, and index the buffer modulo its size.  The locale is the
  contract of such a buffer; its lemmas say that it is a bounded first-in-first-out queue, also when
  the counters wrap around.
\<close>

definition ring_list :: "'b list \<Rightarrow> 'w :: len word \<Rightarrow> 'w word \<Rightarrow> 'b list" where
  "ring_list d r w = map (\<lambda>k. d ! ((unat r + k) mod length d)) [0..<unat (w - r)]"

lemma length_ring_list [simp]: "length (ring_list d r w) = unat (w - r)"
  by (simp add: ring_list_def)

lemma ring_list_Nil [simp]: "ring_list d r w = [] \<longleftrightarrow> r = w"
  by (metis length_ring_list length_0_conv unat_eq_zero right_minus_eq)

lemma unat_mod_dvd:
  assumes "n dvd 2 ^ LENGTH('w :: len)"
  shows "unat (r + of_nat k :: 'w word) mod n = (unat r + k) mod n"
proof -
  have "unat (r + of_nat k :: 'w word) = (unat r + k) mod 2 ^ LENGTH('w)"
    by (metis unat_of_nat of_nat_add of_nat_unat ucast_id take_bit_eq_mod unsigned_of_nat)
  then show ?thesis using assms by (simp add: mod_mod_cancel)
qed

lemma unat_add_1:
  assumes "unat (x :: 'w :: len word) + 1 < 2 ^ LENGTH('w)"
  shows "unat (x + 1) = unat x + 1"
proof -
  have "unat (x + 1) = (unat x + 1) mod 2 ^ LENGTH('w)" by (simp add: unat_word_ariths)
  then show ?thesis using assms by simp
qed

lemma mod_add_inj:
  fixes r k l n :: nat
  assumes "k < l" "l < k + n"
  shows "(r + k) mod n \<noteq> (r + l) mod n"
proof
  assume "(r + k) mod n = (r + l) mod n"
  then have "n dvd (r + l) - (r + k)" by (metis mod_eq_dvd_iff_nat assms(1) add_le_cancel_left less_imp_le)
  then have "n dvd l - k" by simp
  then show False using assms by (auto dest: dvd_imp_le)
qed

locale ring_buffer =
  fixes N :: nat and data :: "'s \<Rightarrow> 'b list" and rd :: "'s \<Rightarrow> 'w :: len word" and wr :: "'s \<Rightarrow> 'w word"
    and put :: "'b \<Rightarrow> 's \<Rightarrow> 's" and get :: "'s \<Rightarrow> 'b \<times> 's"
  assumes N_pos: "0 < N" and N_dvd: "N dvd 2 ^ LENGTH('w)" and N_less: "N < 2 ^ LENGTH('w)"
    and put_law: "data (put x s) = (data s)[unat (wr s) mod N := x]" "rd (put x s) = rd s"
      "wr (put x s) = wr s + 1"
    and get_law: "fst (get s) = data s ! (unat (rd s) mod N)" "data (snd (get s)) = data s"
      "rd (snd (get s)) = rd s + 1" "wr (snd (get s)) = wr s"
begin

lemma wr_eq: "wr s = rd s + of_nat (unat (wr s - rd s))"
  by simp

lemma count_full: "unat (wr s - rd s) \<le> N \<Longrightarrow> wr s = rd s + of_nat N \<longleftrightarrow> unat (wr s - rd s) = N"
proof
  assume "wr s = rd s + of_nat N"
  then have "wr s - rd s = of_nat N" by simp
  then show "unat (wr s - rd s) = N" using N_less by (simp add: unat_of_nat take_bit_nat_eq_self)
next
  assume "unat (wr s - rd s) = N"
  then show "wr s = rd s + of_nat N" using wr_eq [of s] by simp
qed

lemma count_put:
  assumes "unat (wr s - rd s) < N"
  shows "unat (wr (put x s) - rd (put x s)) = Suc (unat (wr s - rd s))"
proof -
  have "unat (wr s - rd s) + 1 < 2 ^ LENGTH('w)" using assms N_less by simp
  then have "unat (wr s - rd s + 1) = unat (wr s - rd s) + 1" by (rule unat_add_1)
  moreover have "wr s + 1 - rd s = wr s - rd s + 1" by (simp add: algebra_simps)
  ultimately show ?thesis by (simp only: put_law)
qed

lemma put_appends:
  assumes len: "length (data s) = N" and room: "unat (wr s - rd s) < N"
  shows "ring_list (data (put x s)) (rd (put x s)) (wr (put x s)) = ring_list (data s) (rd s) (wr s) @ [x]"
proof (rule nth_equalityI)
  show "length (ring_list (data (put x s)) (rd (put x s)) (wr (put x s))) = length (ring_list (data s) (rd s) (wr s) @ [x])"
    using count_put [OF room] by simp
next
  fix k assume k: "k < length (ring_list (data (put x s)) (rd (put x s)) (wr (put x s)))"
  then have k: "k < Suc (unat (wr s - rd s))" using count_put [OF room] by simp
  let ?n = "unat (wr s - rd s)"
  have w: "unat (wr s) mod N = (unat (rd s) + ?n) mod N"
    using unat_mod_dvd [OF N_dvd, of "rd s" ?n] wr_eq [of s] by simp
  have ne: "(unat (rd s) + k) mod N \<noteq> (unat (rd s) + ?n) mod N" if "k < ?n"
    using mod_add_inj [of k ?n N "unat (rd s)"] that room by simp
  show "ring_list (data (put x s)) (rd (put x s)) (wr (put x s)) ! k = (ring_list (data s) (rd s) (wr s) @ [x]) ! k"
  proof (cases "k = ?n")
    case True
    then show ?thesis using count_put [OF room] len N_pos w
      by (simp add: ring_list_def put_law nth_append)
  next
    case False
    then have "k < ?n" using k by simp
    then show ?thesis using count_put [OF room] len ne w
      by (simp add: ring_list_def put_law nth_append)
  qed
qed

lemma count_get:
  assumes "rd s \<noteq> wr s"
  shows "unat (wr (snd (get s)) - rd (snd (get s))) = unat (wr s - rd s) - 1"
proof -
  have "wr s - rd s \<noteq> 0" using assms by (metis right_minus_eq)
  then have "unat (wr s - rd s - 1) = unat (wr s - rd s) - 1" by (rule unat_minus_one)
  moreover have "wr s - (rd s + 1) = wr s - rd s - 1" by (simp add: algebra_simps)
  ultimately show ?thesis by (simp only: get_law)
qed

lemma get_head:
  assumes len: "length (data s) = N" and ne: "rd s \<noteq> wr s"
  shows "ring_list (data s) (rd s) (wr s) =
    fst (get s) # ring_list (data (snd (get s))) (rd (snd (get s))) (wr (snd (get s)))"
proof -
  let ?n = "unat (wr s - rd s)"
  have n: "0 < ?n" using ne by (metis right_minus_eq unat_gt_0)
  have step: "(unat (rd s) + 1 + k) mod N = (unat (rd s + 1) + k) mod N" for k
    using unat_mod_dvd [OF N_dvd, of "rd s" 1] by (metis mod_add_left_eq of_nat_1)
  show ?thesis
  proof (rule nth_equalityI)
    show "length (ring_list (data s) (rd s) (wr s)) =
      length (fst (get s) # ring_list (data (snd (get s))) (rd (snd (get s))) (wr (snd (get s))))"
      using count_get [OF ne] n by simp
  next
    fix k assume "k < length (ring_list (data s) (rd s) (wr s))"
    then have k: "k < ?n" by simp
    show "ring_list (data s) (rd s) (wr s) ! k =
      (fst (get s) # ring_list (data (snd (get s))) (rd (snd (get s))) (wr (snd (get s)))) ! k"
    proof (cases k)
      case 0
      then show ?thesis using k len by (simp add: ring_list_def get_law)
    next
      case (Suc j)
      then have "j < ?n - 1" using k by simp
      then show ?thesis using Suc k len count_get [OF ne] step [of j]
        by (simp add: ring_list_def get_law)
    qed
  qed
qed

end

end
