(* ===== verification/Frame.thy ===== *)
theory Frame
  imports ProcTable
begin

text \<open>
  Frame facts of the memory operations: whatever they do to physical memory, the free list and the
  page counts, they leave every other component of the kernel state alone, and no operation of
  \<open>copyin\<close> can panic.
\<close>

named_theorems frame \<open>the state outside physical memory is unchanged\<close>

lemma kalloc_more [frame]: "kalloc s = (p, s') \<Longrightarrow> kmem.more s' = kmem.more s"
  by (auto simp: kalloc_def Let_def)

lemma kfree_more [frame]: "kfree p s = Inr s' \<Longrightarrow> kmem.more s' = kmem.more s"
  by (auto simp: kfree_def Let_def split: if_splits)

lemma walk_loop_more: "walk_loop l pt va al s = (p, s') \<Longrightarrow> kmem.more s' = kmem.more s"
proof (induction l pt va al s arbitrary: p s' rule: walk_loop.induct)
  case (1 pt va al s)
  then show ?case by simp
next
  case (2 l pt va al s)
  then show ?case
    by (auto simp: Let_def split: if_splits prod.splits dest!: kalloc_more)
qed

lemma walk_more [frame]: "walk pt va al s = Inr (p, s') \<Longrightarrow> kmem.more s' = kmem.more s"
  by (auto simp: walk_def split: if_splits dest: walk_loop_more)

lemma walk_False: "walk pt va False s = Inr (p, s') \<Longrightarrow> s' = s"
proof -
  have "walk_loop l pt va False s = (p, s') \<Longrightarrow> s' = s" for l pt
    by (induction l arbitrary: pt) (auto simp: Let_def split: if_splits)
  then show "walk pt va False s = Inr (p, s') \<Longrightarrow> s' = s"
    by (auto simp: walk_def split: if_splits)
qed

lemma mappages_loop_more: "mappages_loop pt a lst pa perm s = Inr (r, s') \<Longrightarrow> kmem.more s' = kmem.more s"
proof (induction pt a lst pa perm s arbitrary: r s' rule: mappages_loop.induct)
  case (1 pt a lst pa perm s)
  from "1.prems" obtain p s1 where w: "walk pt a True s = Inr (p, s1)"
    by (subst (asm) mappages_loop.simps) auto
  have m: "kmem.more s1 = kmem.more s" using w by (rule walk_more)
  show ?case using "1.prems" w m "1.IH" [OF w refl]
    by (subst (asm) mappages_loop.simps) (auto simp: Let_def split: if_splits)
qed

lemma mappages_more [frame]: "mappages pt va sz pa perm s = Inr (r, s') \<Longrightarrow> kmem.more s' = kmem.more s"
  by (auto simp: mappages_def split: if_splits dest: mappages_loop_more)

lemma uvmunmap_loop_more: "uvmunmap_loop pt a e f s = Inr s' \<Longrightarrow> kmem.more s' = kmem.more s"
proof (induction pt a e f s arbitrary: s' rule: uvmunmap_loop.induct)
  case (1 pt a e f s)
  show ?case
  proof (cases "a < e")
    case False
    then show ?thesis using "1.prems" by (subst (asm) uvmunmap_loop.simps) simp
  next
    case True
    then obtain p s1 where w: "walk pt a False s = Inr (p, s1)"
      using "1.prems" by (subst (asm) uvmunmap_loop.simps) auto
    have s1: "s1 = s" using w by (rule walk_False)
    have step: "p \<noteq> 0" "load64 (pmem s1) p AND PTE_V \<noteq> 0" "PTE_FLAGS (load64 (pmem s1) p) \<noteq> PTE_V"
      and rest: "rbind (if f then kfree (PTE2PA (load64 (pmem s1) p)) s1 else Inr s1) (\<lambda>s.
        uvmunmap_loop pt (a + PGSIZE) e f (s\<lparr>pmem := store64 (pmem s) p 0\<rparr>)) = Inr s'"
      using "1.prems" True w by (subst (asm) uvmunmap_loop.simps, simp split: if_splits)+
    obtain s2 where k: "(if f then kfree (PTE2PA (load64 (pmem s1) p)) s1 else Inr s1) = Inr s2"
      and r: "uvmunmap_loop pt (a + PGSIZE) e f (s2\<lparr>pmem := store64 (pmem s2) p 0\<rparr>) = Inr s'"
      using rest by (auto simp only: rbind_eq_Inr)
    have "kmem.more s2 = kmem.more s" using k s1 by (auto split: if_splits dest: kfree_more)
    then show ?thesis using "1.IH" [OF True w refl _ _ _ k r] step by simp
  qed
qed

lemma uvmunmap_more [frame]: "uvmunmap pt va n f s = Inr s' \<Longrightarrow> kmem.more s' = kmem.more s"
  by (auto simp: uvmunmap_def split: if_splits dest: uvmunmap_loop_more)

lemma uvmdealloc_more [frame]: "uvmdealloc pt a b s = Inr (r, s') \<Longrightarrow> kmem.more s' = kmem.more s"
  by (auto simp: uvmdealloc_def Let_def split: if_splits dest: uvmunmap_more)

lemma uvmalloc_loop_more: "uvmalloc_loop pt a sz n x s = Inr (r, s') \<Longrightarrow> kmem.more s' = kmem.more s"
proof (induction pt a sz n x s arbitrary: r s' rule: uvmalloc_loop.induct)
  case (1 pt a oldsz newsz x s)
  obtain mem s1 where k: "kalloc s = (mem, s1)" by (cases "kalloc s")
  have m: "kmem.more s1 = kmem.more s" using k by (rule kalloc_more)
  note unf = "1.prems" [unfolded uvmalloc_loop.simps [of pt a oldsz newsz x s] k Let_def prod.case]
  consider "\<not> a < newsz" | "a < newsz" "mem = 0" | "a < newsz" "mem \<noteq> 0" by blast
  then show ?case
  proof cases
    case 1
    then show ?thesis using unf by simp
  next
    case 2
    then show ?thesis using unf m by (auto dest: uvmdealloc_more)
  next
    case 3
    define s2 where "s2 = s1\<lparr>pmem := memset (pmem s1) mem 0 4096\<rparr>"
    have m2: "kmem.more s2 = kmem.more s" using m by (simp add: s2_def)
    obtain r3 s3 where mp: "mappages pt a PGSIZE mem (PTE_R OR PTE_U OR x) s2 = Inr (r3, s3)"
      using unf 3 by (auto simp: s2_def)
    have m3: "kmem.more s3 = kmem.more s" using mappages_more [OF mp] m2 by simp
    show ?thesis
    proof (cases "r3 = 0")
      case True
      have "uvmalloc_loop pt (a + PGSIZE) oldsz newsz x s3 = Inr (r, s')"
        using unf 3 mp True by (simp add: s2_def)
      then show ?thesis using "1.IH" [OF 3(1) k [symmetric] refl 3(2) s2_def mp refl] True m3 by simp
    next
      case False
      then show ?thesis using unf 3 mp m3 by (auto simp: s2_def dest!: uvmdealloc_more kfree_more)
    qed
  qed
qed

lemma uvmalloc_more [frame]: "uvmalloc pt sz n x s = Inr (r, s') \<Longrightarrow> kmem.more s' = kmem.more s"
  by (auto simp: uvmalloc_def split: if_splits dest: uvmalloc_loop_more)

lemma freewalk_depth_more:
  "freewalk_depth d pt s = Inr s' \<Longrightarrow> kmem.more s' = kmem.more s"
  "freewalk_loop d is pt s = Inr s' \<Longrightarrow> kmem.more s' = kmem.more s"
proof (induction d pt s and d "is" pt s arbitrary: s' and s' rule: freewalk_depth_freewalk_loop.induct)
  case (2 d pt s)
  then show ?case by (auto dest!: kfree_more)
next
  case (4 d i "is" pt s)
  define pte where "pte = load64 (pmem s) (pt + 8 * of_nat i)"
  note unf = "4.prems" [unfolded freewalk_loop.simps Let_def, folded pte_def]
  consider "pte AND PTE_V \<noteq> 0 \<and> pte AND (PTE_R OR PTE_W OR PTE_X) = 0"
    | "\<not> (pte AND PTE_V \<noteq> 0 \<and> pte AND (PTE_R OR PTE_W OR PTE_X) = 0)" "pte AND PTE_V = 0"
    using unf by (cases "pte AND PTE_V = 0") (auto split: if_splits)
  then show ?case
  proof cases
    case 1
    then obtain s1 where s1: "freewalk_depth d (PTE2PA pte) s = Inr s1"
      and r: "freewalk_loop d is pt (s1\<lparr>pmem := store64 (pmem s1) (pt + 8 * of_nat i) 0\<rparr>) = Inr s'"
      using unf by auto
    show ?thesis using "4.IH"(1) [OF pte_def 1 s1] "4.IH"(2) [OF pte_def 1 s1 r] by simp
  next
    case 2
    then show ?thesis using unf "4.IH"(3) [OF pte_def 2(1)] by simp
  qed
qed auto

lemma uvmfree_more [frame]: "uvmfree pt sz s = Inr s' \<Longrightarrow> kmem.more s' = kmem.more s"
  by (auto simp: uvmfree_def freewalk_def split: if_splits dest!: uvmunmap_more freewalk_depth_more(1))

lemma uvmcopy_loop_more: "uvmcopy_loop old new i sz s = Inr (r, s') \<Longrightarrow> kmem.more s' = kmem.more s"
proof (induction old new i sz s arbitrary: r s' rule: uvmcopy_loop.induct)
  case (1 old new i sz s)
  show ?case
  proof (cases "i < sz")
    case False
    then show ?thesis using "1.prems" by (subst (asm) uvmcopy_loop.simps) simp
  next
    case True
    then obtain p s1 where w: "walk old i False s = Inr (p, s1)"
      using "1.prems" by (subst (asm) uvmcopy_loop.simps) auto
    have s1: "s1 = s" using w by (rule walk_False)
    note unf = "1.prems" [unfolded uvmcopy_loop.simps [of old new i sz s] w Let_def rbind_Inr prod.case]
    define pa where "pa = PTE2PA (load64 (pmem s1) p)"
    define s2 where "s2 = (if load64 (pmem s1) p AND PTE_W \<noteq> 0
      then s1\<lparr>pmem := store64 (pmem s1) p ((load64 (pmem s1) p XOR PTE_W) OR PTE_COW)\<rparr> else s1)"
    have m2: "kmem.more s2 = kmem.more s" by (simp add: s2_def s1)
    have p: "p \<noteq> 0" "load64 (pmem s1) p AND PTE_V \<noteq> 0" using unf True by (auto split: if_splits)
    note unf2 = unf [folded pa_def, folded s2_def]
    obtain r3 s3 where mp: "mappages new i PGSIZE pa (PTE_FLAGS (load64 (pmem s2) p)) s2 = Inr (r3, s3)"
      using unf2 True p by auto
    have m3: "kmem.more s3 = kmem.more s" using mappages_more [OF mp] m2 by simp
    show ?thesis
    proof (cases "r3 = 0")
      case r3: True
      have pa: "\<not> PHYSTOP div PGSIZE \<le> pa div PGSIZE"
        and r: "uvmcopy_loop old new (i + PGSIZE) sz (s3\<lparr>page_refcnt := (page_refcnt s3)(pa div PGSIZE :=
          page_refcnt s3 (pa div PGSIZE) + 1)\<rparr>) = Inr (r, s')"
        using unf2 True p mp r3 by (auto split: if_splits)
      show ?thesis using "1.IH" [OF True w refl _ _ pa_def s2_def mp refl _ pa r] p r3 m3 by simp
    next
      case False
      then show ?thesis using unf2 True p mp m3 by (auto dest!: uvmunmap_more)
    qed
  qed
qed

lemma uvmcopy_more [frame]: "uvmcopy old new sz s = Inr (r, s') \<Longrightarrow> kmem.more s' = kmem.more s"
  by (auto simp: uvmcopy_def dest: uvmcopy_loop_more)

lemma copyout_cow_more [frame]: "copyout_cow pt va pte s = Inr (r, s') \<Longrightarrow> kmem.more s' = kmem.more s"
  by (auto simp: copyout_cow_def Let_def split: if_splits prod.splits
      dest!: kalloc_more uvmunmap_more mappages_more kfree_more)

lemma copyout_more [frame]: "copyout pt va src s = Inr (r, s') \<Longrightarrow> kmem.more s' = kmem.more s"
proof (induction pt va src s arbitrary: r s' rule: copyout.induct)
  case (1 pt va src s)
  note unf = "1.prems" [unfolded copyout.simps [of pt va src s] Let_def]
  define va0 where "va0 = PGROUNDDOWN va"
  note unf = unf [folded va0_def]
  show ?case
  proof (cases "src = [] \<or> MAXVA \<le> va0")
    case True
    then show ?thesis using unf by (auto split: if_splits)
  next
    case False
    then obtain p s1 where w: "walk pt va0 False s = Inr (p, s1)" using unf by auto
    have s1: "s1 = s" using w by (rule walk_False)
    define e where "e = load64 (pmem s1) p"
    note unf2 = unf [unfolded w rbind_Inr prod.case, folded e_def]
    show ?thesis
    proof (cases "p = 0 \<or> e AND PTE_V = 0 \<or> e AND PTE_U = 0 \<or> (e AND PTE_W = 0 \<and> e AND PTE_COW = 0)")
      case True
      then show ?thesis using unf2 False s1 by (auto split: if_splits)
    next
      case ok: False
      obtain r2 s2 where c: "(if e AND PTE_W = 0 \<and> e AND PTE_COW \<noteq> 0
          then copyout_cow pt va0 p s1 else Inr (0, s1)) = Inr (r2, s2)"
        using unf2 False ok by (auto split: if_splits)
      have m2: "kmem.more s2 = kmem.more s"
        using c s1 by (auto split: if_splits dest: copyout_cow_more)
      note unf3 = unf2 [unfolded c rbind_Inr prod.case]
      show ?thesis
      proof (cases "r2 = 0")
        case True
        define n where "n = min (4096 - unat (va - va0)) (length src)"
        define pa0 where "pa0 = PTE2PA (load64 (pmem s2) p)"
        have r: "copyout pt (va0 + PGSIZE) (drop n src)
            (s2\<lparr>pmem := mem_write (pmem s2) (pa0 + (va - va0)) (take n src)\<rparr>) = Inr (r, s')"
          using unf3 False ok True by (auto simp: n_def pa0_def)
        show ?thesis
          using "1.IH" [OF _ va0_def _ w refl _ e_def _ c refl _ pa0_def n_def r] False ok True m2 by simp
      next
        case r2: False
        then show ?thesis using unf3 False ok m2 by (auto split: if_splits)
      qed
    qed
  qed
qed

lemma walkaddr_total: "\<exists>pa. walkaddr pt va s = Inr pa"
  by (cases "walk_loop 2 pt va False s") (auto simp: walkaddr_def walk_def not_le)

lemma copyin_total: "\<exists>r bs. copyin pt va n s = Inr (r, bs)"
proof (induction pt va n s rule: copyin.induct)
  case (1 pt va n s)
  obtain pa where pa: "walkaddr pt (PGROUNDDOWN va) s = Inr pa" using walkaddr_total by blast
  show ?case
  proof (cases "n = 0 \<or> pa = 0")
    case True
    then show ?thesis using pa by (subst copyin.simps) (auto simp: Let_def)
  next
    case False
    then obtain r bs where "copyin pt (PGROUNDDOWN va + PGSIZE) (n - min (4096 - unat (va - PGROUNDDOWN va)) n) s = Inr (r, bs)"
      using "1.IH" [OF _ refl pa _ refl] by blast
    then show ?thesis using False pa by (subst copyin.simps) (simp add: Let_def)
  qed
qed

text \<open>What lies outside physical memory, read off the record extension.\<close>

lemma more_procs [frame]: "kmem.more s' = kmem.more s \<Longrightarrow> procs s' = procs s"
  by (cases s; cases s') simp

end
