(* ===== verification/VmTables.thy ===== *)
theory VmTables
  imports Vm
begin

text \<open>
  The structure of page tables in memory.  Every page-table page has one role: the root of the
  table it belongs to, its level, and the prefix of the virtual page numbers it translates.  The
  invariant says that a valid entry of an inner page points to the page with the next role, so
  no page is reached twice; it gives, for every user entry, the frame rule that \<open>walk\<close>,
  \<open>mappages\<close> and \<open>uvmunmap\<close> need: a store to one entry changes the translation of one page of
  one address space and of nothing else.
\<close>

section \<open>Slots of a table\<close>

lemma slot_offset:
  assumes "page_aligned p" and "i < 512" and "j < 8"
  shows "unat (p + 8 * of_nat i + of_nat j) = unat p + 8 * i + j"
proof -
  have "8 * of_nat i + of_nat j = (of_nat (8 * i + j) :: uint64)" by simp
  moreover have "unat p + (8 * i + j) < 2 ^ 64" using page_room [of p] assms by simp
  ultimately show ?thesis
    using unat_add_of_nat64 [of p "8 * i + j"] by (simp add: add.assoc)
qed

lemma slot_region:
  assumes "page_aligned p" and "i < 512"
  shows "x \<in> region (p + 8 * of_nat i) 8 \<longleftrightarrow>
    unat p + 8 * i \<le> unat x \<and> unat x < unat p + 8 * i + 8"
proof
  assume "x \<in> region (p + 8 * of_nat i) 8"
  then obtain j where "j < 8" "x = p + 8 * of_nat i + of_nat j" by (rule region_elem)
  then show "unat p + 8 * i \<le> unat x \<and> unat x < unat p + 8 * i + 8"
    using slot_offset [OF assms] by simp
next
  assume h: "unat p + 8 * i \<le> unat x \<and> unat x < unat p + 8 * i + 8"
  have b: "unat (p + 8 * of_nat i) = unat p + 8 * i" using slot_offset [OF assms, of 0] by simp
  then have "unat (x - (p + 8 * of_nat i)) = unat x - (unat p + 8 * i)"
    using h by (simp add: unat_arith_simps)
  then show "x \<in> region (p + 8 * of_nat i) 8" using h by (simp add: in_region) linarith
qed

lemma slot_in_page:
  assumes "page_aligned p" and "i < 512"
  shows "region (p + 8 * of_nat i) 8 \<subseteq> region p 4096"
proof
  fix x assume "x \<in> region (p + 8 * of_nat i) 8"
  then have h: "unat p + 8 * i \<le> unat x" "unat x < unat p + 8 * i + 8"
    using assms by (auto simp: slot_region)
  then have "unat (x - p) = unat x - unat p" by (simp add: unat_arith_simps)
  then show "x \<in> region p 4096" using h assms(2) by (simp add: in_region)
qed

lemma slots_disjoint:
  assumes "page_aligned p" and "page_aligned q" and "i < 512" and "j < 512"
    and "p \<noteq> q \<or> i \<noteq> j"
  shows "region (p + 8 * of_nat i) 8 \<inter> region (q + 8 * of_nat j) 8 = {}"
proof (cases "p = q")
  case True
  then show ?thesis using assms by (auto simp: slot_region)
next
  case False
  then show ?thesis
    using pages_disjoint [OF assms(1,2)] slot_in_page [OF assms(1,3)] slot_in_page [OF assms(2,4)]
    by auto
qed

definition slot :: "uint64 \<Rightarrow> nat \<Rightarrow> uint64" where
  "slot p i = p + 8 * of_nat i"

definition px :: "nat \<Rightarrow> uint64 \<Rightarrow> nat" where
  "px l va = unat (PX l va)"

lemma px_less [simp]: "px l va < 512"
  by (simp add: px_def unat_PX_less)

lemma pte_addr_slot: "pte_addr p l va = slot p (px l va)"
  by (simp add: pte_addr_def slot_def px_def)

lemma px_eq: "px l va = unat va div 2 ^ (12 + 9 * l) mod 512"
proof -
  have "PX l va = take_bit 9 (drop_bit (PXSHIFT l) va)"
    by (simp add: PX_def px_mask take_bit_eq_mask)
  moreover have "take_bit 64 (unat va) = unat va"
    using unat_less64 [of va] by (rule take_bit_nat_eq_self)
  ultimately have "unat (PX l va) = take_bit 9 (drop_bit (PXSHIFT l) (unat va))"
    by (simp add: unsigned_take_bit_eq unsigned_drop_bit_eq)
  then show ?thesis
    by (simp add: px_def take_bit_eq_mod drop_bit_eq_div PXSHIFT_def)
qed

text \<open>The prefix of the page number that a table of level \<open>l\<close> translates.\<close>

definition prefix :: "nat \<Rightarrow> uint64 \<Rightarrow> nat" where
  "prefix l va = unat va div 2 ^ (21 + 9 * l)"

lemma prefix_step: "512 * prefix (Suc l) va + px (Suc l) va = prefix l va"
proof -
  have "unat va div 2 ^ (21 + 9 * Suc l) = unat va div 2 ^ (21 + 9 * l) div 512"
    by (simp add: div_mult2_eq [symmetric] power_add)
  moreover have "12 + 9 * Suc l = 21 + 9 * l" by simp
  ultimately show ?thesis
    by (simp add: prefix_def px_eq)
qed

lemma prefix_root: "va < MAXVA \<Longrightarrow> prefix 2 va = 0"
  by (simp add: prefix_def MAXVA_eq word_less_nat_alt)

lemma prefix_px_inject:
  assumes "prefix 0 va = prefix 0 va'" and "px 0 va = px 0 va'"
  shows "PGROUNDDOWN va = PGROUNDDOWN va'"
proof -
  have e: "512 * prefix 0 v + px 0 v = unat v div 4096" for v
  proof -
    have "unat v div 2097152 = unat v div 4096 div 512"
      using div_mult2_eq [of "unat v" 4096 512] by simp
    then show ?thesis by (simp add: prefix_def px_eq)
  qed
  have "unat va div 4096 = unat va' div 4096"
    unfolding e [symmetric] assms by (rule refl)
  then show ?thesis by (simp add: word_unat_eq_iff unat_PGROUNDDOWN)
qed

lemma px_PGROUNDDOWN [simp]: "px l (PGROUNDDOWN va) = px l va"
proof -
  have "PX l (PGROUNDDOWN va) = PX l va"
    by (rule bit_eqI) (auto simp: bit_PX bit_PGROUNDDOWN PXSHIFT_def)
  then show ?thesis by (simp add: px_def)
qed

lemma slot_frame:
  assumes "page_aligned p" and "page_aligned q" and "i < 512" and "j < 512" and "p \<noteq> q \<or> i \<noteq> j"
  shows "load64 (store64 m (slot p i) v) (slot q j) = load64 m (slot q j)"
  using assms slots_disjoint [of q p j i]
  by (intro load64_store64_disjoint) (auto simp: slot_def)

lemma slot_same [simp]: "load64 (store64 m (slot p i) v) (slot p i) = v"
  by (simp add: slot_def)

lemma slot_cong:
  assumes "page_aligned p" and "i < 512" and "\<And>x. x \<in> region p 4096 \<Longrightarrow> m x = m' x"
  shows "load64 m (slot p i) = load64 m' (slot p i)"
  using assms slot_in_page [of p i] by (intro load64_cong) (auto simp: slot_def)

lemma slot_zero:
  assumes "page_aligned p" and "i < 512" and "\<And>x. x \<in> region p 4096 \<Longrightarrow> m x = 0"
  shows "load64 m (slot p i) = 0"
proof -
  have "load64 m (slot p i) = load64 (\<lambda>_. 0) (slot p i)" using assms by (rule slot_cong)
  also have "\<dots> = 0" by (simp add: load64_def mem_read_def upt_rec [of 0] upt_rec [of "Suc _"])
  finally show ?thesis .
qed

lemma slot_outside:
  "page_aligned p \<Longrightarrow> i < 512 \<Longrightarrow> x \<notin> region p 4096 \<Longrightarrow> store64 m (slot p i) v x = m x"
  using slot_in_page [of p i] by (intro store64_outside) (auto simp: slot_def)

lemma PGROUNDDOWN_slot: "page_aligned p \<Longrightarrow> i < 512 \<Longrightarrow> PGROUNDDOWN (slot p i) = p"
  using slot_in_page [of p i] region_offset [of 0 8 "slot p i"]
  by (auto simp: slot_def page_member)

lemma slot_inject:
  assumes "page_aligned p" and "page_aligned q" and "i < 512" and "j < 512" and "slot p i = slot q j"
  shows "p = q \<and> i = j"
proof -
  have "PGROUNDDOWN (slot p i) = p" "PGROUNDDOWN (slot q j) = q"
    using PGROUNDDOWN_slot [OF assms(1,3)] PGROUNDDOWN_slot [OF assms(2,4)] by simp_all
  then have "p = q" using assms(5) by simp
  moreover have "unat (slot p i) = unat p + 8 * i"
    using slot_offset [OF assms(1,3), of 0] by (simp add: slot_def)
  moreover have "unat (slot q j) = unat q + 8 * j"
    using slot_offset [OF assms(2,4), of 0] by (simp add: slot_def)
  ultimately have "unat p + 8 * i = unat p + 8 * j" using assms(5) by metis
  with \<open>p = q\<close> show ?thesis by simp
qed

lemma slot_nonzero: "page_aligned q \<Longrightarrow> q \<noteq> 0 \<Longrightarrow> i < 512 \<Longrightarrow> slot q i \<noteq> 0"
  using PGROUNDDOWN_slot [of q i] by (auto simp: PGROUNDDOWN_def)

section \<open>Translation\<close>

text \<open>
  The entry found for \<open>va\<close> below a table of level \<open>l\<close>, 0 when the walk stops early; and the slot
  it is stored in.
\<close>

fun pte_at :: "memory \<Rightarrow> nat \<Rightarrow> uint64 \<Rightarrow> uint64 \<Rightarrow> uint64" where
  "pte_at m 0 p va = load64 m (slot p (px 0 va))"
| "pte_at m (Suc l) p va =
     (let e = load64 m (slot p (px (Suc l) va)) in
      if e AND PTE_V \<noteq> 0 then pte_at m l (PTE2PA e) va else 0)"

fun pt_leaf :: "memory \<Rightarrow> nat \<Rightarrow> uint64 \<Rightarrow> uint64 \<Rightarrow> uint64 option" where
  "pt_leaf m 0 p va = Some p"
| "pt_leaf m (Suc l) p va =
     (let e = load64 m (slot p (px (Suc l) va)) in
      if e AND PTE_V \<noteq> 0 then pt_leaf m l (PTE2PA e) va else None)"

definition pte_of :: "memory \<Rightarrow> uint64 \<Rightarrow> uint64 \<Rightarrow> uint64" where
  "pte_of m r va = pte_at m 2 r va"

lemma pte_at_leaf:
  "pte_at m l p va = (case pt_leaf m l p va of None \<Rightarrow> 0 | Some q \<Rightarrow> load64 m (slot q (px 0 va)))"
  by (induction l arbitrary: p) (auto simp: Let_def)

lemma walk_loop_False:
  "walk_loop l p va False s =
     (case pt_leaf (pmem s) l p va of None \<Rightarrow> 0 | Some q \<Rightarrow> slot q (px 0 va), s)"
  by (induction l arbitrary: p) (auto simp: Let_def pte_addr_slot)

lemma pte_at_PGROUNDDOWN [simp]: "pte_at m l p (PGROUNDDOWN va) = pte_at m l p va"
  by (induction l arbitrary: p) (auto simp: Let_def)

lemma pt_leaf_pg: "pt_leaf m l p (PGROUNDDOWN va) = pt_leaf m l p va"
  by (induction l arbitrary: p) (auto simp: Let_def)

lemma pte_of_PGROUNDDOWN [simp]: "pte_of m r (PGROUNDDOWN va) = pte_of m r va"
  by (simp add: pte_of_def)

section \<open>Roles of table pages\<close>

type_synonym roles = "uint64 \<rightharpoonup> uint64 \<times> nat \<times> nat"

definition is_root :: "roles \<Rightarrow> uint64 \<Rightarrow> bool" where
  "is_root tp r \<longleftrightarrow> tp r = Some (r, 2, 0)"

definition pt_typed :: "roles \<Rightarrow> memory \<Rightarrow> bool" where
  "pt_typed tp m \<longleftrightarrow>
     (\<forall>p r l k. tp p = Some (r, l, k) \<longrightarrow> page_aligned p \<and> is_root tp r \<and> l \<le> 2) \<and>
     (\<forall>p r l k i. tp p = Some (r, Suc l, k) \<longrightarrow> i < 512 \<longrightarrow> load64 m (slot p i) AND PTE_V \<noteq> 0 \<longrightarrow>
        tp (PTE2PA (load64 m (slot p i))) = Some (r, l, 512 * k + i) \<and>
        PTE_FLAGS (load64 m (slot p i)) = PTE_V)"

lemma pt_typed_page: "pt_typed tp m \<Longrightarrow> tp p = Some (r, l, k) \<Longrightarrow> page_aligned p \<and> is_root tp r \<and> l \<le> 2"
  unfolding pt_typed_def by blast

lemma pt_typed_child:
  "pt_typed tp m \<Longrightarrow> tp p = Some (r, Suc l, k) \<Longrightarrow> i < 512 \<Longrightarrow> load64 m (slot p i) AND PTE_V \<noteq> 0 \<Longrightarrow>
   tp (PTE2PA (load64 m (slot p i))) = Some (r, l, 512 * k + i) \<and>
   PTE_FLAGS (load64 m (slot p i)) = PTE_V"
  unfolding pt_typed_def by blast

lemma pt_typed_aligned: "pt_typed tp m \<Longrightarrow> p \<in> dom tp \<Longrightarrow> page_aligned p"
  by (auto dest: pt_typed_page)

text \<open>The walk from a page of the right role ends at the page of level 0 with the prefix of \<open>va\<close>.\<close>

lemma pt_leaf_role:
  assumes "pt_typed tp m" and "tp p = Some (r, l, prefix l va)" and "pt_leaf m l p va = Some q"
  shows "tp q = Some (r, 0, prefix 0 va)"
  using assms(2,3)
proof (induction l arbitrary: p)
  case (Suc l)
  let ?e = "load64 m (slot p (px (Suc l) va))"
  from Suc.prems(2) have v: "?e AND PTE_V \<noteq> 0" "pt_leaf m l (PTE2PA ?e) va = Some q"
    by (auto simp: Let_def split: if_splits)
  have "tp (PTE2PA ?e) = Some (r, l, prefix l va)"
    using pt_typed_child [OF assms(1) Suc.prems(1) px_less v(1)] by (simp add: prefix_step)
  then show ?case using v(2) by (rule Suc.IH)
qed simp

lemma root_role: "is_root tp r \<Longrightarrow> va < MAXVA \<Longrightarrow> tp r = Some (r, 2, prefix 2 va)"
  by (simp add: is_root_def prefix_root)

text \<open>Memory that agrees on the table pages translates alike.\<close>

lemma role_slot_cong:
  assumes "pt_typed tp m" and "tp p = Some x" and "i < 512"
    and "\<And>p x. p \<in> dom tp \<Longrightarrow> x \<in> region p 4096 \<Longrightarrow> m' x = m x"
  shows "load64 m' (slot p i) = load64 m (slot p i)"
  using assms(2-4) pt_typed_aligned [OF assms(1)] by (intro slot_cong) (blast intro: domI)+

lemma pt_typed_cong:
  assumes "pt_typed tp m" and "\<And>p x. p \<in> dom tp \<Longrightarrow> x \<in> region p 4096 \<Longrightarrow> m' x = m x"
  shows "pt_typed tp m'"
proof -
  note eq = role_slot_cong [OF assms(1) _ _ assms(2)]
  then show ?thesis using assms(1) unfolding pt_typed_def by simp
qed

lemma pt_leaf_cong:
  assumes "pt_typed tp m" and "tp p = Some (r, l, k)"
    and "\<And>q r l k i. tp q = Some (r, Suc l, k) \<Longrightarrow> i < 512 \<Longrightarrow> load64 m' (slot q i) = load64 m (slot q i)"
  shows "pt_leaf m' l p va = pt_leaf m l p va"
  using assms(2)
proof (induction l arbitrary: p k)
  case (Suc l)
  then have "load64 m' (slot p (px (Suc l) va)) = load64 m (slot p (px (Suc l) va))"
    by (intro assms(3)) auto
  then show ?case
    using Suc pt_typed_child [OF assms(1) Suc.prems px_less [of "Suc l" va]] by (auto simp: Let_def)
qed simp

lemma pte_at_cong:
  assumes "pt_typed tp m" and "tp p = Some (r, l, k)"
    and "\<And>p x. p \<in> dom tp \<Longrightarrow> x \<in> region p 4096 \<Longrightarrow> m' x = m x"
  shows "pte_at m' l p va = pte_at m l p va"
  using assms(2)
proof (induction l arbitrary: p k)
  case 0
  then show ?case using role_slot_cong [OF assms(1) _ _ assms(3)] by simp
next
  case (Suc l)
  then have "load64 m' (slot p (px (Suc l) va)) = load64 m (slot p (px (Suc l) va))"
    using role_slot_cong [OF assms(1) _ _ assms(3)] by simp
  then show ?case
    using Suc pt_typed_child [OF assms(1) Suc.prems px_less [of "Suc l" va]] by (auto simp: Let_def)
qed

section \<open>Storing an entry\<close>

text \<open>A store to an entry of level 0 changes that one translation.\<close>

lemma store_leaf_typed:
  assumes "pt_typed tp m" and "tp q = Some (r, 0, k)" and "i < 512"
  shows "pt_typed tp (store64 m (slot q i) v)"
proof -
  have "load64 (store64 m (slot q i) v) (slot p j) = load64 m (slot p j)"
    if "tp p = Some (r', Suc l, k')" "j < 512" for p r' l k' j
    using that assms pt_typed_page [OF assms(1)] by (intro slot_frame) auto
  then show ?thesis using assms(1) unfolding pt_typed_def by simp
qed

lemma store_leaf_pte:
  assumes t: "pt_typed tp m" and q: "tp q = Some (r, 0, prefix 0 va)"
    and r: "is_root tp r" "va < MAXVA" and q': "pt_leaf m 2 r va = Some q"
    and r': "is_root tp r'" "va' < MAXVA"
  shows "pte_of (store64 m (slot q (px 0 va)) v) r' va' =
     (if r' = r \<and> PGROUNDDOWN va' = PGROUNDDOWN va then v else pte_of m r' va')"
proof -
  let ?m = "store64 m (slot q (px 0 va)) v"
  have al: "page_aligned q" using t q pt_typed_page by blast
  have walk: "pt_leaf ?m 2 r' va' = pt_leaf m 2 r' va'"
  proof (rule pt_leaf_cong [OF t root_role [OF r']])
    fix p r l k i assume "tp p = Some (r, Suc l, k)" "i < (512 :: nat)"
    then show "load64 ?m (slot p i) = load64 m (slot p i)"
      using q al pt_typed_page [OF t] by (intro slot_frame) auto
  qed
  show ?thesis
  proof (cases "pt_leaf m 2 r' va'")
    case None
    then have "\<not> (r' = r \<and> PGROUNDDOWN va' = PGROUNDDOWN va)"
      using q' by (metis option.distinct(1) pt_leaf_pg)
    then show ?thesis using None walk by (auto simp: pte_of_def pte_at_leaf)
  next
    case (Some p)
    then have p: "tp p = Some (r', 0, prefix 0 va')" "page_aligned p"
      using pt_leaf_role [OF t root_role [OF r']] pt_typed_page [OF t] by auto
    show ?thesis
    proof (cases "p = q \<and> px 0 va' = px 0 va")
      case True
      then have "r' = r" "prefix 0 va' = prefix 0 va" using p q by auto
      then show ?thesis using True Some walk prefix_px_inject [of va' va]
        by (simp add: pte_of_def pte_at_leaf)
    next
      case False
      have "\<not> (r' = r \<and> PGROUNDDOWN va' = PGROUNDDOWN va)"
        using False Some q' by (metis option.inject px_PGROUNDDOWN pt_leaf_pg)
      then show ?thesis using False Some walk al p(2)
        by (auto simp: pte_of_def pte_at_leaf slot_frame)
    qed
  qed
qed

section \<open>Adding a table page\<close>

lemma flag_bits:
  "e AND PTE_V = 0 \<longleftrightarrow> \<not> bit e 0" "e AND PTE_R = 0 \<longleftrightarrow> \<not> bit e 1"
  "e AND PTE_W = 0 \<longleftrightarrow> \<not> bit e 2" "e AND PTE_X = 0 \<longleftrightarrow> \<not> bit e 3"
  "e AND PTE_U = 0 \<longleftrightarrow> \<not> bit e 4" "e AND PTE_COW = 0 \<longleftrightarrow> \<not> bit e 8"
  unfolding pte_bits bit_iff_and_push_bit_not_eq_0 by simp_all

lemma bit_flags [simp]:
  "bit PTE_V n \<longleftrightarrow> n = 0" "bit PTE_R n \<longleftrightarrow> n = 1" "bit PTE_W n \<longleftrightarrow> n = 2"
  "bit PTE_X n \<longleftrightarrow> n = 3" "bit PTE_U n \<longleftrightarrow> n = 4" "bit PTE_COW n \<longleftrightarrow> n = 8"
  unfolding pte_bits bit_push_bit_iff bit_1_iff by (auto simp: possible_bit_word)

lemma PTE_FLAGS_V [simp]: "PTE_FLAGS PTE_V = PTE_V"
  by (rule bit_eqI) (auto simp: bit_PTE_FLAGS)

lemma PTE_V_nonzero [simp]: "PTE_V \<noteq> 0"
  by (simp add: PTE_V_def)

lemma dir_entry:
  assumes "page_aligned pg"
  shows "PTE2PA (PA2PTE pg OR PTE_V) = pg" and "PTE_FLAGS (PA2PTE pg OR PTE_V) = PTE_V"
    and "(PA2PTE pg OR PTE_V) AND PTE_V \<noteq> 0"
  using assms by simp_all

lemma add_table:
  assumes t: "pt_typed tp m" and q: "tp q = Some (r, Suc l, k)" and i: "i < 512"
    and e: "load64 m (slot q i) AND PTE_V = 0" and pg: "tp pg = None" "page_aligned pg"
    and m1: "\<And>x. x \<in> region pg 4096 \<Longrightarrow> m1 x = 0" "\<And>x. x \<notin> region pg 4096 \<Longrightarrow> m1 x = m x"
  defines "m' \<equiv> store64 m1 (slot q i) (PA2PTE pg OR PTE_V)"
    and "tp' \<equiv> tp(pg \<mapsto> (r, l, 512 * k + i))"
  shows "pt_typed tp' m'"
    and "\<And>p r l k va. tp p = Some (r, l, k) \<Longrightarrow> pte_at m' l p va = pte_at m l p va"
    and "\<And>va. pte_at m' l pg va = 0"
    and "\<And>p j. p \<in> dom tp \<Longrightarrow> j < 512 \<Longrightarrow> p \<noteq> q \<or> j \<noteq> i \<Longrightarrow> load64 m' (slot p j) = load64 m (slot p j)"
proof -
  have al: "page_aligned p" if "p \<in> dom tp" for p using that pt_typed_aligned [OF t] by blast
  have qpg: "q \<noteq> pg" "page_aligned q" using q pg al by auto
  have new: "load64 m' (slot q i) = PA2PTE pg OR PTE_V" by (simp add: m'_def)
  show old: "load64 m' (slot p j) = load64 m (slot p j)"
    if "p \<in> dom tp" "j < 512" "p \<noteq> q \<or> j \<noteq> i" for p j
  proof -
    have "p \<noteq> pg" "page_aligned p" using that(1) pg(1) al by auto
    then have "load64 m1 (slot p j) = load64 m (slot p j)"
      using pages_disjoint [of p pg] pg(2) that(2) m1(2) by (intro slot_cong) auto
    then show ?thesis using \<open>page_aligned p\<close> that qpg i
      by (simp add: m'_def slot_frame [of q p i j] del: disj_not1) (auto simp: slot_frame)
  qed
  have zero: "load64 m' (slot pg j) = 0" if "j < 512" for j
    using that qpg i pg m1(1) slot_zero [OF pg(2) that] by (simp add: m'_def slot_frame)
  show zero_pg: "\<And>va. pte_at m' l pg va = 0" by (cases l) (simp_all add: zero)
  show "pt_typed tp' m'"
    unfolding pt_typed_def
  proof (intro conjI allI impI, goal_cases)
    case (1 p r' l' k')
    then show ?case using pg(2) al by (auto simp: tp'_def split: if_splits)
  next
    case (2 p r' l' k')
    have "is_root tp r''" if "is_root tp r'' \<or> tp p = Some (r'', l', k')" for r''
      using that pt_typed_page [OF t] by blast
    moreover have "is_root tp r" using pt_typed_page [OF t q] by simp
    moreover have "is_root tp' r''" if "is_root tp r''" for r''
      using that pg(1) by (auto simp: is_root_def tp'_def)
    ultimately show ?case using 2 by (auto simp: tp'_def split: if_splits)
  next
    case (3 p r' l' k')
    then show ?case using pt_typed_page [OF t] pt_typed_page [OF t q]
      by (fastforce simp: tp'_def split: if_splits)
  next
    case (4 p r' l' k' j)
    show ?case
    proof (cases "p = q \<and> j = i")
      case True
      then show ?thesis using 4 q new qpg dir_entry [OF pg(2)] by (auto simp: tp'_def)
    next
      case False
      then have "p \<noteq> pg" using 4 zero by auto
      then have p: "tp p = Some (r', Suc l', k')" using 4(1) by (simp add: tp'_def)
      then have "load64 m' (slot p j) = load64 m (slot p j)"
        using False 4(2) by (intro old) auto
      then show ?thesis using pt_typed_child [OF t p 4(2)] 4(3) pg(1) by (auto simp: tp'_def)
    qed
  next
    case (5 p r' l' k' j)
    show ?case
    proof (cases "p = q \<and> j = i")
      case True
      then show ?thesis using new dir_entry [OF pg(2)] by simp
    next
      case False
      then have "p \<noteq> pg" using 5 zero by auto
      then have p: "tp p = Some (r', Suc l', k')" using 5(1) by (simp add: tp'_def)
      then have "load64 m' (slot p j) = load64 m (slot p j)"
        using False 5(2) by (intro old) auto
      then show ?thesis using pt_typed_child [OF t p 5(2)] 5(3) by simp
    qed
  qed
  show "pte_at m' l' p va = pte_at m l' p va" if "tp p = Some (r', l', k')" for p r' l' k' va
    using that
  proof (induction l' arbitrary: p k')
    case 0
    then have "p \<noteq> q" using q by auto
    then show ?case using 0 by (simp add: old domI)
  next
    case (Suc l')
    show ?case
    proof (cases "p = q \<and> px (Suc l') va = i")
      case True
      then have "l' = l" using Suc.prems q by simp
      then show ?thesis using True new e zero_pg dir_entry [OF pg(2)] by (simp add: Let_def)
    next
      case False
      then have "load64 m' (slot p (px (Suc l') va)) = load64 m (slot p (px (Suc l') va))"
        using Suc.prems by (intro old) auto
      then show ?thesis
        using Suc.IH pt_typed_child [OF t Suc.prems px_less [of "Suc l'" va]] by (auto simp: Let_def)
    qed
  qed
qed

section \<open>The invariant of tables and free pages\<close>

definition pt_inv :: "roles \<Rightarrow> 'a kmem_scheme \<Rightarrow> uint64 list \<Rightarrow> bool" where
  "pt_inv tp s fr \<longleftrightarrow> kmem_inv s fr \<and> pt_typed tp (pmem s) \<and>
     (\<forall>p \<in> dom tp. ram_page s p \<and> p \<notin> set fr \<and> page_refcnt s (p div PGSIZE) = 1)"

text \<open>
  What a walk that allocates may do: turn free pages into empty inner tables.  Every translation,
  every byte outside the tables and the free pages, and every count of another page is kept.
\<close>

definition pt_frame ::
  "roles \<Rightarrow> uint64 list \<Rightarrow> 'a kmem_scheme \<Rightarrow> roles \<Rightarrow> uint64 list \<Rightarrow> 'a kmem_scheme \<Rightarrow> bool" where
  "pt_frame tp fr s tp' fr' s' \<longleftrightarrow>
     tp \<subseteq>\<^sub>m tp' \<and> (\<exists>ns. fr = ns @ fr' \<and> dom tp' = dom tp \<union> set ns) \<and>
     (\<forall>p r k. tp' p = Some (r, 2, k) \<longrightarrow> tp p = Some (r, 2, k)) \<and>
     (\<forall>x. PGROUNDDOWN x \<notin> dom tp \<union> set fr \<longrightarrow> pmem s' x = pmem s x) \<and>
     (\<forall>p. ram_page s p \<longrightarrow> p \<notin> set fr \<longrightarrow> page_refcnt s' (p div PGSIZE) = page_refcnt s (p div PGSIZE)) \<and>
     kern_end s' = kern_end s \<and> kmem.more s' = kmem.more s"

definition tables_grow ::
  "roles \<Rightarrow> uint64 list \<Rightarrow> 'a kmem_scheme \<Rightarrow> roles \<Rightarrow> uint64 list \<Rightarrow> 'a kmem_scheme \<Rightarrow> bool" where
  "tables_grow tp fr s tp' fr' s' \<longleftrightarrow> pt_frame tp fr s tp' fr' s' \<and>
     (\<forall>p r l k i. tp p = Some (r, Suc l, k) \<longrightarrow> i < 512 \<longrightarrow> load64 (pmem s) (slot p i) AND PTE_V \<noteq> 0 \<longrightarrow>
        load64 (pmem s') (slot p i) = load64 (pmem s) (slot p i)) \<and>
     (\<forall>p r l k va. tp p = Some (r, l, k) \<longrightarrow> pte_at (pmem s') l p va = pte_at (pmem s) l p va)"

lemma pt_invD:
  assumes "pt_inv tp s fr"
  shows "kmem_inv s fr" and "pt_typed tp (pmem s)" and "p \<in> dom tp \<Longrightarrow> ram_page s p"
    and "p \<in> dom tp \<Longrightarrow> p \<notin> set fr" and "p \<in> dom tp \<Longrightarrow> page_refcnt s (p div PGSIZE) = 1"
  using assms by (auto simp: pt_inv_def)

lemma map_leD: "m \<subseteq>\<^sub>m m' \<Longrightarrow> m x = Some y \<Longrightarrow> m' x = Some y"
  by (auto simp: map_le_def dom_def)

lemma tables_growD:
  assumes "tables_grow tp fr s tp' fr' s'"
  shows "tp p = Some y \<Longrightarrow> tp' p = Some y"
    and "tp' p = Some (r, 2, k) \<Longrightarrow> tp p = Some (r, 2, k)"
    and "PGROUNDDOWN x \<notin> dom tp \<Longrightarrow> PGROUNDDOWN x \<notin> set fr \<Longrightarrow> pmem s' x = pmem s x"
    and "ram_page s p \<Longrightarrow> p \<notin> set fr \<Longrightarrow> page_refcnt s' (p div PGSIZE) = page_refcnt s (p div PGSIZE)"
    and "kern_end s' = kern_end s" and "kmem.more s' = kmem.more s"
    and "tp p = Some (r, l, k) \<Longrightarrow> pte_at (pmem s') l p va = pte_at (pmem s) l p va"
    and "set fr' \<subseteq> set fr" and "p \<in> dom tp' \<Longrightarrow> p \<in> dom tp \<or> p \<in> set fr"
    and "tp p = Some (r, Suc l, k) \<Longrightarrow> i < 512 \<Longrightarrow> load64 (pmem s) (slot p i) AND PTE_V \<noteq> 0 \<Longrightarrow>
      load64 (pmem s') (slot p i) = load64 (pmem s) (slot p i)"
proof -
  note g = assms [unfolded tables_grow_def pt_frame_def]
  from g have le: "tp \<subseteq>\<^sub>m tp'" by simp
  show "tp p = Some y \<Longrightarrow> tp' p = Some y" using map_leD [OF le] by blast
  show "tp' p = Some (r, 2, k) \<Longrightarrow> tp p = Some (r, 2, k)" using g by simp
  show "PGROUNDDOWN x \<notin> dom tp \<Longrightarrow> PGROUNDDOWN x \<notin> set fr \<Longrightarrow> pmem s' x = pmem s x" using g by blast
  show "ram_page s p \<Longrightarrow> p \<notin> set fr \<Longrightarrow> page_refcnt s' (p div PGSIZE) = page_refcnt s (p div PGSIZE)"
    using g by blast
  show "kern_end s' = kern_end s" "kmem.more s' = kmem.more s" using g by simp_all
  show "tp p = Some (r, l, k) \<Longrightarrow> pte_at (pmem s') l p va = pte_at (pmem s) l p va" using g by blast
  show "set fr' \<subseteq> set fr" "p \<in> dom tp' \<Longrightarrow> p \<in> dom tp \<or> p \<in> set fr" using g by auto
  show "tp p = Some (r, Suc l, k) \<Longrightarrow> i < 512 \<Longrightarrow> load64 (pmem s) (slot p i) AND PTE_V \<noteq> 0 \<Longrightarrow>
      load64 (pmem s') (slot p i) = load64 (pmem s) (slot p i)" using g by blast
qed

lemma pt_frame_refl [intro]: "pt_frame tp fr s tp fr s"
  by (simp add: pt_frame_def)

lemma tables_grow_refl [intro]: "tables_grow tp fr s tp fr s"
  by (simp add: tables_grow_def pt_frame_refl)

lemma pt_frame_trans:
  assumes a: "pt_frame tp fr s tp1 fr1 s1" and b: "pt_frame tp1 fr1 s1 tp2 fr2 s2"
  shows "pt_frame tp fr s tp2 fr2 s2"
proof -
  note fa = a [unfolded pt_frame_def] and fb = b [unfolded pt_frame_def]
  obtain ns ns1 where ns: "fr = ns @ fr1" "dom tp1 = dom tp \<union> set ns"
    "fr1 = ns1 @ fr2" "dom tp2 = dom tp1 \<union> set ns1"
    using fa fb by blast
  have rp: "ram_page s1 p = ram_page s p" for p using fa by (simp add: ram_page_def)
  show ?thesis
    unfolding pt_frame_def
  proof (intro conjI allI impI)
    show "tp \<subseteq>\<^sub>m tp2" using fa fb map_le_trans by blast
    show "\<exists>ns. fr = ns @ fr2 \<and> dom tp2 = dom tp \<union> set ns"
      using ns by (intro exI [of _ "ns @ ns1"]) auto
    show "pmem s2 x = pmem s x" if "PGROUNDDOWN x \<notin> dom tp \<union> set fr" for x
    proof -
      have "PGROUNDDOWN x \<notin> dom tp1 \<union> set fr1" using that ns by auto
      then show ?thesis using that fa fb by simp
    qed
    show "page_refcnt s2 (p div PGSIZE) = page_refcnt s (p div PGSIZE)"
      if "ram_page s p" "p \<notin> set fr" for p
    proof -
      have "p \<notin> set fr1" using that ns by auto
      then show ?thesis using that rp fa fb by simp
    qed
  qed (use fa fb in auto)
qed

lemma tables_grow_frame: "tables_grow tp fr s tp' fr' s' \<Longrightarrow> pt_frame tp fr s tp' fr' s'"
  by (simp add: tables_grow_def)

lemma tables_grow_trans:
  assumes a: "tables_grow tp fr s tp1 fr1 s1" and b: "tables_grow tp1 fr1 s1 tp2 fr2 s2"
  shows "tables_grow tp fr s tp2 fr2 s2"
  unfolding tables_grow_def
proof (intro conjI allI impI)
  show "pt_frame tp fr s tp2 fr2 s2"
    by (rule pt_frame_trans [OF tables_grow_frame [OF a] tables_grow_frame [OF b]])
  show "pte_at (pmem s2) l p va = pte_at (pmem s) l p va" if "tp p = Some (r, l, k)" for p r l k va
    using that tables_growD(1,7) [OF a] tables_growD(7) [OF b] by metis
  show "load64 (pmem s2) (slot p i) = load64 (pmem s) (slot p i)"
    if "tp p = Some (r, Suc l, k)" "i < 512" "load64 (pmem s) (slot p i) AND PTE_V \<noteq> 0" for p r l k i
    using that tables_growD(1,10) [OF a] tables_growD(10) [OF b] by metis
qed

lemma tables_grow_pte:
  "tables_grow tp fr s tp' fr' s' \<Longrightarrow> is_root tp r \<Longrightarrow> pte_of (pmem s') r va = pte_of (pmem s) r va"
  using tables_growD(7) [of tp fr s tp' fr' s' r r 2 0] by (simp add: pte_of_def is_root_def)

lemma pt_frame_root: "pt_frame tp fr s tp' fr' s' \<Longrightarrow> is_root tp' r \<longleftrightarrow> is_root tp r"
proof -
  assume "pt_frame tp fr s tp' fr' s'"
  then have "tp \<subseteq>\<^sub>m tp'" "\<And>p r k. tp' p = Some (r, 2, k) \<Longrightarrow> tp p = Some (r, 2, k)"
    by (simp_all add: pt_frame_def)
  then show "is_root tp' r \<longleftrightarrow> is_root tp r" using map_leD [of tp tp' r] unfolding is_root_def by blast
qed

section \<open>Walks that allocate\<close>

lemma kalloc_none:
  assumes "pt_inv tp s []"
  shows "\<exists>s'. kalloc s = (0, s') \<and> pt_inv tp s' [] \<and> tables_grow tp [] s tp [] s' \<and> pmem s' = pmem s"
proof -
  let ?s = "s\<lparr>page_refcnt := (page_refcnt s)(0 := 1)\<rparr>"
  note inv = pt_invD [OF assms]
  have k: "kalloc s = (0, ?s)" and kinv: "kmem_inv ?s []"
    using kalloc_empty [OF inv(1)] by simp_all
  have keep: "page_refcnt ?s (p div PGSIZE) = page_refcnt s (p div PGSIZE)" if "ram_page s p" for p
    using that inv(1) ram_page_nonzero [of s p] by (simp add: kmem_inv_def)
  have "pt_inv tp ?s []"
    using inv kinv keep by (auto simp: pt_inv_def ram_page_def)
  moreover have "tables_grow tp [] s tp [] ?s"
    using keep by (simp add: tables_grow_def pt_frame_def)
  ultimately show ?thesis using k by (intro exI [of _ ?s]) simp
qed

lemma kalloc_table:
  assumes inv: "pt_inv tp s (pg # ps)" and q: "tp q = Some (r, Suc l, k)" and i: "i < 512"
    and l: "l < 2" and e: "load64 (pmem s) (slot q i) AND PTE_V = 0"
  defines "tp' \<equiv> tp(pg \<mapsto> (r, l, 512 * k + i))"
  shows "\<exists>s1. kalloc s = (pg, s1) \<and> pg \<noteq> 0 \<and>
    (let s' = s1\<lparr>pmem := store64 (memset (pmem s1) pg 0 4096) (slot q i) (PA2PTE pg OR PTE_V)\<rparr> in
      pt_inv tp' s' ps \<and> tables_grow tp (pg # ps) s tp' ps s' \<and> (\<forall>va. pte_at (pmem s') l pg va = 0))"
proof -
  note D = pt_invD [OF inv]
  obtain s1 where s1: "kalloc s = (pg, s1)" using kalloc_page(1) [OF D(1)] by (metis prod.collapse)
  note K = kalloc_page [OF D(1), unfolded s1 snd_conv]
  define m1 m' where "m1 = memset (pmem s1) pg 0 4096"
    and "m' = store64 m1 (slot q i) (PA2PTE pg OR PTE_V)"
  let ?s = "s1\<lparr>pmem := m'\<rparr>"
  have pg: "page_aligned pg" "tp pg = None" "pg \<noteq> 0"
    using K(3) D(4) [of pg] D(1) ram_page_nonzero [of s pg]
    by (auto simp: ram_page_def kmem_inv_def)
  have qa: "page_aligned q" using pt_typed_page [OF D(2) q] by simp
  have zero: "m1 x = 0" if "x \<in> region pg 4096" for x
    using that by (simp add: m1_def memset_page_inside)
  have keep: "m1 x = pmem s x" if "x \<notin> region pg 4096" for x
    using that K(6) by (simp add: m1_def memset_page_outside)
  note A = add_table [OF D(2) q i e pg(2,1) zero keep, folded m'_def tp'_def]
  have out: "m' x = pmem s x" if "PGROUNDDOWN x \<noteq> pg" "PGROUNDDOWN x \<noteq> q" for x
    using that pg(1) qa i keep by (simp add: m'_def slot_outside page_member)
  have more: "kmem.more s1 = kmem.more s" using s1 by (auto simp: kalloc_def Let_def)
  have ref: "page_refcnt s1 (p div PGSIZE) = page_refcnt s (p div PGSIZE)"
    if "page_aligned p" "p \<noteq> pg" for p
    using that K(5) pg(1) by (simp add: page_index_inj [of p pg, simplified])
  have rp: "ram_page ?s p = ram_page s p" for p using K(8) by (simp add: ram_page_def)
  have fl: "kmem_inv ?s ps"
  proof -
    have "flist m' (freelist s1) ps = flist (pmem s1) (freelist s1) ps"
    proof (rule flist_cong)
      fix p x assume p: "p \<in> set ps" and x: "x \<in> region p 8"
      have pa: "page_aligned p" "p \<noteq> pg" "p \<noteq> q"
        using p K(4) D(1) D(4) [of q] q by (auto simp: kmem_inv_def ram_page_def)
      have "PGROUNDDOWN x = p" using x region_sub [of 8 4096 p] pa(1) by (auto simp: page_member)
      then show "m' x = pmem s1 x" using pa pg(1) out K(6) by (simp add: page_member)
    qed
    then show ?thesis using K(2) by (simp add: kmem_inv_def ram_page_def)
  qed
  have "pt_inv tp' ?s ps"
    unfolding pt_inv_def
  proof (intro conjI ballI)
    fix p assume p: "p \<in> dom tp'"
    show "ram_page ?s p" using p rp K(3) D(3) by (auto simp: tp'_def split: if_splits)
    show "p \<notin> set ps" using p K(4) D(4) by (auto simp: tp'_def split: if_splits)
    show "page_refcnt ?s (p div PGSIZE) = 1"
      using p K(5) ref D(3,5) by (cases "p = pg") (auto simp: tp'_def ram_page_def)
  qed (use fl A(1) in simp_all)
  moreover have "tables_grow tp (pg # ps) s tp' ps ?s"
    unfolding tables_grow_def pt_frame_def
  proof (intro conjI allI impI)
    show "tp \<subseteq>\<^sub>m tp'" using pg(2) by (auto simp: tp'_def map_le_def)
    show "\<exists>ns. pg # ps = ns @ ps \<and> dom tp' = dom tp \<union> set ns"
      by (intro exI [of _ "[pg]"]) (auto simp: tp'_def)
    show "tp' p = Some (r', 2, k') \<Longrightarrow> tp p = Some (r', 2, k')" for p r' k'
      using l by (auto simp: tp'_def split: if_splits)
    show "pmem ?s x = pmem s x" if "PGROUNDDOWN x \<notin> dom tp \<union> set (pg # ps)" for x
      using that q out [of x] by auto
    show "load64 (pmem ?s) (slot p j) = load64 (pmem s) (slot p j)"
      if "tp p = Some (r', Suc l', k')" "j < 512" "load64 (pmem s) (slot p j) AND PTE_V \<noteq> 0"
      for p r' l' k' j
      using that e A(4) [of p j] by auto
  qed (use ref K(8) more A(2) in \<open>auto simp: ram_page_def\<close>)
  ultimately show ?thesis using s1 pg(3) A(3) by (simp add: m'_def m1_def Let_def)
qed

text \<open>
  The walk with \<open>alloc\<close> set returns 0 when memory runs out, and otherwise the slot of the entry;
  in both cases the tables only grow.
\<close>

lemma walk_loop_alloc:
  assumes "pt_inv tp s fr" and "tp p = Some (r, l, prefix l va)" and "walk_loop l p va True s = (a, s')"
  shows "\<exists>tp' fr'. pt_inv tp' s' fr' \<and> tables_grow tp fr s tp' fr' s' \<and>
    length fr \<le> length fr' + l \<and> (a = 0 \<longrightarrow> fr' = []) \<and>
    (a \<noteq> 0 \<longrightarrow> (\<exists>q. pt_leaf (pmem s') l p va = Some q \<and> a = slot q (px 0 va)))"
  using assms
proof (induction l arbitrary: p s tp fr)
  case 0
  have "ram_page s p" using pt_invD(3) [OF 0(1), of p] 0(2) by auto
  then have "slot p (px 0 va) \<noteq> 0"
    using pt_invD(1) [OF 0(1)] ram_page_nonzero [of s p] by (intro slot_nonzero) (auto simp: kmem_inv_def ram_page_def)
  with 0 show ?case by (auto simp: pte_addr_slot)
next
  case (Suc l)
  note D = pt_invD [OF Suc.prems(1)]
  let ?sl = "slot p (px (Suc l) va)"
  show ?case
  proof (cases "load64 (pmem s) ?sl AND PTE_V = 0")
    case False
    let ?q = "PTE2PA (load64 (pmem s) ?sl)"
    have q: "tp ?q = Some (r, l, prefix l va)"
      using pt_typed_child [OF D(2) Suc.prems(2) px_less False] by (simp add: prefix_step)
    have "walk_loop l ?q va True s = (a, s')"
      using Suc.prems(3) False by (simp add: pte_addr_slot)
    from Suc.IH [OF Suc.prems(1) q this] obtain tp' fr' where
      ih: "pt_inv tp' s' fr'" "tables_grow tp fr s tp' fr' s'"
        "a \<noteq> 0 \<longrightarrow> (\<exists>x. pt_leaf (pmem s') l ?q va = Some x \<and> a = slot x (px 0 va))"
        "length fr \<le> length fr' + l" "a = 0 \<longrightarrow> fr' = []" by blast
    have "pt_leaf (pmem s') (Suc l) p va = pt_leaf (pmem s') l ?q va"
      using tables_growD(10) [OF ih(2) Suc.prems(2) px_less False]  False by (simp add: Let_def)
    then show ?thesis using ih by (intro exI [of _ tp'] exI [of _ fr']) (simp del: pt_leaf.simps)
  next
    case True
    have l2: "l < 2" using pt_typed_page [OF D(2) Suc.prems(2)] by simp
    show ?thesis
    proof (cases fr)
      case Nil
      then obtain s1 where "kalloc s = (0, s1)" "pt_inv tp s1 []" "tables_grow tp [] s tp [] s1"
        using kalloc_none Suc.prems(1) by blast
      then show ?thesis using Suc.prems(3) True Nil by (auto simp: pte_addr_slot)
    next
      case (Cons pg ps)
      let ?tp = "tp(pg \<mapsto> (r, l, prefix l va))"
      obtain s1 where s1: "kalloc s = (pg, s1)" "pg \<noteq> 0"
        and s2: "let s' = s1\<lparr>pmem := store64 (memset (pmem s1) pg 0 4096) ?sl (PA2PTE pg OR PTE_V)\<rparr> in
          pt_inv ?tp s' ps \<and> tables_grow tp (pg # ps) s ?tp ps s' \<and> (\<forall>va. pte_at (pmem s') l pg va = 0)"
        using kalloc_table [OF Suc.prems(1) [unfolded Cons] Suc.prems(2) px_less l2 True]
        unfolding prefix_step by blast
      define s2 where "s2 = s1\<lparr>pmem := store64 (memset (pmem s1) pg 0 4096) ?sl (PA2PTE pg OR PTE_V)\<rparr>"
      have inv2: "pt_inv ?tp s2 ps" and grow2: "tables_grow tp (pg # ps) s ?tp ps s2"
        using s2 by (simp_all add: s2_def Let_def)
      have "walk_loop l pg va True s2 = (a, s')"
        using Suc.prems(3) True s1 by (simp add: pte_addr_slot s2_def)
      moreover have "?tp pg = Some (r, l, prefix l va)" by simp
      ultimately obtain tp' fr' where
        ih: "pt_inv tp' s' fr'" "tables_grow ?tp ps s2 tp' fr' s'"
          "a \<noteq> 0 \<longrightarrow> (\<exists>x. pt_leaf (pmem s') l pg va = Some x \<and> a = slot x (px 0 va))"
          "length ps \<le> length fr' + l" "a = 0 \<longrightarrow> fr' = []"
        using Suc.IH [OF inv2] by blast
      have e2: "load64 (pmem s2) ?sl = PA2PTE pg OR PTE_V" by (simp add: s2_def)
      have al: "page_aligned pg" using pt_invD(3) [OF inv2, of pg] by (simp add: ram_page_def)
      have "?tp p = Some (r, Suc l, prefix (Suc l) va)"
        using Suc.prems(2) pt_invD(4) [OF Suc.prems(1), of p] Cons by auto
      then have "load64 (pmem s') ?sl = PA2PTE pg OR PTE_V"
        using tables_growD(10) [OF ih(2) _ px_less, of p] e2 dir_entry [OF al] by simp
      then have "pt_leaf (pmem s') (Suc l) p va = pt_leaf (pmem s') l pg va"
        using dir_entry [OF al] by (simp add: Let_def)
      then show ?thesis using ih tables_grow_trans [OF grow2 ih(2)] Cons
        by (intro exI [of _ tp'] exI [of _ fr']) (simp del: pt_leaf.simps)
    qed
  qed
qed

lemma walk_loop_exists:
  "pt_leaf (pmem s) l p va = Some q \<Longrightarrow> walk_loop l p va alloc s = (slot q (px 0 va), s)"
  by (induction l arbitrary: p) (auto simp: Let_def pte_addr_slot split: if_splits)

lemma leaf_slot:
  assumes "pt_inv tp s fr" and "is_root tp r" and "va < MAXVA" and "pt_leaf (pmem s) 2 r va = Some q"
  shows "tp q = Some (r, 0, prefix 0 va)" and "slot q (px 0 va) \<noteq> 0"
    and "load64 (pmem s) (slot q (px 0 va)) = pte_of (pmem s) r va"
proof -
  note D = pt_invD [OF assms(1)]
  show q: "tp q = Some (r, 0, prefix 0 va)"
    using pt_leaf_role [OF D(2) root_role [OF assms(2,3)] assms(4)] .
  then have "ram_page s q" using D(3) by blast
  then show "slot q (px 0 va) \<noteq> 0"
    using D(1) ram_page_nonzero [of s q] slot_nonzero [of q] by (simp add: kmem_inv_def ram_page_def)
  show "load64 (pmem s) (slot q (px 0 va)) = pte_of (pmem s) r va"
    using assms(4) by (simp add: pte_of_def pte_at_leaf)
qed

lemma pte_of_leaf: "pte_of m r va \<noteq> 0 \<Longrightarrow> \<exists>q. pt_leaf m 2 r va = Some q"
  by (auto simp: pte_of_def pte_at_leaf split: option.splits)

text \<open>Writing one entry through the slot that the walk returned.\<close>

definition set_pte :: "uint64 \<Rightarrow> uint64 \<Rightarrow> uint64 \<Rightarrow> 'a kmem_scheme \<Rightarrow> 'a kmem_scheme" where
  "set_pte q va v s = s\<lparr>pmem := store64 (pmem s) (slot q (px 0 va)) v\<rparr>"

lemma set_pte_simps [simp]:
  "freelist (set_pte q va v s) = freelist s" "page_refcnt (set_pte q va v s) = page_refcnt s"
  "kern_end (set_pte q va v s) = kern_end s" "kmem.more (set_pte q va v s) = kmem.more s"
  "ram_page (set_pte q va v s) p = ram_page s p"
  by (simp_all add: set_pte_def ram_page_def)

lemma set_pte_inv:
  assumes inv: "pt_inv tp s fr" and r: "is_root tp r" "va < MAXVA" and q: "pt_leaf (pmem s) 2 r va = Some q"
  shows "pt_inv tp (set_pte q va v s) fr"
    and "PGROUNDDOWN x \<notin> dom tp \<Longrightarrow> pmem (set_pte q va v s) x = pmem s x"
    and "is_root tp r' \<Longrightarrow> va' < MAXVA \<Longrightarrow> pte_of (pmem (set_pte q va v s)) r' va' =
      (if r' = r \<and> PGROUNDDOWN va' = PGROUNDDOWN va then v else pte_of (pmem s) r' va')"
    and "is_root tp r' \<Longrightarrow> va' < MAXVA \<Longrightarrow>
      pt_leaf (pmem (set_pte q va v s)) 2 r' va' = pt_leaf (pmem s) 2 r' va'"
proof -
  note D = pt_invD [OF inv] and L = leaf_slot [OF inv r q]
  have al: "page_aligned q" using pt_typed_page [OF D(2) L(1)] by simp
  show out: "pmem (set_pte q va v s) x = pmem s x" if "PGROUNDDOWN x \<notin> dom tp" for x
  proof -
    have "x \<notin> region q 4096" using that al L(1) by (auto simp: page_member)
    then show ?thesis using al by (simp add: set_pte_def slot_outside)
  qed
  show "pte_of (pmem (set_pte q va v s)) r' va' =
      (if r' = r \<and> PGROUNDDOWN va' = PGROUNDDOWN va then v else pte_of (pmem s) r' va')"
    if "is_root tp r'" "va' < MAXVA"
    using store_leaf_pte [OF D(2) L(1) r q that] by (simp add: set_pte_def)
  show "pt_leaf (pmem (set_pte q va v s)) 2 r' va' = pt_leaf (pmem s) 2 r' va'"
    if "is_root tp r'" "va' < MAXVA"
  proof (rule pt_leaf_cong [OF D(2) root_role [OF that]])
    fix p r l k i assume "tp p = Some (r, Suc l, k)" "i < (512 :: nat)"
    then show "load64 (pmem (set_pte q va v s)) (slot p i) = load64 (pmem s) (slot p i)"
      using L(1) al pt_typed_page [OF D(2)] unfolding set_pte_def
      by (auto intro!: slot_frame)
  qed
  have "flist (pmem (set_pte q va v s)) (freelist s) fr = flist (pmem s) (freelist s) fr"
  proof (rule flist_other_page [of q])
    fix x assume "x \<notin> region q 4096"
    then show "pmem (set_pte q va v s) x = pmem s x"
      using al by (simp add: set_pte_def slot_outside)
  qed (use al D L(1) in \<open>auto simp: kmem_inv_def ram_page_def\<close>)
  then have "kmem_inv (set_pte q va v s) fr" using D(1) by (simp add: kmem_inv_def)
  moreover have "pt_typed tp (pmem (set_pte q va v s))"
    using store_leaf_typed [OF D(2) L(1) px_less] by (simp add: set_pte_def)
  ultimately show "pt_inv tp (set_pte q va v s) fr"
    using inv by (simp add: pt_inv_def)
qed

section \<open>One page mapped, one page unmapped\<close>

lemma mappages_page:
  assumes inv: "pt_inv tp s fr" and r: "is_root tp r" "va < MAXVA"
    and e: "pte_of (pmem s) r va AND PTE_V = 0"
  shows "\<exists>tp' fr' s1. pt_inv tp' s1 fr' \<and> tables_grow tp fr s tp' fr' s1 \<and> is_root tp' r \<and>
    length fr \<le> length fr' + 2 \<and>
    (mappages_loop r va lst pa perm s = Inr (-1, s1) \<and> fr' = [] \<or>
     (\<exists>q. pt_leaf (pmem s1) 2 r va = Some q \<and>
       mappages_loop r va lst pa perm s =
         (let s' = set_pte q va (PA2PTE pa OR perm OR PTE_V) s1 in
          if va = lst then Inr (0, s')
          else mappages_loop r (va + PGSIZE) lst (pa + PGSIZE) perm s')))"
proof -
  obtain a s1 where w: "walk_loop 2 r va True s = (a, s1)" by (cases "walk_loop 2 r va True s")
  obtain tp' fr' where g: "pt_inv tp' s1 fr'" "tables_grow tp fr s tp' fr' s1"
    and a: "a \<noteq> 0 \<Longrightarrow> \<exists>q. pt_leaf (pmem s1) 2 r va = Some q \<and> a = slot q (px 0 va)"
    and n: "length fr \<le> length fr' + 2" "a = 0 \<Longrightarrow> fr' = []"
    using walk_loop_alloc [OF inv root_role [OF r] w] by blast
  have r': "is_root tp' r" using pt_frame_root [OF tables_grow_frame [OF g(2)]] r(1) by simp
  have walk: "walk r va True s = Inr (a, s1)" using r(2) w by (simp add: walk_def not_le)
  show ?thesis
  proof (cases "a = 0")
    case True
    then have "mappages_loop r va lst pa perm s = Inr (-1, s1)"
      using walk by (subst mappages_loop.simps) simp
    then show ?thesis using g r' n True by blast
  next
    case False
    then obtain q where q: "pt_leaf (pmem s1) 2 r va = Some q" "a = slot q (px 0 va)" using a by blast
    have "load64 (pmem s1) a = pte_of (pmem s) r va"
      using leaf_slot(3) [OF g(1) r' r(2) q(1)] q(2) tables_grow_pte [OF g(2) r(1)] by simp
    then have "load64 (pmem s1) a AND PTE_V = 0" using e by simp
    then have "mappages_loop r va lst pa perm s =
         (let s' = set_pte q va (PA2PTE pa OR perm OR PTE_V) s1 in
          if va = lst then Inr (0, s')
          else mappages_loop r (va + PGSIZE) lst (pa + PGSIZE) perm s')"
      using walk False q(2) by (subst mappages_loop.simps) (simp add: set_pte_def Let_def)
    then show ?thesis using g r' q(1) n(1) by blast
  qed
qed

lemma mappages_one:
  assumes inv: "pt_inv tp s fr" and r: "is_root tp r" "va < MAXVA" "page_aligned va"
    and e: "pte_of (pmem s) r va AND PTE_V = 0"
  obtains tp' fr' s1 where "pt_inv tp' s1 fr'" and "tables_grow tp fr s tp' fr' s1" and "is_root tp' r"
    and "mappages r va PGSIZE pa perm s = Inr (-1, s1)" and "fr' = []" and "length fr \<le> 2"
  | tp' fr' s1 q where "pt_inv tp' s1 fr'" and "tables_grow tp fr s tp' fr' s1" and "is_root tp' r"
    and "pt_leaf (pmem s1) 2 r va = Some q"
    and "mappages r va PGSIZE pa perm s = Inr (0, set_pte q va (PA2PTE pa OR perm OR PTE_V) s1)"
    and "length fr \<le> length fr' + 2"
proof -
  have m: "mappages r va PGSIZE pa perm s = mappages_loop r va va pa perm s"
    using r(3) by (simp add: mappages_def page_aligned_def)
  show ?thesis
    using mappages_page [OF inv r(1,2) e, of va pa perm] that unfolding m by (fastforce simp: Let_def)
qed

text \<open>When the tables for \<open>va\<close> exist already, \<open>mappages\<close> of one page cannot fail.\<close>

lemma mappages_existing:
  assumes inv: "pt_inv tp s fr" and r: "is_root tp r" "va < MAXVA" "page_aligned va"
    and e: "pte_of (pmem s) r va AND PTE_V = 0" and q: "pt_leaf (pmem s) 2 r va = Some q"
  shows "mappages r va PGSIZE pa perm s = Inr (0, set_pte q va (PA2PTE pa OR perm OR PTE_V) s)"
proof -
  have "walk r va True s = Inr (slot q (px 0 va), s)"
    using r(2) walk_loop_exists [OF q] by (simp add: walk_def not_le)
  then show ?thesis
    using r(3) e leaf_slot [OF inv r(1,2) q]
    by (simp add: mappages_def page_aligned_def mappages_loop.simps set_pte_def)
qed

lemma walk_existing:
  assumes "va < MAXVA" and "pt_leaf (pmem s) 2 r va = Some q"
  shows "walk r va alloc s = Inr (slot q (px 0 va), s)"
  using assms walk_loop_exists [OF assms(2)] by (simp add: walk_def not_le)

lemma uvmunmap_one:
  assumes inv: "pt_inv tp s fr" and r: "is_root tp r" "va < MAXVA"
    and e: "pte_of (pmem s) r va AND PTE_V \<noteq> 0" "PTE_FLAGS (pte_of (pmem s) r va) \<noteq> PTE_V"
    and lt: "va < ed"
  obtains q where "pt_leaf (pmem s) 2 r va = Some q" and
    "uvmunmap_loop r va ed do_free s =
       rbind (if do_free then kfree (PTE2PA (pte_of (pmem s) r va)) s else Inr s)
         (\<lambda>s. uvmunmap_loop r (va + PGSIZE) ed do_free (set_pte q va 0 s))"
proof -
  have "pte_of (pmem s) r va \<noteq> 0" using e(1) by auto
  then obtain q where q: "pt_leaf (pmem s) 2 r va = Some q" using pte_of_leaf by blast
  note L = leaf_slot [OF inv r q]
  have "uvmunmap_loop r va ed do_free s =
       rbind (if do_free then kfree (PTE2PA (pte_of (pmem s) r va)) s else Inr s)
         (\<lambda>s. uvmunmap_loop r (va + PGSIZE) ed do_free (set_pte q va 0 s))"
    using walk_existing [OF r(2) q, of False] lt e L
    by (subst uvmunmap_loop.simps) (simp add: set_pte_def)
  then show ?thesis using q that by blast
qed

lemma set_pte_frame:
  assumes "pt_inv tp s fr" and "is_root tp r" and "va < MAXVA" and "pt_leaf (pmem s) 2 r va = Some q"
  shows "pt_frame tp fr s tp fr (set_pte q va v s)"
  using set_pte_inv(2) [OF assms] by (simp add: pt_frame_def)

section \<open>Ranges of pages\<close>

definition in_range :: "uint64 \<Rightarrow> nat \<Rightarrow> uint64 \<Rightarrow> bool" where
  "in_range va n va' \<longleftrightarrow> unat va \<le> unat va' \<and> unat va' < unat va + 4096 * n"

lemma in_range_0 [simp]: "\<not> in_range va 0 va'"
  by (simp add: in_range_def)

lemma in_range_step:
  assumes "page_aligned va" and "va < MAXVA"
  shows "in_range va (Suc n) va' \<longleftrightarrow> PGROUNDDOWN va' = va \<or> in_range (va + 4096) n va'"
proof -
  have u: "unat (va + 4096) = unat va + 4096" using assms(2) by (rule below_MAXVA_step)
  have "PGROUNDDOWN va' = va \<longleftrightarrow> unat va \<le> unat va' \<and> unat va' < unat va + 4096"
  proof -
    obtain k where "unat va = k * 4096"
      using assms(1) by (auto simp: page_aligned_unat mod_eq_0_iff_dvd elim!: dvdE)
    then show ?thesis by (simp add: word_unat_eq_iff unat_PGROUNDDOWN) linarith
  qed
  then show ?thesis unfolding in_range_def u by auto
qed

lemma page_aligned_step: "page_aligned va \<Longrightarrow> va < MAXVA \<Longrightarrow> page_aligned (va + 4096)"
  by (simp add: page_aligned_unat below_MAXVA_step)

lemma range_last_step:
  assumes "page_aligned va" and "unat va + 4096 * (Suc (Suc n)) \<le> 2 ^ 38"
  shows "va < MAXVA" and "unat (va + 4096) + 4096 * Suc n \<le> 2 ^ 38"
    and "va \<noteq> va + 4096 * of_nat (Suc n)" and "page_aligned (va + 4096)"
proof -
  show lt: "va < MAXVA" using assms(2) by (simp add: MAXVA_eq word_less_nat_alt)
  show "unat (va + 4096) + 4096 * Suc n \<le> 2 ^ 38" using assms(2) below_MAXVA_step [OF lt] by simp
  show "page_aligned (va + 4096)" using assms(1) lt by (rule page_aligned_step)
  have "unat (4096 * of_nat (Suc n) :: uint64) = 4096 * Suc n"
    using unat_of_nat64 [of "4096 * Suc n"] assms(2) by simp
  then show "va \<noteq> va + 4096 * of_nat (Suc n)" by (metis add_cancel_left_right mult_is_0 nat.distinct(1)
    unat_0 zero_neq_numeral)
qed

lemma mappages_loop_range:
  assumes "pt_inv tp s fr" and "is_root tp r" and "page_aligned va"
    and "unat va + 4096 * Suc n \<le> 2 ^ 38"
    and "\<And>va'. in_range va (Suc n) va' \<Longrightarrow> pte_of (pmem s) r va' AND PTE_V = 0"
  shows "\<exists>k ret s' tp' fr'. mappages_loop r va (va + 4096 * of_nat n) pa perm s = Inr (ret, s') \<and>
    pt_inv tp' s' fr' \<and> pt_frame tp fr s tp' fr' s' \<and>
    (ret = 0 \<and> k = Suc n \<or> ret = -1 \<and> k \<le> n) \<and>
    (\<forall>r' va'. is_root tp r' \<and> va' < MAXVA \<longrightarrow> pte_of (pmem s') r' va' =
        (if r' = r \<and> in_range va k va' then PA2PTE (pa + (PGROUNDDOWN va' - va)) OR perm OR PTE_V
         else pte_of (pmem s) r' va'))"
  using assms
proof (induction n arbitrary: va pa s tp fr)
  case 0
  have lt: "va < MAXVA" using 0(4) by (simp add: MAXVA_eq word_less_nat_alt)
  have rng: "in_range va (Suc 0) va' \<longleftrightarrow> PGROUNDDOWN va' = va" for va'
    using in_range_step [OF 0(3) lt, of 0] by simp
  have e: "pte_of (pmem s) r va AND PTE_V = 0" using 0(3,5) rng by simp
  have m: "mappages_loop r va va pa perm s = mappages r va PGSIZE pa perm s"
    using 0(3) by (simp add: mappages_def page_aligned_def)
  from 0(1,2) lt 0(3) e show ?case
  proof (cases rule: mappages_one [where pa = pa and perm = perm])
    case (1 tp' fr' s1)
    then show ?thesis using m tables_grow_frame [OF 1(2)] tables_grow_pte [OF 1(2)]
      by (intro exI [of _ 0] exI [of _ "-1"] exI [of _ s1] exI [of _ tp'] exI [of _ fr']) simp
  next
    case (2 tp' fr' s1 q)
    let ?s = "set_pte q va (PA2PTE pa OR perm OR PTE_V) s1"
    note fr1 = tables_grow_frame [OF 2(2)]
    have root: "is_root tp' r'" if "is_root tp r'" for r' using that pt_frame_root [OF fr1] by simp
    have "pte_of (pmem ?s) r' va' =
        (if r' = r \<and> in_range va (Suc 0) va' then PA2PTE (pa + (PGROUNDDOWN va' - va)) OR perm OR PTE_V
         else pte_of (pmem s) r' va')" if "is_root tp r' \<and> va' < MAXVA" for r' va'
      using that set_pte_inv(3) [OF 2(1,3) lt 2(4), of r' va'] root tables_grow_pte [OF 2(2)] 0(3) rng
      by auto
    then show ?thesis
      using m 2 set_pte_inv(1) [OF 2(1,3) lt 2(4)] pt_frame_trans [OF fr1 set_pte_frame [OF 2(1,3) lt 2(4)]]
      by (intro exI [of _ 1] exI [of _ 0] exI [of _ ?s] exI [of _ tp'] exI [of _ fr']) simp
  qed
next
  case (Suc n)
  note R = range_last_step [OF Suc.prems(3,4)]
  have rng: "in_range va (Suc k) va' \<longleftrightarrow> PGROUNDDOWN va' = va \<or> in_range (va + 4096) k va'" for k va'
    using in_range_step [OF Suc.prems(3) R(1)] .
  have e: "pte_of (pmem s) r va AND PTE_V = 0" using Suc.prems(3,5) rng by simp
  let ?lst = "va + 4096 * of_nat (Suc n)"
  obtain tp1 fr1 s1 where g: "pt_inv tp1 s1 fr1" "tables_grow tp fr s tp1 fr1 s1" "is_root tp1 r"
    and c: "mappages_loop r va ?lst pa perm s = Inr (-1, s1) \<and> fr1 = [] \<or>
     (\<exists>q. pt_leaf (pmem s1) 2 r va = Some q \<and>
       mappages_loop r va ?lst pa perm s =
         (let s' = set_pte q va (PA2PTE pa OR perm OR PTE_V) s1 in
          if va = ?lst then Inr (0, s')
          else mappages_loop r (va + PGSIZE) ?lst (pa + PGSIZE) perm s'))"
    using mappages_page [OF Suc.prems(1,2) R(1) e] by blast
  note F1 = tables_grow_frame [OF g(2)]
  from c show ?case
  proof (elim disjE exE conjE)
    assume "mappages_loop r va ?lst pa perm s = Inr (-1, s1)"
    then show ?thesis using g F1 tables_grow_pte [OF g(2)]
      by (intro exI [of _ 0] exI [of _ "-1"] exI [of _ s1] exI [of _ tp1] exI [of _ fr1]) simp
  next
    fix q assume q: "pt_leaf (pmem s1) 2 r va = Some q"
      and m: "mappages_loop r va ?lst pa perm s =
         (let s' = set_pte q va (PA2PTE pa OR perm OR PTE_V) s1 in
          if va = ?lst then Inr (0, s')
          else mappages_loop r (va + PGSIZE) ?lst (pa + PGSIZE) perm s')"
    define s2 where "s2 = set_pte q va (PA2PTE pa OR perm OR PTE_V) s1"
    note S = set_pte_inv [OF g(1,3) R(1) q, where v = "PA2PTE pa OR perm OR PTE_V", folded s2_def]
    have F2: "pt_frame tp fr s tp1 fr1 s2"
      using pt_frame_trans [OF F1 set_pte_frame [OF g(1,3) R(1) q]] by (simp add: s2_def)
    have p2: "pte_of (pmem s2) r' va' =
        (if r' = r \<and> PGROUNDDOWN va' = va then PA2PTE pa OR perm OR PTE_V else pte_of (pmem s) r' va')"
      if "is_root tp r'" "va' < MAXVA" for r' va'
      using that S(3) [of r' va'] pt_frame_root [OF F1] tables_grow_pte [OF g(2)] Suc.prems(3) by simp
    have out: "\<not> (PGROUNDDOWN va' = va \<and> in_range (va + 4096) k va')" for k va'
      using below_MAXVA_step [OF R(1)] page_offset [of va'] by (auto simp: in_range_def unat_PGROUNDDOWN)
    have "\<exists>k ret s' tp' fr'.
      mappages_loop r (va + 4096) (va + 4096 + 4096 * of_nat n) (pa + 4096) perm s2 = Inr (ret, s') \<and>
      pt_inv tp' s' fr' \<and> pt_frame tp1 fr1 s2 tp' fr' s' \<and>
      (ret = 0 \<and> k = Suc n \<or> ret = -1 \<and> k \<le> n) \<and>
      (\<forall>r' va'. is_root tp1 r' \<and> va' < MAXVA \<longrightarrow> pte_of (pmem s') r' va' =
        (if r' = r \<and> in_range (va + 4096) k va'
         then PA2PTE (pa + 4096 + (PGROUNDDOWN va' - (va + 4096))) OR perm OR PTE_V
         else pte_of (pmem s2) r' va'))"
    proof (rule Suc.IH [OF S(1) g(3) R(4,2)])
      fix va' assume h: "in_range (va + 4096) (Suc n) va'"
      then have "va' < MAXVA" using R(2) by (simp add: in_range_def MAXVA_eq word_less_nat_alt)
      moreover have "PGROUNDDOWN va' \<noteq> va" using h out by blast
      ultimately show "pte_of (pmem s2) r va' AND PTE_V = 0"
        using h p2 [of r va'] Suc.prems(2,5) rng by simp
    qed
    then obtain k ret s' tp' fr' where ih:
      "mappages_loop r (va + 4096) (va + 4096 + 4096 * of_nat n) (pa + 4096) perm s2 = Inr (ret, s')"
      "pt_inv tp' s' fr'" "pt_frame tp1 fr1 s2 tp' fr' s'"
      "ret = 0 \<and> k = Suc n \<or> ret = -1 \<and> k \<le> n"
      "\<And>r' va'. is_root tp1 r' \<Longrightarrow> va' < MAXVA \<Longrightarrow> pte_of (pmem s') r' va' =
        (if r' = r \<and> in_range (va + 4096) k va'
         then PA2PTE (pa + 4096 + (PGROUNDDOWN va' - (va + 4096))) OR perm OR PTE_V
         else pte_of (pmem s2) r' va')" by blast
    have "mappages_loop r va ?lst pa perm s = Inr (ret, s')"
      using m R(3) ih(1) by (simp add: Let_def s2_def algebra_simps)
    moreover have "pte_of (pmem s') r' va' =
        (if r' = r \<and> in_range va (Suc k) va' then PA2PTE (pa + (PGROUNDDOWN va' - va)) OR perm OR PTE_V
         else pte_of (pmem s) r' va')" if "is_root tp r' \<and> va' < MAXVA" for r' va'
      using that ih(5) [of r' va'] pt_frame_root [OF F1] p2 [of r' va'] rng out [of va' k]
      by (auto simp: algebra_simps)
    ultimately show ?thesis
      using ih(2,4) pt_frame_trans [OF F2 ih(3)]
      by (intro exI [of _ "Suc k"] exI [of _ ret] exI [of _ s'] exI [of _ tp'] exI [of _ fr']) auto
  qed
qed

end
