(* ===== verification/VmSpace.thy ===== *)
theory VmSpace
  imports VmTables
begin

text \<open>
  Address spaces and reference counts.  The invariant \<open>vm_inv\<close> ties \<open>page_refcnt\<close> to the page
  tables: the count of a RAM page is the number of user entries that point to it, plus one when
  the kernel itself holds the page (as a table, a trapframe, a pipe, a stack); a page of count
  zero is on the free list; and a page that some entry maps writable has count one.  From it
  follow the copy-on-write theorems: \<open>uvmcopy\<close> shares every page without changing what either
  process reads, and a write through \<open>copyout\<close> changes what one process reads and no other.
\<close>

section \<open>The invariant\<close>

definition user_va :: "roles \<Rightarrow> uint64 \<Rightarrow> uint64 \<Rightarrow> bool" where
  "user_va tp r va \<longleftrightarrow> is_root tp r \<and> page_aligned va \<and> va < TRAPFRAME"

definition mappings :: "roles \<Rightarrow> memory \<Rightarrow> uint64 \<Rightarrow> (uint64 \<times> uint64) set" where
  "mappings tp m p = {(r, va). user_va tp r va \<and> pte_of m r va AND PTE_V \<noteq> 0 \<and>
     PTE2PA (pte_of m r va) = p}"

abbreviation refcnt :: "'a kmem_scheme \<Rightarrow> uint64 \<Rightarrow> int" where
  "refcnt s p \<equiv> page_refcnt s (p div PGSIZE)"

definition leaf_ok :: "roles \<Rightarrow> uint64 set \<Rightarrow> 'a kmem_scheme \<Rightarrow> uint64 \<Rightarrow> bool" where
  "leaf_ok tp held s e \<longleftrightarrow> ram_page s (PTE2PA e) \<and> PTE_FLAGS e \<noteq> PTE_V \<and>
     PTE2PA e \<notin> dom tp \<union> held \<and> (e AND PTE_W \<noteq> 0 \<longrightarrow> refcnt s (PTE2PA e) = 1)"

definition vm_inv :: "roles \<Rightarrow> uint64 set \<Rightarrow> 'a kmem_scheme \<Rightarrow> uint64 list \<Rightarrow> bool" where
  "vm_inv tp held s fr \<longleftrightarrow> pt_inv tp s fr \<and> held \<inter> dom tp = {} \<and> (\<forall>p \<in> held. ram_page s p) \<and>
     (\<forall>p. ram_page s p \<longrightarrow>
        refcnt s p = int (card (mappings tp (pmem s) p)) + (if p \<in> dom tp \<union> held then 1 else 0) \<and>
        (refcnt s p = 0 \<longrightarrow> p \<in> set fr)) \<and>
     (\<forall>r va. user_va tp r va \<longrightarrow> pte_of (pmem s) r va AND PTE_V \<noteq> 0 \<longrightarrow>
        leaf_ok tp held s (pte_of (pmem s) r va)) \<and>
     (\<forall>r va. is_root tp r \<longrightarrow> TRAPFRAME \<le> va \<longrightarrow> va < MAXVA \<longrightarrow> pte_of (pmem s) r va AND PTE_U = 0)"

lemma TRAPFRAME_eq: "TRAPFRAME = 0x3fffffe000"
  by (simp add: TRAPFRAME_def TRAMPOLINE_def MAXVA_eq)

lemma user_vaD:
  "user_va tp r va \<Longrightarrow> is_root tp r \<and> page_aligned va \<and> va < MAXVA"
  by (auto simp: user_va_def TRAPFRAME_eq MAXVA_eq word_less_nat_alt)

lemma vm_invD:
  assumes "vm_inv tp held s fr"
  shows "pt_inv tp s fr" and "held \<inter> dom tp = {}" and "p \<in> held \<Longrightarrow> ram_page s p"
    and "ram_page s p \<Longrightarrow>
      refcnt s p = int (card (mappings tp (pmem s) p)) + (if p \<in> dom tp \<union> held then 1 else 0)"
    and "ram_page s p \<Longrightarrow> refcnt s p = 0 \<Longrightarrow> p \<in> set fr"
    and "user_va tp r va \<Longrightarrow> pte_of (pmem s) r va AND PTE_V \<noteq> 0 \<Longrightarrow> leaf_ok tp held s (pte_of (pmem s) r va)"
    and "is_root tp r \<Longrightarrow> TRAPFRAME \<le> va \<Longrightarrow> va < MAXVA \<Longrightarrow> pte_of (pmem s) r va AND PTE_U = 0"
  using assms unfolding vm_inv_def by blast+

lemma finite_mappings [simp]: "finite (A :: (uint64 \<times> uint64) set)"
  by (rule finite)

lemma mappings_iff:
  "(r, va) \<in> mappings tp m p \<longleftrightarrow>
     user_va tp r va \<and> pte_of m r va AND PTE_V \<noteq> 0 \<and> PTE2PA (pte_of m r va) = p"
  by (simp add: mappings_def)

text \<open>Translations that agree on all roots have the same mappings.\<close>

lemma mappings_cong:
  assumes "\<And>r. is_root tp' r \<longleftrightarrow> is_root tp r"
    and "\<And>r va. user_va tp r va \<Longrightarrow> pte_of m' r va = pte_of m r va"
  shows "mappings tp' m' p = mappings tp m p"
  using assms by (auto simp: mappings_def user_va_def)

lemma mappings_update:
  assumes "user_va tp r va"
    and "\<And>r' va'. user_va tp r' va' \<Longrightarrow> pte_of m' r' va' = (if r' = r \<and> va' = va then e else pte_of m r' va')"
  shows "mappings tp m' p = (mappings tp m p - {(r, va)}) \<union>
    (if e AND PTE_V \<noteq> 0 \<and> PTE2PA e = p then {(r, va)} else {})"
  using assms by (auto simp: mappings_def split: if_splits)

lemma free_unmapped:
  assumes "vm_inv tp held s fr" and "p \<in> set fr"
  shows "ram_page s p" and "refcnt s p = 0" and "mappings tp (pmem s) p = {}" and "p \<notin> dom tp \<union> held"
proof -
  show r: "ram_page s p" "refcnt s p = 0"
    using assms pt_invD(1) [OF vm_invD(1) [OF assms(1)]] by (auto simp: kmem_inv_def)
  then show "mappings tp (pmem s) p = {}" "p \<notin> dom tp \<union> held"
    using vm_invD(4) [OF assms(1) r(1)] by (auto split: if_splits)
qed

lemma mapped_not_free:
  assumes inv: "vm_inv tp held s fr" and "user_va tp r va" and "pte_of (pmem s) r va AND PTE_V \<noteq> 0"
  shows "PTE2PA (pte_of (pmem s) r va) \<notin> set fr" and "0 < refcnt s (PTE2PA (pte_of (pmem s) r va))"
proof -
  let ?p = "PTE2PA (pte_of (pmem s) r va)"
  have m: "(r, va) \<in> mappings tp (pmem s) ?p" using assms(2,3) by (simp add: mappings_iff)
  then show "?p \<notin> set fr" using free_unmapped(3) [OF inv, of ?p] by auto
  have "ram_page s ?p" using vm_invD(6) [OF assms] by (simp add: leaf_ok_def)
  then have "refcnt s ?p \<ge> int (card (mappings tp (pmem s) ?p))"
    using vm_invD(4) [OF inv] by simp
  moreover have "card (mappings tp (pmem s) ?p) \<noteq> 0" using m by auto
  ultimately show "0 < refcnt s ?p" by linarith
qed

text \<open>A page of count one that one entry maps is mapped by that entry alone.\<close>

lemma private_mapping:
  assumes inv: "vm_inv tp held s fr" and "user_va tp r va" and "pte_of (pmem s) r va AND PTE_V \<noteq> 0"
    and "refcnt s (PTE2PA (pte_of (pmem s) r va)) = 1"
  shows "mappings tp (pmem s) (PTE2PA (pte_of (pmem s) r va)) = {(r, va)}"
proof -
  let ?p = "PTE2PA (pte_of (pmem s) r va)"
  have m: "(r, va) \<in> mappings tp (pmem s) ?p" using assms(2,3) by (simp add: mappings_iff)
  have "leaf_ok tp held s (pte_of (pmem s) r va)" using vm_invD(6) [OF assms(1-3)] .
  then have "card (mappings tp (pmem s) ?p) = 1"
    using vm_invD(4) [OF inv, of ?p] assms(4) by (simp add: leaf_ok_def split: if_splits)
  then show ?thesis using m by (metis card_1_singletonE singletonD)
qed

section \<open>Steps that keep the invariant\<close>

lemma vm_inv_grow:
  assumes inv: "vm_inv tp held s fr" and g: "tables_grow tp fr s tp' fr' s'" and pt: "pt_inv tp' s' fr'"
  shows "vm_inv tp' held s' fr'"
proof -
  have root: "is_root tp' r \<longleftrightarrow> is_root tp r" for r
    using pt_frame_root [OF tables_grow_frame [OF g]] .
  have pte: "pte_of (pmem s') r va = pte_of (pmem s) r va" if "is_root tp r" for r va
    using tables_grow_pte [OF g that] .
  have uv: "user_va tp' r va \<longleftrightarrow> user_va tp r va" for r va using root by (simp add: user_va_def)
  have maps: "mappings tp' (pmem s') p = mappings tp (pmem s) p" for p
    by (rule mappings_cong [OF root]) (simp add: pte user_va_def)
  have rp: "ram_page s' p = ram_page s p" for p using tables_growD(5) [OF g] by (simp add: ram_page_def)
  obtain ns where ns: "fr = ns @ fr'" "dom tp' = dom tp \<union> set ns"
    using g by (auto simp: tables_grow_def pt_frame_def)
  have old: "p \<in> dom tp' \<longleftrightarrow> p \<in> dom tp" if "p \<notin> set fr" for p using that ns by auto
  show ?thesis
    unfolding vm_inv_def
  proof (intro conjI allI impI ballI)
    show "held \<inter> dom tp' = {}" using vm_invD(2) [OF inv] free_unmapped(4) [OF inv] ns by auto
    show "ram_page s' p" if "p \<in> held" for p using vm_invD(3) [OF inv that] rp by simp
    fix p assume p: "ram_page s' p"
    show "refcnt s' p = int (card (mappings tp' (pmem s') p)) + (if p \<in> dom tp' \<union> held then 1 else 0)"
    proof (cases "p \<in> set fr")
      case True
      note F = free_unmapped [OF inv True]
      show ?thesis
      proof (cases "p \<in> dom tp'")
        case True
        then show ?thesis using pt_invD(5) [OF pt True] maps F(3) by simp
      next
        case False
        then have "p \<in> set fr'" using \<open>p \<in> set fr\<close> ns by auto
        then have "refcnt s' p = 0" using pt_invD(1) [OF pt] by (simp add: kmem_inv_def)
        then show ?thesis using False F maps by simp
      qed
    next
      case False
      then show ?thesis
        using vm_invD(4) [OF inv, of p] rp p tables_growD(4) [OF g, of p] maps old by simp
    qed
    show "p \<in> set fr'" if z: "refcnt s' p = 0"
    proof -
      have "p \<notin> dom tp'" using pt_invD(5) [OF pt, of p] z by auto
      then show ?thesis
        using vm_invD(5) [OF inv, of p] tables_growD(4) [OF g, of p] rp p z ns by (cases "p \<in> set fr") auto
    qed
  next
    fix r va assume u: "user_va tp' r va" and v: "pte_of (pmem s') r va AND PTE_V \<noteq> 0"
    have uv': "user_va tp r va" using u uv by simp
    then have e: "pte_of (pmem s') r va = pte_of (pmem s) r va" by (simp add: pte user_va_def)
    let ?p = "PTE2PA (pte_of (pmem s) r va)"
    have v': "pte_of (pmem s) r va AND PTE_V \<noteq> 0" using v e by simp
    have nf: "?p \<notin> set fr" using mapped_not_free(1) [OF inv uv' v'] .
    have "leaf_ok tp held s (pte_of (pmem s) r va)" using vm_invD(6) [OF inv uv' v'] .
    then show "leaf_ok tp' held s' (pte_of (pmem s') r va)"
      using e nf rp old tables_growD(4) [OF g, of ?p] by (simp add: leaf_ok_def)
  next
    fix r va assume "is_root tp' r" "TRAPFRAME \<le> va" "va < MAXVA"
    then show "pte_of (pmem s') r va AND PTE_U = 0" using vm_invD(7) [OF inv] root pte by simp
  qed (rule pt)
qed

text \<open>Writes outside the tables and the free pages.\<close>

lemma pt_inv_write:
  assumes inv: "pt_inv tp s fr" and m: "\<And>x. PGROUNDDOWN x \<in> dom tp \<union> set fr \<Longrightarrow> m' x = pmem s x"
  shows "pt_inv tp (s\<lparr>pmem := m'\<rparr>) fr" and "is_root tp r \<Longrightarrow> pte_of m' r va = pte_of (pmem s) r va"
proof -
  note D = pt_invD [OF inv]
  have tab: "m' x = pmem s x" if "p \<in> dom tp" "x \<in> region p 4096" for p x
    using that m [of x] pt_typed_aligned [OF D(2)] by (simp add: page_member)
  have "flist m' (freelist s) fr = flist (pmem s) (freelist s) fr"
  proof (rule flist_cong)
    fix p x assume p: "p \<in> set fr" and x: "x \<in> region p 8"
    have "page_aligned p" using p D(1) by (simp add: kmem_inv_def ram_page_def)
    then have "PGROUNDDOWN x = p" using x region_sub [of 8 4096 p] by (auto simp: page_member)
    then show "m' x = pmem s x" using m p by simp
  qed
  then have "kmem_inv (s\<lparr>pmem := m'\<rparr>) fr" using D(1) by (simp add: kmem_inv_def ram_page_def)
  then show "pt_inv tp (s\<lparr>pmem := m'\<rparr>) fr"
    using inv pt_typed_cong [OF D(2) tab] by (simp add: pt_inv_def ram_page_def)
  show "pte_of m' r va = pte_of (pmem s) r va" if "is_root tp r"
    unfolding pte_of_def by (rule pte_at_cong [OF D(2) that [unfolded is_root_def] tab])
qed

lemma vm_inv_cong:
  assumes inv: "vm_inv tp held s fr" and pt: "pt_inv tp s' fr" and "page_refcnt s' = page_refcnt s"
    and "kern_end s' = kern_end s"
    and pte: "\<And>r va. is_root tp r \<Longrightarrow> va < MAXVA \<Longrightarrow> pte_of (pmem s') r va = pte_of (pmem s) r va"
  shows "vm_inv tp held s' fr"
proof -
  have pte': "pte_of (pmem s') r va = pte_of (pmem s) r va" if "user_va tp r va" for r va
    using that pte user_vaD by blast
  have maps: "mappings tp (pmem s') p = mappings tp (pmem s) p" for p
    using pte' by (intro mappings_cong) auto
  have rp: "ram_page s' = ram_page s" using assms(4) by (intro ext) (simp add: ram_page_def)
  have leaf: "leaf_ok tp held s' e = leaf_ok tp held s e" for e
    using assms(3) rp by (simp add: leaf_ok_def)
  show ?thesis
    unfolding vm_inv_def rp maps assms(3) leaf
    using vm_invD(2-7) [OF inv] pt pte pte' by (intro conjI allI impI ballI) simp_all
qed

lemma vm_inv_write:
  assumes inv: "vm_inv tp held s fr" and m: "\<And>x. PGROUNDDOWN x \<in> dom tp \<union> set fr \<Longrightarrow> m' x = pmem s x"
  shows "vm_inv tp held (s\<lparr>pmem := m'\<rparr>) fr"
  using pt_inv_write [OF vm_invD(1) [OF inv] m] by (intro vm_inv_cong [OF inv]) simp_all

text \<open>A page taken from the allocator is held by the kernel.\<close>

lemma vm_inv_kalloc:
  assumes inv: "vm_inv tp held s (p # ps)"
  shows "\<exists>s'. kalloc s = (p, s') \<and> p \<noteq> 0 \<and> vm_inv tp (insert p held) s' ps \<and> ram_page s p \<and>
    (\<forall>x. PGROUNDDOWN x \<noteq> p \<longrightarrow> pmem s' x = pmem s x) \<and> kern_end s' = kern_end s \<and>
    kmem.more s' = kmem.more s \<and> page_refcnt s' = (page_refcnt s)(p div PGSIZE := 1)"
proof -
  note D = pt_invD [OF vm_invD(1) [OF inv]]
  obtain s' where s': "kalloc s = (p, s')" using kalloc_page(1) [OF D(1)] by (metis prod.collapse)
  note K = kalloc_page [OF D(1), unfolded s' snd_conv] and F = free_unmapped [OF inv, of p, simplified]
  have al: "page_aligned p" using K(3) by (simp add: ram_page_def)
  have out: "pmem s' x = pmem s x" if "PGROUNDDOWN x \<noteq> p" for x using that K(6) al by (simp add: page_member)
  have more: "kmem.more s' = kmem.more s" using s' by (auto simp: kalloc_def Let_def)
  have rp: "ram_page s' q = ram_page s q" for q using K(8) by (simp add: ram_page_def)
  have ref: "refcnt s' q = (if q = p then 1 else refcnt s q)" if "ram_page s q" for q
    using that K(5) al page_index_inj [of q p] by (simp add: ram_page_def)
  have tab: "pmem s' x = pmem s x" if "q \<in> dom tp" "x \<in> region q 4096" for q x
  proof -
    have "q \<noteq> p" using that(1) F(4) by blast
    moreover have "PGROUNDDOWN x = q" using that pt_typed_aligned [OF D(2)] by (simp add: page_member)
    ultimately show ?thesis using out by simp
  qed
  have pt: "pt_inv tp s' ps"
    using D F(4) K(2) pt_typed_cong [OF D(2) tab] rp ref by (auto simp: pt_inv_def)
  have pte: "pte_of (pmem s') r va = pte_of (pmem s) r va" if "is_root tp r" for r va
    unfolding pte_of_def by (rule pte_at_cong [OF D(2) that [unfolded is_root_def] tab])
  have maps: "mappings tp (pmem s') q = mappings tp (pmem s) q" for q
    using pte by (intro mappings_cong) (auto simp: user_va_def)
  have "vm_inv tp (insert p held) s' ps"
    unfolding vm_inv_def
  proof (intro conjI allI impI ballI)
    show "insert p held \<inter> dom tp = {}" using F(4) vm_invD(2) [OF inv] by auto
    show "ram_page s' q" if "q \<in> insert p held" for q using that K(3) rp vm_invD(3) [OF inv] by auto
    show "refcnt s' q = int (card (mappings tp (pmem s') q)) + (if q \<in> dom tp \<union> insert p held then 1 else 0)"
      if "ram_page s' q" for q
      using that rp ref vm_invD(4) [OF inv, of q] maps F(3,4) by auto
    show "q \<in> set ps" if "ram_page s' q" "refcnt s' q = 0" for q
      using that rp ref vm_invD(5) [OF inv, of q] by (auto split: if_splits)
    show "leaf_ok tp (insert p held) s' (pte_of (pmem s') r va)"
      if u: "user_va tp r va" "pte_of (pmem s') r va AND PTE_V \<noteq> 0" for r va
    proof -
      have e: "pte_of (pmem s') r va = pte_of (pmem s) r va" using u pte by (simp add: user_va_def)
      then have "leaf_ok tp held s (pte_of (pmem s) r va)" "PTE2PA (pte_of (pmem s) r va) \<noteq> p"
        using u vm_invD(6) [OF inv] mapped_not_free(1) [OF inv u(1)] by auto
      then show ?thesis unfolding e using rp ref by (auto simp: leaf_ok_def)
    qed
    show "pte_of (pmem s') r va AND PTE_U = 0" if "is_root tp r" "TRAPFRAME \<le> va" "va < MAXVA" for r va
      using that pte vm_invD(7) [OF inv] by simp
  qed (rule pt)
  moreover have "p \<noteq> 0" using K(3) D(1) ram_page_nonzero [of s p] by (simp add: kmem_inv_def)
  ultimately show ?thesis using s' K out more by blast
qed

text \<open>\<open>kfree\<close> of a page that is neither a table nor free.\<close>

lemma kfree_pt_inv:
  assumes inv: "pt_inv tp s fr" and p: "ram_page s p" "p \<notin> dom tp" "p \<notin> set fr" "0 < refcnt s p"
  shows "\<exists>s'. kfree p s = Inr s' \<and> pt_inv tp s' (if refcnt s p = 1 then p # fr else fr) \<and>
    page_refcnt s' = (page_refcnt s)(p div PGSIZE := refcnt s p - 1) \<and>
    (\<forall>x. PGROUNDDOWN x \<noteq> p \<or> 1 < refcnt s p \<longrightarrow> pmem s' x = pmem s x) \<and>
    kern_end s' = kern_end s \<and> kmem.more s' = kmem.more s"
proof -
  note D = pt_invD [OF inv]
  have al: "page_aligned p" using p(1) by (simp add: ram_page_def)
  let ?fr = "if refcnt s p = 1 then p # fr else fr"
  have "\<exists>s'. kfree p s = Inr s' \<and> kmem_inv s' ?fr \<and>
    page_refcnt s' = (page_refcnt s)(p div PGSIZE := refcnt s p - 1) \<and>
    (\<forall>x. PGROUNDDOWN x \<noteq> p \<or> 1 < refcnt s p \<longrightarrow> pmem s' x = pmem s x) \<and> kern_end s' = kern_end s"
  proof (cases "refcnt s p = 1")
    case True
    then show ?thesis using kfree_last_inv [OF D(1) p(1,3)] al by (auto simp: page_member)
  next
    case False
    then show ?thesis using kfree_shared_inv [OF D(1) _ p(1)] p(4) by auto
  qed
  then obtain s' where s': "kfree p s = Inr s'" "kmem_inv s' ?fr"
    "page_refcnt s' = (page_refcnt s)(p div PGSIZE := refcnt s p - 1)"
    "\<And>x. PGROUNDDOWN x \<noteq> p \<or> 1 < refcnt s p \<Longrightarrow> pmem s' x = pmem s x" "kern_end s' = kern_end s"
    by blast
  have tab: "pmem s' x = pmem s x" if "q \<in> dom tp" "x \<in> region q 4096" for q x
  proof -
    have "q \<noteq> p" using that(1) p(2) by blast
    moreover have "PGROUNDDOWN x = q" using that pt_typed_aligned [OF D(2)] by (simp add: page_member)
    ultimately show ?thesis using s'(4) by simp
  qed
  have "refcnt s' q = 1" if "q \<in> dom tp" for q
    using that D(3,5) [of q] s'(3) p(2) al page_index_inj [of q p] by (auto simp: ram_page_def)
  then have "pt_inv tp s' ?fr"
    using s'(2,5) p(2) D(3,4) pt_typed_cong [OF D(2) tab] by (auto simp: pt_inv_def ram_page_def)
  moreover have "kmem.more s' = kmem.more s"
    using s'(1) by (auto simp: kfree_def Let_def split: if_splits)
  ultimately show ?thesis using s' by blast
qed

lemma vm_inv_kfree_held:
  assumes inv: "vm_inv tp held s fr" and p: "p \<in> held"
  shows "\<exists>s'. kfree p s = Inr s' \<and> vm_inv tp (held - {p}) s' (p # fr) \<and>
    (\<forall>x. PGROUNDDOWN x \<noteq> p \<longrightarrow> pmem s' x = pmem s x) \<and> kern_end s' = kern_end s \<and>
    kmem.more s' = kmem.more s \<and> (\<forall>r va. is_root tp r \<longrightarrow> pte_of (pmem s') r va = pte_of (pmem s) r va)"
proof -
  note P = vm_invD(1) [OF inv] note D = pt_invD [OF P]
  have ram: "ram_page s p" using vm_invD(3) [OF inv p] .
  have unmapped: "mappings tp (pmem s) p = {}"
    using vm_invD(6) [OF inv] p by (auto simp: mappings_def leaf_ok_def)
  have one: "refcnt s p = 1" using vm_invD(4) [OF inv ram] unmapped p by simp
  have nt: "p \<notin> dom tp" "p \<notin> set fr" using p vm_invD(2) [OF inv] free_unmapped(4) [OF inv, of p] by auto
  obtain s' where s': "kfree p s = Inr s'" "pt_inv tp s' (p # fr)"
    "page_refcnt s' = (page_refcnt s)(p div PGSIZE := 0)"
    "\<And>x. PGROUNDDOWN x \<noteq> p \<Longrightarrow> pmem s' x = pmem s x" "kern_end s' = kern_end s" "kmem.more s' = kmem.more s"
    using kfree_pt_inv [OF P ram nt] one by auto
  have al: "page_aligned p" using ram by (simp add: ram_page_def)
  have rp: "ram_page s' = ram_page s" using s'(5) by (intro ext) (simp add: ram_page_def)
  have ref: "refcnt s' q = (if q = p then 0 else refcnt s q)" if "ram_page s q" for q
    using that s'(3) al page_index_inj [of q p] by (simp add: ram_page_def)
  have pte: "pte_of (pmem s') r va = pte_of (pmem s) r va" if "is_root tp r" for r va
    unfolding pte_of_def
  proof (rule pte_at_cong [OF D(2) that [unfolded is_root_def]])
    fix q x assume q: "q \<in> dom tp" "x \<in> region q 4096"
    have "q \<noteq> p" using q(1) nt(1) by blast
    moreover have "PGROUNDDOWN x = q" using q pt_typed_aligned [OF D(2)] by (simp add: page_member)
    ultimately show "pmem s' x = pmem s x" using s'(4) by simp
  qed
  have maps: "mappings tp (pmem s') q = mappings tp (pmem s) q" for q
    using pte by (intro mappings_cong) (auto simp: user_va_def)
  have "vm_inv tp (held - {p}) s' (p # fr)"
    unfolding vm_inv_def rp maps
  proof (intro conjI allI impI ballI)
    show "refcnt s' q = int (card (mappings tp (pmem s) q)) + (if q \<in> dom tp \<union> (held - {p}) then 1 else 0)"
      if "ram_page s q" for q
      using that ref vm_invD(4) [OF inv, of q] nt(1) unmapped by auto
    show "q \<in> set (p # fr)" if "ram_page s q" "refcnt s' q = 0" for q
      using that ref vm_invD(5) [OF inv, of q] by (auto split: if_splits)
    show "leaf_ok tp (held - {p}) s' (pte_of (pmem s') r va)"
      if u: "user_va tp r va" "pte_of (pmem s') r va AND PTE_V \<noteq> 0" for r va
    proof -
      have e: "pte_of (pmem s') r va = pte_of (pmem s) r va" using u pte by (simp add: user_va_def)
      then have "leaf_ok tp held s (pte_of (pmem s) r va)" using u vm_invD(6) [OF inv] by simp
      then show ?thesis unfolding e using rp ref p by (auto simp: leaf_ok_def)
    qed
    show "pte_of (pmem s') r va AND PTE_U = 0" if "is_root tp r" "TRAPFRAME \<le> va" "va < MAXVA" for r va
      using that pte vm_invD(7) [OF inv] by simp
  qed (use s'(2) vm_invD(2,3) [OF inv] in auto)
  then show ?thesis using s' pte by blast
qed

section \<open>Changing one user entry\<close>

lemma set_pte_user:
  assumes pt: "pt_inv tp s fr" and u: "user_va tp r va" and q: "pt_leaf (pmem s) 2 r va = Some q"
  shows "user_va tp r' va' \<Longrightarrow> pte_of (pmem (set_pte q va v s)) r' va' =
      (if r' = r \<and> va' = va then v else pte_of (pmem s) r' va')"
    and "is_root tp r' \<Longrightarrow> TRAPFRAME \<le> va' \<Longrightarrow> va' < MAXVA \<Longrightarrow>
      pte_of (pmem (set_pte q va v s)) r' va' = pte_of (pmem s) r' va'"
    and "mappings tp (pmem (set_pte q va v s)) p = (mappings tp (pmem s) p - {(r, va)}) \<union>
      (if v AND PTE_V \<noteq> 0 \<and> PTE2PA v = p then {(r, va)} else {})"
proof -
  have r: "is_root tp r" "va < MAXVA" "page_aligned va" using user_vaD [OF u] by auto
  show upd: "pte_of (pmem (set_pte q va v s)) r' va' =
      (if r' = r \<and> va' = va then v else pte_of (pmem s) r' va')" if "user_va tp r' va'" for r' va'
    using set_pte_inv(3) [OF pt r(1,2) q, of r' va'] user_vaD [OF that] r(3) by simp
  show "mappings tp (pmem (set_pte q va v s)) p = (mappings tp (pmem s) p - {(r, va)}) \<union>
      (if v AND PTE_V \<noteq> 0 \<and> PTE2PA v = p then {(r, va)} else {})"
    using u upd by (rule mappings_update)
  show "pte_of (pmem (set_pte q va v s)) r' va' = pte_of (pmem s) r' va'"
    if h: "is_root tp r'" "TRAPFRAME \<le> va'" "va' < MAXVA"
  proof -
    have "unat va < 0x3fffffe000" "0x3fffffe000 \<le> unat va'"
      using u h(2) by (simp_all add: user_va_def TRAPFRAME_eq word_less_nat_alt word_le_nat_alt)
    then have "unat (PGROUNDDOWN va') \<noteq> unat va"
      using div_le_mono [of "0x3fffffe000" "unat va'" 4096] by (simp add: unat_PGROUNDDOWN)
    then have "PGROUNDDOWN va' \<noteq> PGROUNDDOWN va" using r(3) by auto
    then show ?thesis using set_pte_inv(3) [OF pt r(1,2) q h(1,3)] by simp
  qed
qed

lemma vm_inv_map:
  assumes inv: "vm_inv tp held s fr" and p: "p \<in> held" and u: "user_va tp r va"
    and q: "pt_leaf (pmem s) 2 r va = Some q" and old: "pte_of (pmem s) r va AND PTE_V = 0"
    and v: "v AND PTE_V \<noteq> 0" "PTE2PA v = p" "PTE_FLAGS v \<noteq> PTE_V"
  shows "vm_inv tp (held - {p}) (set_pte q va v s) fr"
proof -
  note P = vm_invD(1) [OF inv] and r = user_vaD [OF u]
  let ?s = "set_pte q va v s"
  note S = set_pte_user [OF P u q, where v = v]
  have unmapped: "mappings tp (pmem s) p = {}"
    using vm_invD(6) [OF inv] p by (auto simp: mappings_def leaf_ok_def)
  have notin: "(r, va) \<notin> mappings tp (pmem s) x" for x using old by (simp add: mappings_iff)
  have ram: "ram_page s p" "p \<notin> dom tp" using vm_invD(2,3) [OF inv] p by auto
  show ?thesis
    unfolding vm_inv_def set_pte_simps
  proof (intro conjI allI impI ballI)
    show "pt_inv tp ?s fr" using set_pte_inv(1) [OF P _ _ q] r by blast
    show "refcnt s x = int (card (mappings tp (pmem ?s) x)) + (if x \<in> dom tp \<union> (held - {p}) then 1 else 0)"
      if "ram_page s x" for x
      using that vm_invD(4) [OF inv, of x] S(3) [of x] unmapped notin ram(2) v p
      by (cases "x = p") auto
    show "leaf_ok tp (held - {p}) ?s (pte_of (pmem ?s) r' va')"
      if "user_va tp r' va'" "pte_of (pmem ?s) r' va' AND PTE_V \<noteq> 0" for r' va'
    proof (cases "r' = r \<and> va' = va")
      case True
      then have "pte_of (pmem ?s) r' va' = v" using S(1) [OF u] by simp
      then show ?thesis
        using v ram vm_invD(4) [OF inv ram(1)] unmapped p by (simp add: leaf_ok_def)
    next
      case False
      then have "pte_of (pmem ?s) r' va' = pte_of (pmem s) r' va'" using S(1) [OF that(1)] by auto
      then show ?thesis using that vm_invD(6) [OF inv that(1)] by (simp add: leaf_ok_def)
    qed
    show "pte_of (pmem ?s) r' va' AND PTE_U = 0" if "is_root tp r'" "TRAPFRAME \<le> va'" "va' < MAXVA" for r' va'
      using that S(2) vm_invD(7) [OF inv] by simp
  qed (use vm_invD(2,3,5) [OF inv] in auto)
qed

lemma vm_inv_unmap:
  assumes inv: "vm_inv tp held s fr" and u: "user_va tp r va"
    and q: "pt_leaf (pmem s) 2 r va = Some q" and e: "pte_of (pmem s) r va AND PTE_V \<noteq> 0"
  defines "p \<equiv> PTE2PA (pte_of (pmem s) r va)"
  shows "\<exists>s1. kfree p s = Inr s1 \<and>
    vm_inv tp held (set_pte q va 0 s1) (if refcnt s p = 1 then p # fr else fr) \<and>
    pt_leaf (pmem s1) 2 r va = Some q \<and> pt_inv tp s1 (if refcnt s p = 1 then p # fr else fr) \<and>
    (\<forall>x. PGROUNDDOWN x \<noteq> p \<or> 1 < refcnt s p \<longrightarrow> pmem s1 x = pmem s x) \<and>
    kern_end s1 = kern_end s \<and> kmem.more s1 = kmem.more s \<and>
    (\<forall>r va. is_root tp r \<longrightarrow> pte_of (pmem s1) r va = pte_of (pmem s) r va)"
proof -
  note P = vm_invD(1) [OF inv] and r = user_vaD [OF u] note D = pt_invD [OF P]
  let ?fr = "if refcnt s p = 1 then p # fr else fr"
  have leaf: "leaf_ok tp held s (pte_of (pmem s) r va)" using vm_invD(6) [OF inv u e] .
  then have p: "ram_page s p" "p \<notin> dom tp" "p \<notin> held" by (simp_all add: leaf_ok_def p_def)
  have nf: "p \<notin> set fr" "0 < refcnt s p" using mapped_not_free [OF inv u e] by (simp_all add: p_def)
  obtain s1 where s1: "kfree p s = Inr s1" "pt_inv tp s1 ?fr"
    "page_refcnt s1 = (page_refcnt s)(p div PGSIZE := refcnt s p - 1)"
    "\<And>x. PGROUNDDOWN x \<noteq> p \<or> 1 < refcnt s p \<Longrightarrow> pmem s1 x = pmem s x"
    "kern_end s1 = kern_end s" "kmem.more s1 = kmem.more s"
    using kfree_pt_inv [OF P p(1,2) nf] by blast
  have tab: "pmem s1 x = pmem s x" if "a \<in> dom tp" "x \<in> region a 4096" for a x
  proof -
    have "a \<noteq> p" using that(1) p(2) by blast
    moreover have "PGROUNDDOWN x = a" using that pt_typed_aligned [OF D(2)] by (simp add: page_member)
    ultimately show ?thesis using s1(4) by simp
  qed
  have pte: "pte_of (pmem s1) r va = pte_of (pmem s) r va" if "is_root tp r" for r va
    unfolding pte_of_def by (rule pte_at_cong [OF D(2) that [unfolded is_root_def] tab])
  have q1: "pt_leaf (pmem s1) 2 r va = Some q"
  proof -
    have "pt_leaf (pmem s1) 2 r va = pt_leaf (pmem s) 2 r va"
      using r by (intro pt_leaf_cong [OF D(2) root_role] role_slot_cong [OF D(2) _ _ tab]) auto
    then show ?thesis using q by simp
  qed
  have maps1: "mappings tp (pmem s1) x = mappings tp (pmem s) x" for x
    using pte by (intro mappings_cong) (auto simp: user_va_def)
  let ?s = "set_pte q va 0 s1"
  note S = set_pte_user [OF s1(2) u q1, where v = 0]
  have maps: "mappings tp (pmem ?s) x = mappings tp (pmem s) x - {(r, va)}" for x
    using S(3) maps1 by simp
  have mem: "(r, va) \<in> mappings tp (pmem s) x \<longleftrightarrow> x = p" for x using u e by (auto simp: mappings_iff p_def)
  have rp: "ram_page s1 = ram_page s" using s1(5) by (intro ext) (simp add: ram_page_def)
  have al: "page_aligned p" using p(1) by (simp add: ram_page_def)
  have ref: "refcnt s1 x = (if x = p then refcnt s p - 1 else refcnt s x)" if "ram_page s x" for x
    using that s1(3) al page_index_inj [of x p] by (simp add: ram_page_def)
  have "vm_inv tp held ?s ?fr"
    unfolding vm_inv_def set_pte_simps rp
  proof (intro conjI allI impI ballI)
    show "pt_inv tp ?s ?fr" using set_pte_inv(1) [OF s1(2) _ _ q1] r by blast
    show "refcnt s1 x = int (card (mappings tp (pmem ?s) x)) + (if x \<in> dom tp \<union> held then 1 else 0)"
      if "ram_page s x" for x
    proof (cases "x = p")
      case True
      have "card (mappings tp (pmem s) p) > 0" using mem by (auto simp: card_gt_0_iff)
      then have "int (card (mappings tp (pmem s) p - {(r, va)})) = int (card (mappings tp (pmem s) p)) - 1"
        using mem by (simp add: card_Diff_singleton of_nat_diff)
      then show ?thesis using True ref that vm_invD(4) [OF inv that] maps p by simp
    next
      case False
      then show ?thesis using ref that vm_invD(4) [OF inv that] maps mem [of x] by simp
    qed
    show "x \<in> set ?fr" if "ram_page s x" "refcnt s1 x = 0" for x
      using that ref vm_invD(5) [OF inv, of x] by (auto split: if_splits)
    show "leaf_ok tp held ?s (pte_of (pmem ?s) r' va')"
      if h: "user_va tp r' va'" "pte_of (pmem ?s) r' va' AND PTE_V \<noteq> 0" for r' va'
    proof -
      have ne: "\<not> (r' = r \<and> va' = va)" using h S(1) [OF h(1)] by auto
      then have e': "pte_of (pmem ?s) r' va' = pte_of (pmem s) r' va'"
        using S(1) [OF h(1)] pte user_vaD [OF h(1)] by auto
      have v': "pte_of (pmem s) r' va' AND PTE_V \<noteq> 0" using h(2) e' by simp
      let ?x = "PTE2PA (pte_of (pmem s) r' va')"
      have l: "leaf_ok tp held s (pte_of (pmem s) r' va')" using vm_invD(6) [OF inv h(1) v'] .
      have "refcnt s1 ?x = 1" if "pte_of (pmem s) r' va' AND PTE_W \<noteq> 0"
      proof -
        have one: "refcnt s ?x = 1" using l that by (simp add: leaf_ok_def)
        then have "(r, va) \<notin> mappings tp (pmem s) ?x"
          using private_mapping [OF inv h(1) v'] ne by auto
        then show ?thesis using mem ref [of ?x] l one by (simp add: leaf_ok_def)
      qed
      then show ?thesis using l rp unfolding e' by (simp add: leaf_ok_def)
    qed
    show "pte_of (pmem ?s) r' va' AND PTE_U = 0" if "is_root tp r'" "TRAPFRAME \<le> va'" "va' < MAXVA" for r' va'
      using that S(2) pte vm_invD(7) [OF inv] by simp
  qed (use vm_invD(2,3) [OF inv] in auto)
  then show ?thesis using s1 q1 pte by blast
qed

lemma vm_inv_reflag:
  assumes inv: "vm_inv tp held s fr" and u: "user_va tp r va"
    and q: "pt_leaf (pmem s) 2 r va = Some q" and e: "pte_of (pmem s) r va AND PTE_V \<noteq> 0"
    and v: "v AND PTE_V \<noteq> 0" "PTE2PA v = PTE2PA (pte_of (pmem s) r va)" "PTE_FLAGS v \<noteq> PTE_V"
      "v AND PTE_W \<noteq> 0 \<longrightarrow> pte_of (pmem s) r va AND PTE_W \<noteq> 0"
  shows "vm_inv tp held (set_pte q va v s) fr"
    and "mappings tp (pmem (set_pte q va v s)) p = mappings tp (pmem s) p"
proof -
  note P = vm_invD(1) [OF inv] and r = user_vaD [OF u]
  let ?s = "set_pte q va v s"
  note S = set_pte_user [OF P u q, where v = v]
  show maps: "mappings tp (pmem ?s) x = mappings tp (pmem s) x" for x
    using S(3) [of x] v(1,2) u e by (auto simp: mappings_iff split: if_splits)
  show "vm_inv tp held ?s fr"
    unfolding vm_inv_def set_pte_simps maps
  proof (intro conjI allI impI ballI)
    show "pt_inv tp ?s fr" using set_pte_inv(1) [OF P _ _ q] r by blast
    show "leaf_ok tp held ?s (pte_of (pmem ?s) r' va')"
      if "user_va tp r' va'" "pte_of (pmem ?s) r' va' AND PTE_V \<noteq> 0" for r' va'
    proof (cases "r' = r \<and> va' = va")
      case True
      then have "pte_of (pmem ?s) r' va' = v" using S(1) [OF u] by simp
      then show ?thesis using v vm_invD(6) [OF inv u e] by (simp add: leaf_ok_def)
    next
      case False
      then have "pte_of (pmem ?s) r' va' = pte_of (pmem s) r' va'" using S(1) [OF that(1)] by auto
      then show ?thesis using that vm_invD(6) [OF inv that(1)] by (simp add: leaf_ok_def)
    qed
    show "pte_of (pmem ?s) r' va' AND PTE_U = 0" if "is_root tp r'" "TRAPFRAME \<le> va'" "va' < MAXVA" for r' va'
      using that S(2) vm_invD(7) [OF inv] by simp
  qed (use vm_invD(2-5) [OF inv] in auto)
qed

lemma vm_inv_share:
  assumes inv: "vm_inv tp held s fr" and u: "user_va tp r va"
    and q: "pt_leaf (pmem s) 2 r va = Some q" and old: "pte_of (pmem s) r va AND PTE_V = 0"
    and v: "v AND PTE_V \<noteq> 0" "PTE2PA v = p" "PTE_FLAGS v \<noteq> PTE_V" "v AND PTE_W = 0"
    and p: "ram_page s p" "p \<notin> dom tp \<union> held" "p \<notin> set fr"
    and ro: "\<And>r' va'. (r', va') \<in> mappings tp (pmem s) p \<Longrightarrow> pte_of (pmem s) r' va' AND PTE_W = 0"
  shows "vm_inv tp held ((set_pte q va v s)\<lparr>page_refcnt := (page_refcnt s)(p div PGSIZE := refcnt s p + 1)\<rparr>) fr"
proof -
  note P = vm_invD(1) [OF inv] and r = user_vaD [OF u]
  let ?s1 = "set_pte q va v s" let ?s = "?s1\<lparr>page_refcnt := (page_refcnt s)(p div PGSIZE := refcnt s p + 1)\<rparr>"
  note S = set_pte_user [OF P u q, where v = v]
  have al: "page_aligned p" using p(1) by (simp add: ram_page_def)
  have rp: "ram_page ?s = ram_page s" by (intro ext) (simp add: ram_page_def)
  have ref: "refcnt ?s x = (if x = p then refcnt s p + 1 else refcnt s x)" if "ram_page s x" for x
    using that al page_index_inj [of x p] by (simp add: ram_page_def)
  have pt1: "pt_inv tp ?s1 fr" using set_pte_inv(1) [OF P _ _ q] r by blast
  have "0 \<le> refcnt s p" using pt_invD(1) [OF P] by (simp add: kmem_inv_def)
  then have pt: "pt_inv tp ?s fr"
    using pt1 p(2,3) ref rp unfolding pt_inv_def kmem_inv_def
    by (auto simp: ram_page_def split: if_splits)
  have notin: "(r, va) \<notin> mappings tp (pmem s) x" for x using old by (simp add: mappings_iff)
  show ?thesis
    unfolding vm_inv_def rp
  proof (intro conjI allI impI ballI)
    show "refcnt ?s x = int (card (mappings tp (pmem ?s) x)) + (if x \<in> dom tp \<union> held then 1 else 0)"
      if "ram_page s x" for x
      using that vm_invD(4) [OF inv that] ref S(3) [of x] notin v(1,2) p(2) by (cases "x = p") auto
    show "x \<in> set fr" if "ram_page s x" "refcnt ?s x = 0" for x
      using that ref [of x] vm_invD(5) [OF inv, of x] \<open>0 \<le> refcnt s p\<close> by (cases "x = p") auto
    show "leaf_ok tp held ?s (pte_of (pmem ?s) r' va')"
      if h: "user_va tp r' va'" "pte_of (pmem ?s) r' va' AND PTE_V \<noteq> 0" for r' va'
    proof (cases "r' = r \<and> va' = va")
      case True
      then have "pte_of (pmem ?s) r' va' = v" using S(1) [OF u] by simp
      then show ?thesis using v p rp by (simp add: leaf_ok_def)
    next
      case False
      then have e: "pte_of (pmem ?s) r' va' = pte_of (pmem s) r' va'" using S(1) [OF h(1)] by auto
      have v': "pte_of (pmem s) r' va' AND PTE_V \<noteq> 0" using h(2) e by simp
      have l: "leaf_ok tp held s (pte_of (pmem s) r' va')" using vm_invD(6) [OF inv h(1) v'] .
      have "PTE2PA (pte_of (pmem s) r' va') \<noteq> p" if "pte_of (pmem s) r' va' AND PTE_W \<noteq> 0"
        using that ro [of r' va'] h(1) v' by (auto simp: mappings_iff)
      then show ?thesis using l ref rp unfolding e by (auto simp: leaf_ok_def)
    qed
    show "pte_of (pmem ?s) r' va' AND PTE_U = 0" if "is_root tp r'" "TRAPFRAME \<le> va'" "va' < MAXVA" for r' va'
      using that S(2) vm_invD(7) [OF inv] by simp
  qed (use pt vm_invD(2,3) [OF inv] in auto)
qed

end
