(* ===== verification/VmUser.thy ===== *)
theory VmUser
  imports VmSpace
begin

text \<open>
  What a process reads at a user address, and the effect of the copy-on-write step, of
  \<open>copyout\<close>, \<open>copyin\<close>, \<open>uvmcopy\<close>, \<open>uvmunmap\<close> and \<open>uvmalloc\<close> on it, for every process at once.
\<close>

section \<open>The user view of memory\<close>

definition user_byte :: "memory \<Rightarrow> uint64 \<Rightarrow> uint64 \<Rightarrow> uint8 option" where
  "user_byte m r va =
     (let e = pte_of m r va in
      if va < MAXVA \<and> e AND PTE_V \<noteq> 0 \<and> e AND PTE_U \<noteq> 0
      then Some (m (PTE2PA e + (va - PGROUNDDOWN va))) else None)"

lemma page_plus_offset:
  assumes "page_aligned p"
  shows "PGROUNDDOWN (p + (va - PGROUNDDOWN va)) = p"
proof -
  have "unat (p + (va - PGROUNDDOWN va) - p) < 4096" using page_offset_bound [of va] by simp
  then have "p + (va - PGROUNDDOWN va) \<in> region p 4096" by (simp add: in_region)
  then show ?thesis using assms by (simp add: page_member)
qed

lemma user_byte_cong:
  assumes "pte_of m' r va = pte_of m r va"
    and "\<And>x. va < MAXVA \<Longrightarrow> pte_of m r va AND PTE_V \<noteq> 0 \<Longrightarrow> pte_of m r va AND PTE_U \<noteq> 0 \<Longrightarrow>
      PGROUNDDOWN x = PTE2PA (pte_of m r va) \<Longrightarrow> m' x = m x"
  shows "user_byte m' r va = user_byte m r va"
  using assms(1) assms(2) [of "PTE2PA (pte_of m r va) + (va - PGROUNDDOWN va)"]
  by (auto simp: user_byte_def Let_def page_plus_offset)

text \<open>A user page lies below the trapframe.\<close>

lemma user_page:
  assumes inv: "vm_inv tp held s fr" and "is_root tp r" and "va < MAXVA"
    and "pte_of (pmem s) r va AND PTE_U \<noteq> 0"
  shows "user_va tp r (PGROUNDDOWN va)"
proof -
  have "va < TRAPFRAME" using vm_invD(7) [OF inv assms(2) _ assms(3)] assms(4) by (meson not_le)
  then have "PGROUNDDOWN va < TRAPFRAME"
    by (simp add: word_less_nat_alt unat_PGROUNDDOWN)
  then show ?thesis using assms(2) by (simp add: user_va_def)
qed

lemma user_byte_frame:
  assumes inv: "vm_inv tp held s fr" and r: "is_root tp r"
    and "pte_of m' r va = pte_of (pmem s) r va"
    and m: "\<And>x p. user_va tp r (PGROUNDDOWN va) \<Longrightarrow> (r, PGROUNDDOWN va) \<in> mappings tp (pmem s) p \<Longrightarrow>
      leaf_ok tp held s (pte_of (pmem s) r va) \<Longrightarrow> p \<notin> set fr \<Longrightarrow> PGROUNDDOWN x = p \<Longrightarrow> m' x = pmem s x"
  shows "user_byte m' r va = user_byte (pmem s) r va"
proof (rule user_byte_cong [OF assms(3)])
  fix x assume h: "va < MAXVA" "pte_of (pmem s) r va AND PTE_V \<noteq> 0" "pte_of (pmem s) r va AND PTE_U \<noteq> 0"
    and x: "PGROUNDDOWN x = PTE2PA (pte_of (pmem s) r va)"
  have u: "user_va tp r (PGROUNDDOWN va)" using user_page [OF inv r h(1,3)] .
  have "(r, PGROUNDDOWN va) \<in> mappings tp (pmem s) (PTE2PA (pte_of (pmem s) r va))"
    using u h by (simp add: mappings_iff)
  moreover have "leaf_ok tp held s (pte_of (pmem s) r va)" using vm_invD(6) [OF inv u] h(2) by simp
  moreover have "PTE2PA (pte_of (pmem s) r va) \<notin> set fr" using mapped_not_free(1) [OF inv u] h(2) by simp
  ultimately show "m' x = pmem s x" using m u x by blast
qed

section \<open>Flag arithmetic\<close>

lemma PTE_FLAGS_or [simp]: "PTE_FLAGS (a OR b) = PTE_FLAGS a OR PTE_FLAGS b"
  by (rule bit_eqI) (auto simp: bit_PTE_FLAGS bit_or_iff)

lemma PTE_FLAGS_consts [simp]:
  "PTE_FLAGS PTE_R = PTE_R" "PTE_FLAGS PTE_W = PTE_W" "PTE_FLAGS PTE_X = PTE_X"
  "PTE_FLAGS PTE_U = PTE_U" "PTE_FLAGS PTE_COW = PTE_COW"
  by (rule bit_eqI, auto simp: bit_PTE_FLAGS)+

lemma PTE_FLAGS_andnot [simp]: "PTE_FLAGS (PTE_FLAGS a AND NOT b) = PTE_FLAGS a AND NOT b"
  by (rule bit_eqI) (auto simp: bit_PTE_FLAGS bit_and_iff)

definition cow_flags :: "uint64 \<Rightarrow> uint64" where
  "cow_flags e = (PTE_FLAGS e AND NOT PTE_COW) OR PTE_W"

lemma bit_entry:
  "k < 10 \<Longrightarrow> bit (PA2PTE pa OR fl) k \<longleftrightarrow> bit fl k"
  by (auto simp: bit_or_iff bit_PA2PTE)

lemma cow_entry:
  fixes e :: uint64
  assumes "page_aligned p"
  defines "e' \<equiv> PA2PTE p OR cow_flags e OR PTE_V"
  shows "PTE2PA e' = p" and "e' AND PTE_V \<noteq> 0" and "e' AND PTE_W \<noteq> 0" and "e' AND PTE_COW = 0"
    and "PTE_FLAGS e' \<noteq> PTE_V" and "e' AND PTE_U = 0 \<longleftrightarrow> e AND PTE_U = 0"
proof -
  have fl: "PTE_FLAGS (cow_flags e OR PTE_V) = cow_flags e OR PTE_V" by (simp add: cow_flags_def)
  show "PTE2PA e' = p" using assms(1) fl unfolding e'_def by (rule PTE2PA_PA2PTE)
  have F: "PTE_FLAGS e' = cow_flags e OR PTE_V" using fl unfolding e'_def by (rule PTE_FLAGS_PA2PTE)
  have b: "bit e' k \<longleftrightarrow> k = 2 \<or> k = 0 \<or> (k \<noteq> 8 \<and> bit e k)" if "k < 10" for k
    using that unfolding e'_def by (simp add: bit_entry bit_or_iff cow_flags_def bit_PTE_FLAGS
        bit_and_iff bit_not_iff possible_bit_word bit_PA2PTE) auto
  show "e' AND PTE_V \<noteq> 0" "e' AND PTE_W \<noteq> 0" "e' AND PTE_COW = 0" "e' AND PTE_U = 0 \<longleftrightarrow> e AND PTE_U = 0"
    unfolding flag_bits using b by auto
  have "bit (PTE_FLAGS e') 2" using b by (simp add: bit_PTE_FLAGS)
  then show "PTE_FLAGS e' \<noteq> PTE_V" by auto
qed

section \<open>The copy-on-write step\<close>

lemma memmove_page:
  assumes "page_aligned d" and "d < PHYSTOP" and "page_aligned a" and "a < PHYSTOP"
  shows "memmove m d a 4096 = mem_write m d (mem_read m a 4096)"
  using assms by (intro memmove_eq) (auto simp: PHYSTOP_eq word_less_nat_alt)

lemma copied_page:
  assumes "page_aligned d" and "PGROUNDDOWN x = d"
  shows "mem_write m d (mem_read m a 4096) x = m (a + (x - d))"
proof -
  have "unat (x - d) < 4096" using assms page_offset_bound [of x] by auto
  then show ?thesis by (simp add: mem_write_def)
qed

lemma copyout_cow_nomem:
  assumes inv: "vm_inv tp held s []"
  shows "\<exists>s'. copyout_cow r va pte s = Inr (-1, s') \<and> vm_inv tp held s' [] \<and> pmem s' = pmem s \<and>
    kern_end s' = kern_end s \<and> kmem.more s' = kmem.more s"
proof -
  obtain s' where s': "kalloc s = (0, s')" "pt_inv tp s' []" "tables_grow tp [] s tp [] s'" "pmem s' = pmem s"
    using kalloc_none [OF vm_invD(1) [OF inv]] by blast
  then show ?thesis
    using vm_inv_grow [OF inv s'(3,2)] tables_growD(5,6) [OF s'(3)] by (simp add: copyout_cow_def)
qed

lemma copyout_cow_step:
  assumes inv: "vm_inv tp held s (p # ps)" and u: "user_va tp r va"
    and q: "pt_leaf (pmem s) 2 r va = Some q" and e: "pte_of (pmem s) r va AND PTE_V \<noteq> 0"
  defines "old \<equiv> PTE2PA (pte_of (pmem s) r va)"
    and "e' \<equiv> PA2PTE p OR cow_flags (pte_of (pmem s) r va) OR PTE_V"
  shows "\<exists>s' fr'. copyout_cow r va (slot q (px 0 va)) s = Inr (0, s') \<and> vm_inv tp held s' fr' \<and>
    (\<forall>r' va'. is_root tp r' \<longrightarrow> va' < MAXVA \<longrightarrow> pte_of (pmem s') r' va' =
       (if r' = r \<and> PGROUNDDOWN va' = va then e' else pte_of (pmem s) r' va')) \<and>
    (\<forall>x. PGROUNDDOWN x \<notin> insert p (dom tp) \<longrightarrow> PGROUNDDOWN x \<noteq> old \<or> 1 < refcnt s old \<longrightarrow>
       pmem s' x = pmem s x) \<and>
    (\<forall>x. PGROUNDDOWN x = p \<longrightarrow> pmem s' x = pmem s (old + (x - p))) \<and>
    pt_leaf (pmem s') 2 r va = Some q \<and> kern_end s' = kern_end s \<and> kmem.more s' = kmem.more s \<and>
    length ps \<le> length fr'"
proof -
  note P = vm_invD(1) [OF inv] and rt = user_vaD [OF u]
  have R: "is_root tp r" "va < MAXVA" "page_aligned va" using rt by auto
  let ?e = "pte_of (pmem s) r va" and ?sl = "slot q (px 0 va)"
  note L = leaf_slot [OF P R(1,2) q] and F = free_unmapped [OF inv, of p, simplified]
  have old: "ram_page s old" "old \<notin> dom tp" "old \<notin> held" "old \<noteq> p" "PTE_FLAGS ?e \<noteq> PTE_V"
    using vm_invD(6) [OF inv u e] mapped_not_free(1) [OF inv u e] by (auto simp: leaf_ok_def old_def)
  have pp: "page_aligned p" "p < PHYSTOP" "page_aligned old" "old < PHYSTOP"
    using F(1) old(1) by (auto simp: ram_page_def)
  obtain s1 where s1: "kalloc s = (p, s1)" "p \<noteq> 0" "vm_inv tp (insert p held) s1 ps"
    "\<And>x. PGROUNDDOWN x \<noteq> p \<Longrightarrow> pmem s1 x = pmem s x" "kern_end s1 = kern_end s"
    "kmem.more s1 = kmem.more s" "page_refcnt s1 = (page_refcnt s)(p div PGSIZE := 1)"
    using vm_inv_kalloc [OF inv] by blast
  define m2 where "m2 = mem_write (pmem s1) p (mem_read (pmem s1) old 4096)"
  have m2_out: "m2 x = pmem s x" if "PGROUNDDOWN x \<noteq> p" for x
    using that s1(4) pp(1) by (simp add: m2_def mem_write_outside page_member)
  have m2_in: "m2 x = pmem s (old + (x - p))" if "PGROUNDDOWN x = p" for x
  proof -
    have "PGROUNDDOWN (old + (x - p)) = old" using page_plus_offset [OF pp(3), of x] that by simp
    then show ?thesis using copied_page [OF pp(1) that] s1(4) old(4) by (simp add: m2_def)
  qed
  define s2 where "s2 = s1\<lparr>pmem := m2\<rparr>"
  have notin: "p \<notin> dom tp \<union> set ps"
    using F(4) pt_invD(1) [OF P] by (simp add: kmem_inv_def)
  have inv2: "vm_inv tp (insert p held) s2 ps"
    unfolding s2_def
  proof (rule vm_inv_write [OF s1(3)])
    fix x assume "PGROUNDDOWN x \<in> dom tp \<union> set ps"
    then have "PGROUNDDOWN x \<noteq> p" using notin by blast
    then show "m2 x = pmem s1 x" using m2_out s1(4) by simp
  qed
  note P2 = vm_invD(1) [OF inv2]
  have tab: "pmem s2 x = pmem s x" if "a \<in> dom tp" "x \<in> region a 4096" for a x
  proof -
    have "PGROUNDDOWN x = a" using that pt_typed_aligned [OF pt_invD(2) [OF P]] by (simp add: page_member)
    moreover have "a \<noteq> p" using that(1) notin by blast
    ultimately show ?thesis using m2_out by (simp add: s2_def)
  qed
  have pte2: "pte_of (pmem s2) r' va' = pte_of (pmem s) r' va'" if "is_root tp r'" for r' va'
    unfolding pte_of_def by (rule pte_at_cong [OF pt_invD(2) [OF P] that [unfolded is_root_def] tab])
  have q2: "pt_leaf (pmem s2) 2 r va = Some q"
  proof -
    have "pt_leaf (pmem s2) 2 r va = pt_leaf (pmem s) 2 r va"
      using R by (intro pt_leaf_cong [OF pt_invD(2) [OF P] root_role] role_slot_cong [OF pt_invD(2) [OF P] _ _ tab]) auto
    then show ?thesis using q by simp
  qed
  have ref2: "refcnt s2 old = refcnt s old"
    using s1(7) pp(1,3) old(4) page_index_inj [of old p] by (simp add: s2_def)
  have v2: "pte_of (pmem s2) r va AND PTE_V \<noteq> 0" "PTE_FLAGS (pte_of (pmem s2) r va) \<noteq> PTE_V"
    using pte2 [OF R(1)] e old(5) by simp_all
  let ?fr = "if refcnt s2 old = 1 then old # ps else ps"
  obtain s3 where s3: "kfree old s2 = Inr s3" "vm_inv tp (insert p held) (set_pte q va 0 s3) ?fr"
    "pt_leaf (pmem s3) 2 r va = Some q" "pt_inv tp s3 ?fr"
    "\<And>x. PGROUNDDOWN x \<noteq> old \<or> 1 < refcnt s2 old \<Longrightarrow> pmem s3 x = pmem s2 x"
    "kern_end s3 = kern_end s2" "kmem.more s3 = kmem.more s2"
    "\<And>r va. is_root tp r \<Longrightarrow> pte_of (pmem s3) r va = pte_of (pmem s2) r va"
    using vm_inv_unmap [OF inv2 u q2 v2(1), unfolded pte2 [OF R(1)], folded old_def] by blast
  define s4 where "s4 = set_pte q va 0 s3"
  note S4 = set_pte_inv [OF s3(4) R(1,2) s3(3), where v = 0, folded s4_def]
  have unmap: "uvmunmap r va 1 True s2 = Inr s4"
  proof -
    have lt: "va < va + 4096" using below_MAXVA_step [OF R(2)] by (simp add: word_less_nat_alt)
    obtain q' where q': "pt_leaf (pmem s2) 2 r va = Some q'" and
      eq: "uvmunmap_loop r va (va + 4096) True s2 =
       rbind (if True then kfree (PTE2PA (pte_of (pmem s2) r va)) s2 else Inr s2)
         (\<lambda>s. uvmunmap_loop r (va + PGSIZE) (va + 4096) True (set_pte q' va 0 s))"
      using uvmunmap_one [OF P2 R(1,2) v2 lt, where do_free = True] by blast
    have "q' = q" using q' q2 by simp
    moreover have "uvmunmap_loop r (va + 4096) (va + 4096) True x = Inr x" for x :: "'a kmem_scheme"
      by (subst uvmunmap_loop.simps) simp
    ultimately have "uvmunmap_loop r va (va + 4096) True s2 = Inr s4"
      using eq pte2 [OF R(1)] s3(1) by (simp add: s4_def old_def)
    then show ?thesis using R(3) by (simp add: uvmunmap_def page_aligned_def)
  qed
  have q4: "pt_leaf (pmem s4) 2 r va = Some q" using S4(4) [OF R(1,2)] s3(3) by simp
  have z4: "pte_of (pmem s4) r va = 0" using S4(3) [OF R(1,2)] by simp
  have load2: "load64 (pmem s2) ?sl = ?e"
    using leaf_slot(3) [OF P2 R(1,2) q2] pte2 [OF R(1)] by simp
  have load1: "PTE2PA (load64 (pmem s1) ?sl) = old"
  proof -
    have "load64 (pmem s1) ?sl = load64 (pmem s) ?sl"
    proof (rule slot_cong)
      show "page_aligned q" using pt_typed_page [OF pt_invD(2) [OF P] L(1)] by simp
      fix x assume "x \<in> region q 4096"
      then have "PGROUNDDOWN x = q" using \<open>page_aligned q\<close> by (simp add: page_member)
      moreover have "q \<noteq> p" using L(1) notin by auto
      ultimately show "pmem s1 x = pmem s x" using s1(4) by simp
    qed simp
    then show ?thesis using L(3) by (simp add: old_def)
  qed
  let ?s = "set_pte q va e' s4"
  have map: "mappages r va PGSIZE p (cow_flags ?e) s4 = Inr (0, ?s)"
    using mappages_existing [OF S4(1) R _ q4] z4 by (simp add: e'_def)
  have run: "copyout_cow r va ?sl s = Inr (0, ?s)"
    using s1(1,2) load1 load2 unmap map memmove_page [OF pp]
    by (simp add: copyout_cow_def Let_def s2_def m2_def cow_flags_def)
  note C = cow_entry [OF pp(1), of ?e, folded e'_def]
  have "insert p held - {p} = held" using F(4) by auto
  then have inv5: "vm_inv tp held ?s ?fr"
    using vm_inv_map [OF s3(2) [folded s4_def] insertI1 u q4 _ C(2,1,5)] z4 by simp
  note S5 = set_pte_inv [OF S4(1) R(1,2) q4, where v = e']
  have pte5: "pte_of (pmem ?s) r' va' = (if r' = r \<and> PGROUNDDOWN va' = va then e' else pte_of (pmem s) r' va')"
    if "is_root tp r'" "va' < MAXVA" for r' va'
    using that S5(3) S4(3) s3(8) pte2 R(3) by simp
  have mem: "pmem ?s x = pmem s3 x" if "PGROUNDDOWN x \<notin> dom tp" for x
    using that S5(2) S4(2) by simp
  have frame: "pmem ?s x = pmem s x"
    if h: "PGROUNDDOWN x \<notin> insert p (dom tp)" "PGROUNDDOWN x \<noteq> old \<or> 1 < refcnt s old" for x
  proof -
    have "pmem s3 x = pmem s2 x" using s3(5) h(2) ref2 by simp
    then show ?thesis using mem [of x] h m2_out [of x] by (simp add: s2_def)
  qed
  have copy: "pmem ?s x = pmem s (old + (x - p))" if "PGROUNDDOWN x = p" for x
    using that mem [of x] s3(5) [of x] old(4) m2_in notin by (auto simp: s2_def)
  have rest: "pt_leaf (pmem ?s) 2 r va = Some q" "kern_end ?s = kern_end s" "kmem.more ?s = kmem.more s"
    using S5(4) [OF R(1,2)] q4 s3(6,7) s1(5,6) by (simp_all add: s4_def s2_def)
  have "length ps \<le> length ?fr" by simp
  then show ?thesis using run inv5 pte5 frame copy rest by blast
qed

text \<open>
  The copy-on-write step changes no byte that any process reads, and leaves the page private and
  writable.
\<close>

lemma copyout_cow_view:
  assumes inv: "vm_inv tp held s fr" and u: "user_va tp r va"
    and q: "pt_leaf (pmem s) 2 r va = Some q" and e: "pte_of (pmem s) r va AND PTE_V \<noteq> 0"
  shows "\<exists>ret s' fr'. copyout_cow r va (slot q (px 0 va)) s = Inr (ret, s') \<and> vm_inv tp held s' fr' \<and>
    (ret = 0 \<and> fr \<noteq> [] \<or> ret = -1 \<and> fr = []) \<and> pt_leaf (pmem s') 2 r va = Some q \<and>
    kern_end s' = kern_end s \<and> kmem.more s' = kmem.more s \<and>
    (\<forall>r' va'. is_root tp r' \<longrightarrow> user_byte (pmem s') r' va' = user_byte (pmem s) r' va') \<and>
    length fr \<le> length fr' + 1 \<and>
    (\<forall>r' va'. is_root tp r' \<longrightarrow> va' < MAXVA \<longrightarrow> \<not> (r' = r \<and> PGROUNDDOWN va' = va) \<longrightarrow>
       pte_of (pmem s') r' va' = pte_of (pmem s) r' va') \<and>
    (ret = 0 \<longrightarrow> pte_of (pmem s') r va AND PTE_V \<noteq> 0 \<and> pte_of (pmem s') r va AND PTE_W \<noteq> 0 \<and>
       (pte_of (pmem s') r va AND PTE_U = 0 \<longleftrightarrow> pte_of (pmem s) r va AND PTE_U = 0))"
proof (cases fr)
  case Nil
  then obtain s' where "copyout_cow r va (slot q (px 0 va)) s = Inr (-1, s')" "vm_inv tp held s' []"
    "pmem s' = pmem s" "kern_end s' = kern_end s" "kmem.more s' = kmem.more s"
    using copyout_cow_nomem inv by blast
  then show ?thesis using Nil q by (intro exI [of _ "-1"] exI [of _ s'] exI [of _ "[]"]) simp
next
  case (Cons p ps)
  let ?e = "pte_of (pmem s) r va"
  let ?old = "PTE2PA ?e" and ?e' = "PA2PTE p OR cow_flags ?e OR PTE_V"
  obtain s' fr' where c: "copyout_cow r va (slot q (px 0 va)) s = Inr (0, s')" "vm_inv tp held s' fr'"
    "\<And>r' va'. is_root tp r' \<Longrightarrow> va' < MAXVA \<Longrightarrow> pte_of (pmem s') r' va' =
       (if r' = r \<and> PGROUNDDOWN va' = va then ?e' else pte_of (pmem s) r' va')"
    "\<And>x. PGROUNDDOWN x \<notin> insert p (dom tp) \<Longrightarrow> PGROUNDDOWN x \<noteq> ?old \<or> 1 < refcnt s ?old \<Longrightarrow>
       pmem s' x = pmem s x"
    "\<And>x. PGROUNDDOWN x = p \<Longrightarrow> pmem s' x = pmem s (?old + (x - p))"
    "pt_leaf (pmem s') 2 r va = Some q" "kern_end s' = kern_end s" "kmem.more s' = kmem.more s" "length ps \<le> length fr'"
    using copyout_cow_step [OF inv [unfolded Cons] u q e] by blast
  have R: "is_root tp r" "va < MAXVA" "page_aligned va" using user_vaD [OF u] by auto
  have pa: "page_aligned p" "p \<in> set fr" using free_unmapped(1) [OF inv, of p] Cons by (auto simp: ram_page_def)
  note C = cow_entry [OF pa(1), of ?e]
  have view: "user_byte (pmem s') r' va' = user_byte (pmem s) r' va'" if r': "is_root tp r'" for r' va'
  proof (cases "va' < MAXVA \<and> \<not> (r' = r \<and> PGROUNDDOWN va' = va)")
    case True
    then have same: "pte_of (pmem s') r' va' = pte_of (pmem s) r' va'" using c(3) [OF r'] by auto
    show ?thesis
    proof (rule user_byte_frame [OF inv r' same])
      fix x x' assume m: "(r', PGROUNDDOWN va') \<in> mappings tp (pmem s) x'"
        and l: "leaf_ok tp held s (pte_of (pmem s) r' va')" and nf: "x' \<notin> set fr" and x: "PGROUNDDOWN x = x'"
      have "x' \<notin> insert p (dom tp)" using m l nf pa(2) by (auto simp: mappings_iff leaf_ok_def)
      moreover have "1 < refcnt s ?old" if "x' = ?old"
      proof -
        have "\<not> refcnt s ?old = 1" using private_mapping [OF inv u e] m that True by auto
        then show ?thesis using mapped_not_free(2) [OF inv u e] by simp
      qed
      ultimately show "pmem s' x = pmem s x" using c(4) x by auto
    qed
  next
    case False
    show ?thesis
    proof (cases "va' < MAXVA")
      case True
      then have h: "r' = r" "PGROUNDDOWN va' = va" using False by auto
      have e': "pte_of (pmem s') r va' = ?e'" using c(3) [OF R(1) True] h by simp
      have eo: "pte_of (pmem s) r va' = ?e" using h(2) pte_of_PGROUNDDOWN [of "pmem s" r va'] by simp
      have "pmem s' (p + (va' - va)) = pmem s (?old + (va' - va))"
        using c(5) [of "p + (va' - va)"] page_plus_offset [OF pa(1), of va'] h(2) by simp
      then show ?thesis using True h e e' eo C(1,2,6) by (simp add: user_byte_def Let_def)
    next
      case False
      then show ?thesis by (simp add: user_byte_def)
    qed
  qed
  have pte: "pte_of (pmem s') r va = ?e'" using c(3) [OF R(1,2)] R(3) by simp
  have "pte_of (pmem s') r va AND PTE_V \<noteq> 0 \<and> pte_of (pmem s') r va AND PTE_W \<noteq> 0 \<and>
       (pte_of (pmem s') r va AND PTE_U = 0 \<longleftrightarrow> ?e AND PTE_U = 0)"
    unfolding pte using C(2,3,6) by blast
  then show ?thesis
    using c Cons view by (intro exI [of _ 0] exI [of _ s'] exI [of _ fr']) simp
qed

section \<open>Writing to a private page\<close>

lemma private_write:
  assumes inv: "vm_inv tp held s fr" and R: "is_root tp r" "dst < MAXVA"
    and e: "pte_of (pmem s) r dst AND PTE_V \<noteq> 0" "pte_of (pmem s) r dst AND PTE_U \<noteq> 0"
      "pte_of (pmem s) r dst AND PTE_W \<noteq> 0"
    and n: "unat (dst - PGROUNDDOWN dst) + length bs \<le> 4096"
  defines "a \<equiv> PTE2PA (pte_of (pmem s) r dst) + (dst - PGROUNDDOWN dst)"
  defines "s' \<equiv> s\<lparr>pmem := mem_write (pmem s) a bs\<rparr>"
  shows "vm_inv tp held s' fr"
    and "\<And>r' va'. is_root tp r' \<Longrightarrow> pte_of (pmem s') r' va' = pte_of (pmem s) r' va'"
    and "\<And>r' va'. is_root tp r' \<Longrightarrow> user_byte (pmem s') r' va' =
      (if r' = r \<and> unat dst \<le> unat va' \<and> unat va' < unat dst + length bs
       then Some (bs ! (unat va' - unat dst)) else user_byte (pmem s) r' va')"
proof -
  let ?va = "PGROUNDDOWN dst" and ?e = "pte_of (pmem s) r dst"
  let ?p = "PTE2PA ?e"
  have u: "user_va tp r ?va" using user_page [OF inv R e(2)] .
  have e0: "pte_of (pmem s) r ?va = ?e" by simp
  have l: "leaf_ok tp held s ?e" using vm_invD(6) [OF inv u] e(1) by simp
  then have one: "refcnt s ?p = 1" using e(3) by (simp add: leaf_ok_def)
  have priv: "mappings tp (pmem s) ?p = {(r, ?va)}"
    using private_mapping [OF inv u] one e(1) by simp
  have nf: "?p \<notin> dom tp \<union> set fr"
    using l mapped_not_free(1) [OF inv u] e(1) by (simp add: leaf_ok_def)
  have inpage: "PGROUNDDOWN x = ?p" if "x \<in> region a (length bs)" for x
  proof -
    from that obtain i where i: "i < length bs" "x = a + of_nat i" by (rule region_elem)
    have "unat (dst - ?va) + i < 2 ^ 64" using i n by simp
    then have "unat ((dst - ?va) + of_nat i) = unat (dst - ?va) + i" by (rule unat_add_of_nat64)
    then have "x - ?p = (dst - ?va) + of_nat i" "unat ((dst - ?va) + of_nat i) < 4096"
      using i n by (simp_all add: a_def)
    then have "x \<in> region ?p 4096" by (simp add: in_region)
    then show ?thesis by (simp add: page_member)
  qed
  have out: "pmem s' x = pmem s x" if "PGROUNDDOWN x \<noteq> ?p" for x
  proof -
    have "x \<notin> region a (length bs)" using that inpage [of x] by blast
    then show ?thesis by (simp add: s'_def mem_write_outside)
  qed
  have keep: "mem_write (pmem s) a bs x = pmem s x" if "PGROUNDDOWN x \<in> dom tp \<union> set fr" for x
  proof -
    have "PGROUNDDOWN x \<noteq> ?p" using that nf by metis
    then show ?thesis using out by (simp add: s'_def)
  qed
  show "vm_inv tp held s' fr" unfolding s'_def by (rule vm_inv_write [OF inv keep])
  show pte: "pte_of (pmem s') r' va' = pte_of (pmem s) r' va'" if "is_root tp r'" for r' va'
    using pt_inv_write(2) [OF vm_invD(1) [OF inv] keep that] by (simp add: s'_def)
  fix r' va' :: uint64 assume r': "is_root tp r'"
  let ?in = "r' = r \<and> unat dst \<le> unat va' \<and> unat va' < unat dst + length bs"
  have dec: "unat dst = unat ?va + unat (dst - ?va)"
    by (simp add: page_offset unat_PGROUNDDOWN)
  show "user_byte (pmem s') r' va' =
      (if ?in then Some (bs ! (unat va' - unat dst)) else user_byte (pmem s) r' va')"
  proof (cases "r' = r \<and> PGROUNDDOWN va' = ?va")
    case False
    have "\<not> ?in"
    proof
      assume h: ?in
      have "unat ?va \<le> unat va'" "unat va' < unat ?va + 4096" using h dec n by linarith+
      then have "unat va' div 4096 = unat dst div 4096"
        by (intro div_nat_eqI) (simp_all add: unat_PGROUNDDOWN)
      then have "PGROUNDDOWN va' = ?va" by (simp add: word_unat_eq_iff unat_PGROUNDDOWN)
      then show False using False h by simp
    qed
    moreover have "user_byte (pmem s') r' va' = user_byte (pmem s) r' va'"
    proof (rule user_byte_frame [OF inv r' pte [OF r']])
      fix x p assume m: "(r', PGROUNDDOWN va') \<in> mappings tp (pmem s) p" "PGROUNDDOWN x = p"
      have "(r', PGROUNDDOWN va') \<notin> mappings tp (pmem s) ?p" using False unfolding priv by simp
      then have "p \<noteq> ?p" using m(1) by metis
      then show "pmem s' x = pmem s x" using m(2) out by blast
    qed
    ultimately show ?thesis by auto
  next
    case True
    then have same: "pte_of (pmem s) r' va' = ?e"
      using pte_of_PGROUNDDOWN [of "pmem s" r va'] pte_of_PGROUNDDOWN [of "pmem s" r dst] by simp
    have dec': "unat va' = unat ?va + unat (va' - ?va)"
      using page_offset [of va'] True unat_PGROUNDDOWN [of va'] by simp
    have lt: "va' < MAXVA"
    proof -
      have "unat ?va + 4096 \<le> 2 ^ 38"
        using u by (simp add: user_va_def TRAPFRAME_eq word_less_nat_alt)
      moreover have "unat (va' - ?va) < 4096" using page_offset_bound [of va'] True by simp
      ultimately show ?thesis using dec' by (simp add: MAXVA_eq word_less_nat_alt)
    qed
    have sub: "?p + (va' - ?va) - a = va' - dst" by (simp add: a_def algebra_simps)
    have byte: "mem_write (pmem s) a bs (?p + (va' - ?va)) =
        (if unat (va' - dst) < length bs then bs ! unat (va' - dst) else pmem s (?p + (va' - ?va)))"
      unfolding mem_write_def sub by (rule refl)
    have new: "user_byte (pmem s') r' va' = Some (mem_write (pmem s) a bs (?p + (va' - ?va)))"
      and old: "user_byte (pmem s) r' va' = Some (pmem s (?p + (va' - ?va)))"
      using True lt e same pte [OF r', of va'] by (simp_all add: user_byte_def Let_def s'_def)
    show ?thesis
    proof (cases "unat dst \<le> unat va' \<and> unat va' < unat dst + length bs")
      case inside: True
      then have "unat (va' - dst) = unat va' - unat dst" by (simp add: unat_arith_simps)
      then have "unat (va' - dst) < length bs" using inside by linarith
      then show ?thesis using inside True byte \<open>unat (va' - dst) = _\<close> unfolding new by simp
    next
      case outside: False
      have "\<not> unat (va' - dst) < length bs"
      proof (cases "unat dst \<le> unat va'")
        case le: True
        then have "unat (va' - dst) = unat va' - unat dst" by (simp add: unat_arith_simps)
        then show ?thesis using outside le by simp
      next
        case gt: False
        then have "unat (va' - dst) = 2 ^ 64 - (unat dst - unat va')"
          using unat_less64 [of dst] by (simp add: unat_sub_if_size word_size)
        moreover have "unat dst - unat va' < 4096" using dec dec' page_offset_bound [of dst] by simp
        ultimately show ?thesis using n by simp
      qed
      then show ?thesis using outside byte unfolding new old by auto
    qed
  qed
qed

section \<open>copyout and copyin\<close>

lemma PGROUNDDOWN_less_MAXVA: "PGROUNDDOWN a < MAXVA \<longleftrightarrow> a < MAXVA"
proof -
  have "unat a div 4096 * 4096 < 2 ^ 38 \<longleftrightarrow> unat a < 2 ^ 38"
    using div_le_mono [of "2 ^ 38" "unat a" 4096] by auto
  then show ?thesis by (simp add: word_less_nat_alt unat_PGROUNDDOWN MAXVA_eq)
qed

lemma walk_lookup:
  assumes "pt_inv tp s fr" and "is_root tp r" and "va < MAXVA"
  obtains "pt_leaf (pmem s) 2 r va = None" and "walk r va False s = Inr (0, s)" and "pte_of (pmem s) r va = 0"
  | q where "pt_leaf (pmem s) 2 r va = Some q" and "walk r va False s = Inr (slot q (px 0 va), s)"
    and "slot q (px 0 va) \<noteq> 0" and "load64 (pmem s) (slot q (px 0 va)) = pte_of (pmem s) r va"
proof (cases "pt_leaf (pmem s) 2 r va")
  case None
  then have "walk r va False s = Inr (0, s)" "pte_of (pmem s) r va = 0"
    using assms(3) by (simp_all add: walk_def not_le walk_loop_False pte_of_def pte_at_leaf)
  then show ?thesis using None that(1) by blast
next
  case (Some q)
  then show ?thesis
    using that(2) walk_existing [OF assms(3) Some] leaf_slot(2,3) [OF assms Some] by blast
qed

text \<open>The entry that \<open>copyout\<close> accepts: a user page that is writable or copy-on-write.\<close>

definition writable :: "uint64 \<Rightarrow> bool" where
  "writable e \<longleftrightarrow> e AND PTE_V \<noteq> 0 \<and> e AND PTE_U \<noteq> 0 \<and> (e AND PTE_W \<noteq> 0 \<or> e AND PTE_COW \<noteq> 0)"

text \<open>One page of \<open>copyout\<close>: refused, out of memory, or written.\<close>

lemma copyout_page:
  fixes dst :: uint64
  assumes inv: "vm_inv tp held s fr" and r: "is_root tp r" and ne: "src \<noteq> []"
  defines "n \<equiv> min (4096 - unat (dst - PGROUNDDOWN dst)) (length src)"
  obtains s' fr' where "copyout r dst src s = Inr (-1, s')" and "vm_inv tp held s' fr'"
    and "kern_end s' = kern_end s" and "kmem.more s' = kmem.more s"
    and "\<And>r' va'. is_root tp r' \<Longrightarrow> user_byte (pmem s') r' va' = user_byte (pmem s) r' va'"
    and "dst < MAXVA \<Longrightarrow> writable (pte_of (pmem s) r dst) \<Longrightarrow> fr = []"
  | s' fr' where "copyout r dst src s = copyout r (PGROUNDDOWN dst + PGSIZE) (drop n src) s'"
    and "vm_inv tp held s' fr'" and "dst < MAXVA"
    and "kern_end s' = kern_end s" and "kmem.more s' = kmem.more s"
    and "\<And>r' va'. is_root tp r' \<Longrightarrow> user_byte (pmem s') r' va' =
      (if r' = r \<and> unat dst \<le> unat va' \<and> unat va' < unat dst + n
       then Some (src ! (unat va' - unat dst)) else user_byte (pmem s) r' va')"
    and "length fr \<le> length fr' + 1"
    and "\<And>va'. va' < MAXVA \<Longrightarrow> PGROUNDDOWN va' \<noteq> PGROUNDDOWN dst \<Longrightarrow> pte_of (pmem s') r va' = pte_of (pmem s) r va'"
proof -
  let ?va = "PGROUNDDOWN dst" and ?e = "pte_of (pmem s) r dst"
  note P = vm_invD(1) [OF inv]
  show ?thesis
  proof (cases "dst < MAXVA \<and> writable ?e")
    case False
    have "copyout r dst src s = Inr (-1, s)"
    proof (cases "?va < MAXVA")
      case True
      then have bad: "\<not> writable ?e" using False by (simp add: PGROUNDDOWN_less_MAXVA)
      from P r True show ?thesis
      proof (cases rule: walk_lookup)
        case 1
        then show ?thesis using ne True by (subst copyout.simps) (simp add: not_le Let_def)
      next
        case (2 q)
        then show ?thesis using ne True bad
          by (subst copyout.simps) (auto simp: not_le writable_def Let_def)
      qed
    qed (use ne in \<open>subst copyout.simps, simp add: not_less Let_def\<close>)
    then show ?thesis using that(1) inv False by blast
  next
    case True
    then have lt: "dst < MAXVA" "?va < MAXVA" and w: "writable ?e" by (simp_all add: PGROUNDDOWN_less_MAXVA)
    have e: "?e AND PTE_V \<noteq> 0" "?e AND PTE_U \<noteq> 0" "?e AND PTE_W = 0 \<Longrightarrow> ?e AND PTE_COW \<noteq> 0"
      using w by (auto simp: writable_def)
    have u: "user_va tp r ?va" using user_page [OF inv r lt(1) e(2)] .
    have nz: "?e \<noteq> 0" using e by auto
    obtain q where q: "pt_leaf (pmem s) 2 r ?va = Some q" using pte_of_leaf [of "pmem s" r ?va] nz by auto
    let ?sl = "slot q (px 0 ?va)"
    have wk: "walk r ?va False s = Inr (?sl, s)" using walk_existing [OF lt(2) q] .
    note L = leaf_slot(2,3) [OF P r lt(2) q]
    have nm: "\<not> MAXVA \<le> ?va" using lt(2) by (simp add: not_le)
    define step where "step = (if ?e AND PTE_W = 0 \<and> ?e AND PTE_COW \<noteq> 0 then copyout_cow r ?va ?sl s else Inr (0, s))"
    have "\<exists>ret s1 fr1. step = Inr (ret, s1) \<and> vm_inv tp held s1 fr1 \<and> (ret \<noteq> 0 \<longrightarrow> fr = []) \<and>
      pt_leaf (pmem s1) 2 r ?va = Some q \<and> kern_end s1 = kern_end s \<and> kmem.more s1 = kmem.more s \<and>
      (\<forall>r' va'. is_root tp r' \<longrightarrow> user_byte (pmem s1) r' va' = user_byte (pmem s) r' va') \<and>
      length fr \<le> length fr1 + 1 \<and>
      (\<forall>va'. va' < MAXVA \<longrightarrow> PGROUNDDOWN va' \<noteq> ?va \<longrightarrow> pte_of (pmem s1) r va' = pte_of (pmem s) r va') \<and>
      (ret = 0 \<longrightarrow> pte_of (pmem s1) r dst AND PTE_V \<noteq> 0 \<and> pte_of (pmem s1) r dst AND PTE_W \<noteq> 0 \<and>
        pte_of (pmem s1) r dst AND PTE_U \<noteq> 0)"
    proof (cases "?e AND PTE_W = 0")
      case True
      have "step = copyout_cow r ?va ?sl s" using True e(3) by (simp add: step_def)
      then show ?thesis using copyout_cow_view [OF inv u q] e(1,2) r by fastforce
    next
      case False
      then show ?thesis using inv q e by (intro exI [of _ 0] exI [of _ s] exI [of _ fr]) (simp add: step_def)
    qed
    then obtain ret s1 fr1 where s1: "step = Inr (ret, s1)" "vm_inv tp held s1 fr1" "ret \<noteq> 0 \<longrightarrow> fr = []"
      "pt_leaf (pmem s1) 2 r ?va = Some q" "kern_end s1 = kern_end s" "kmem.more s1 = kmem.more s"
      "\<And>r' va'. is_root tp r' \<Longrightarrow> user_byte (pmem s1) r' va' = user_byte (pmem s) r' va'"
      "ret = 0 \<Longrightarrow> pte_of (pmem s1) r dst AND PTE_V \<noteq> 0" "ret = 0 \<Longrightarrow> pte_of (pmem s1) r dst AND PTE_W \<noteq> 0"
      "ret = 0 \<Longrightarrow> pte_of (pmem s1) r dst AND PTE_U \<noteq> 0" "length fr \<le> length fr1 + 1"
      "\<And>va'. va' < MAXVA \<Longrightarrow> PGROUNDDOWN va' \<noteq> ?va \<Longrightarrow> pte_of (pmem s1) r va' = pte_of (pmem s) r va'" by blast
    have l1: "load64 (pmem s1) ?sl = pte_of (pmem s1) r dst"
      using leaf_slot(3) [OF vm_invD(1) [OF s1(2)] r lt(2) s1(4)] by simp
    let ?s2 = "s1\<lparr>pmem := mem_write (pmem s1) (PTE2PA (pte_of (pmem s1) r dst) + (dst - ?va)) (take n src)\<rparr>"
    have run: "copyout r dst src s = (if ret \<noteq> 0 then Inr (-1, s1) else copyout r (?va + PGSIZE) (drop n src) ?s2)"
    proof (cases "?e AND PTE_W = 0")
      case True
      then have "copyout_cow r ?va ?sl s = Inr (ret, s1)" using s1(1) e(3) by (simp add: step_def)
      then show ?thesis using True wk L ne nm e l1
        by (subst copyout.simps) (simp add: n_def [symmetric] Let_def)
    next
      case False
      then have "ret = 0" "s1 = s" using s1(1) by (simp_all add: step_def)
      then show ?thesis using False wk L ne nm e l1
        by (subst copyout.simps) (simp add: n_def [symmetric] Let_def)
    qed
    show ?thesis
    proof (cases "ret = 0")
      case False
      then show ?thesis using that(1) run s1 by auto
    next
      case True
      have fit: "unat (dst - ?va) + length (take n src) \<le> 4096"
        using page_offset_bound [of dst] by (simp add: n_def)
      note W = private_write [OF s1(2) r lt(1) s1(8) [OF True] s1(10) [OF True] s1(9) [OF True] fit]
      have len: "length (take n src) = n" by (simp add: n_def)
      show ?thesis
      proof (rule that(2) [of ?s2 fr1])
        show "copyout r dst src s = copyout r (?va + PGSIZE) (drop n src) ?s2" using run True by simp
        show "user_byte (pmem ?s2) r' va' = (if r' = r \<and> unat dst \<le> unat va' \<and> unat va' < unat dst + n
          then Some (src ! (unat va' - unat dst)) else user_byte (pmem s) r' va')" if "is_root tp r'" for r' va'
          using W(3) [OF that] s1(7) [OF that] unfolding len by (auto simp: nth_take)
        show "pte_of (pmem ?s2) r va' = pte_of (pmem s) r va'" if "va' < MAXVA" "PGROUNDDOWN va' \<noteq> ?va" for va'
          using W(2) [OF r] s1(12) [OF that] by simp
      qed (use W(1) lt s1(5,6,11) in simp_all)
    qed
  qed
qed

lemma next_page:
  assumes "dst < MAXVA" and "n = 4096 - unat (dst - PGROUNDDOWN dst)"
  shows "unat (PGROUNDDOWN dst + 4096) = unat dst + n" and "PGROUNDDOWN dst + 4096 = dst + of_nat n"
proof -
  have "unat (PGROUNDDOWN dst + 4096) = unat (PGROUNDDOWN dst) + 4096"
    using assms(1) below_MAXVA_step [of "PGROUNDDOWN dst"] by (simp add: PGROUNDDOWN_less_MAXVA)
  moreover have "unat dst = unat (PGROUNDDOWN dst) + unat (dst - PGROUNDDOWN dst)"
    by (simp add: page_offset unat_PGROUNDDOWN)
  ultimately show u: "unat (PGROUNDDOWN dst + 4096) = unat dst + n"
    using assms(2) page_offset_bound [of dst] by simp
  have "unat dst + n < 2 ^ 64" using u unat_less64 [of "PGROUNDDOWN dst + 4096"] by simp
  then show "PGROUNDDOWN dst + 4096 = dst + of_nat n"
    using u unat_add_of_nat64 [of dst n] by (simp add: word_unat_eq_iff)
qed

lemma copyout_spec:
  assumes "vm_inv tp held s fr" and r: "is_root tp r"
  shows "\<exists>ret s' fr' k. copyout r dst src s = Inr (ret, s') \<and> vm_inv tp held s' fr' \<and>
    (ret = 0 \<and> k = length src \<or> ret = -1 \<and> k < length src \<and>
       (4096 * length fr \<le> unat dst mod 4096 + k \<or>
        (\<exists>va. unat va = unat dst + k \<and> \<not> (va < MAXVA \<and> writable (pte_of (pmem s) r va))))) \<and>
    kern_end s' = kern_end s \<and> kmem.more s' = kmem.more s \<and>
    (\<forall>r' va. is_root tp r' \<longrightarrow> user_byte (pmem s') r' va =
       (if r' = r \<and> unat dst \<le> unat va \<and> unat va < unat dst + k
        then Some (src ! (unat va - unat dst)) else user_byte (pmem s) r' va))"
  using assms(1)
proof (induction "length src" arbitrary: dst src s fr rule: less_induct)
  case less
  show ?case
  proof (cases "src = []")
    case True
    then show ?thesis using less.prems
      by (intro exI [of _ 0] exI [of _ s] exI [of _ fr] exI [of _ 0]) (auto simp: copyout.simps)
  next
    case ne: False
    define n where "n = min (4096 - unat (dst - PGROUNDDOWN dst)) (length src)"
    from less.prems r ne show ?thesis
    proof (cases rule: copyout_page [where dst = dst])
      case (1 s' fr')
      have "4096 * length fr \<le> unat dst mod 4096 + 0 \<or>
        (\<exists>va. unat va = unat dst + 0 \<and> \<not> (va < MAXVA \<and> writable (pte_of (pmem s) r va)))"
        using 1(6) by (cases "dst < MAXVA \<and> writable (pte_of (pmem s) r dst)") auto
      then show ?thesis using 1 ne
        by (intro exI [of _ "-1"] exI [of _ s'] exI [of _ fr'] exI [of _ 0]) auto
    next
      case (2 s1 fr1)
      have n: "0 < n" "n \<le> length src" using ne page_offset_bound [of dst] by (auto simp: n_def)
      have "length (drop n src) < length src" using n ne by simp
      from less.hyps [OF this 2(2), of "PGROUNDDOWN dst + 4096"]
      obtain ret s' fr' k where ih: "copyout r (PGROUNDDOWN dst + 4096) (drop n src) s1 = Inr (ret, s')"
        "vm_inv tp held s' fr'"
        "ret = 0 \<and> k = length (drop n src) \<or> ret = -1 \<and> k < length (drop n src) \<and>
          (4096 * length fr1 \<le> unat (PGROUNDDOWN dst + 4096) mod 4096 + k \<or>
            (\<exists>va. unat va = unat (PGROUNDDOWN dst + 4096) + k \<and> \<not> (va < MAXVA \<and> writable (pte_of (pmem s1) r va))))"
        "kern_end s' = kern_end s1" "kmem.more s' = kmem.more s1"
        "\<And>r' va. is_root tp r' \<Longrightarrow> user_byte (pmem s') r' va =
          (if r' = r \<and> unat (PGROUNDDOWN dst + 4096) \<le> unat va \<and> unat va < unat (PGROUNDDOWN dst + 4096) + k
           then Some (drop n src ! (unat va - unat (PGROUNDDOWN dst + 4096))) else user_byte (pmem s1) r' va)"
        by blast
      have step: "k = 0 \<or> unat (PGROUNDDOWN dst + 4096) = unat dst + n"
      proof (cases "n = length src")
        case True
        then show ?thesis using ih(3) by auto
      next
        case False
        then have "n = 4096 - unat (dst - PGROUNDDOWN dst)" by (simp add: n_def)
        then show ?thesis using next_page(1) [OF 2(3)] by simp
      qed
      have view: "user_byte (pmem s') r' va =
        (if r' = r \<and> unat dst \<le> unat va \<and> unat va < unat dst + (n + k)
         then Some (src ! (unat va - unat dst)) else user_byte (pmem s) r' va)"
        if "is_root tp r'" for r' va
        using ih(6) [OF that, of va] 2(6) [OF that, of va, folded n_def] step n(2) ih(3) by (auto split: if_splits)
      have res: "ret = 0 \<and> n + k = length src \<or> ret = -1 \<and> n + k < length src \<and>
        (4096 * length fr \<le> unat dst mod 4096 + (n + k) \<or>
         (\<exists>va. unat va = unat dst + (n + k) \<and> \<not> (va < MAXVA \<and> writable (pte_of (pmem s) r va))))"
      proof (cases "ret = 0")
        case True
        then show ?thesis using ih(3) n by auto
      next
        case False
        then have k: "ret = -1" "k < length src - n" using ih(3) by auto
        then have neq: "n = 4096 - unat (dst - PGROUNDDOWN dst)" using n by (simp add: n_def)
        note np = next_page(1) [OF 2(3) neq]
        have "page_aligned (PGROUNDDOWN dst + 4096)"
          using 2(3) by (intro page_aligned_step) (simp_all add: PGROUNDDOWN_less_MAXVA)
        then have off: "unat (PGROUNDDOWN dst + 4096) mod 4096 = 0" "unat dst mod 4096 + n = 4096"
          using neq page_offset [of dst] by (simp_all add: page_aligned_unat)
        from ih(3) False consider (mem) "4096 * length fr1 \<le> k" |
          (page) va where "unat va = unat dst + (n + k)" "\<not> (va < MAXVA \<and> writable (pte_of (pmem s1) r va))"
          using off(1) unfolding np by (auto simp: add.assoc)
        then show ?thesis
        proof cases
          case mem
          then have "4096 * length fr \<le> unat dst mod 4096 + (n + k)" using 2(7) off(2) by linarith
          then show ?thesis using k n by auto
        next
          case page
          have "PGROUNDDOWN va \<noteq> PGROUNDDOWN dst"
          proof
            assume "PGROUNDDOWN va = PGROUNDDOWN dst"
            then have "unat va < unat (PGROUNDDOWN dst) + 4096"
              using page_offset_bound [of va] page_offset [of va] unat_PGROUNDDOWN [of va] by simp
            then show False using page(1) np below_MAXVA_step [of "PGROUNDDOWN dst"] 2(3)
              by (simp add: PGROUNDDOWN_less_MAXVA)
          qed
          then have "\<not> (va < MAXVA \<and> writable (pte_of (pmem s) r va))" using page(2) 2(8) [of va] by auto
          then show ?thesis using k n page(1) by auto
        qed
      qed
      show ?thesis using 2 ih(1,2,4,5) view res
        by (intro exI [of _ ret] exI [of _ s'] exI [of _ fr'] exI [of _ "n + k"]) (auto simp: n_def)
    qed
  qed
qed

text \<open>The bytes of one page all go through one entry.\<close>

lemma user_byte_page:
  assumes "PGROUNDDOWN va' = PGROUNDDOWN va"
  shows "user_byte m r va' =
    (if va < MAXVA \<and> pte_of m r va AND PTE_V \<noteq> 0 \<and> pte_of m r va AND PTE_U \<noteq> 0
     then Some (m (PTE2PA (pte_of m r va) + (va' - PGROUNDDOWN va))) else None)"
proof -
  have "pte_of m r va' = pte_of m r va" using assms pte_of_PGROUNDDOWN by metis
  moreover have "va' < MAXVA \<longleftrightarrow> va < MAXVA" using assms PGROUNDDOWN_less_MAXVA by metis
  ultimately show ?thesis using assms by (simp add: user_byte_def Let_def)
qed

lemma walkaddr_spec:
  fixes va :: uint64
  assumes inv: "vm_inv tp held s fr" and r: "is_root tp r"
  defines "ok \<equiv> va < MAXVA \<and> pte_of (pmem s) r va AND PTE_V \<noteq> 0 \<and> pte_of (pmem s) r va AND PTE_U \<noteq> 0"
  shows "walkaddr r va s = Inr (if ok then PTE2PA (pte_of (pmem s) r va) else 0)"
    and "ok \<Longrightarrow> PTE2PA (pte_of (pmem s) r va) \<noteq> 0"
proof -
  note P = vm_invD(1) [OF inv]
  show "walkaddr r va s = Inr (if ok then PTE2PA (pte_of (pmem s) r va) else 0)"
  proof (cases "va < MAXVA")
    case True
    with P r show ?thesis
      by (cases rule: walk_lookup) (auto simp: walkaddr_def ok_def not_le [symmetric])
  next
    case False
    then have "MAXVA \<le> va" "\<not> ok" by (simp_all add: ok_def)
    then show ?thesis by (simp add: walkaddr_def)
  qed
  assume h: ok
  then have "user_va tp r (PGROUNDDOWN va)" using user_page [OF inv r] by (simp add: ok_def)
  then have "leaf_ok tp held s (pte_of (pmem s) r va)" using vm_invD(6) [OF inv] h by (fastforce simp: ok_def)
  then show "PTE2PA (pte_of (pmem s) r va) \<noteq> 0"
    using ram_page_nonzero [of s] pt_invD(1) [OF P] by (simp add: leaf_ok_def kmem_inv_def)
qed

lemma same_page:
  assumes "i < 4096 - unat (va - PGROUNDDOWN va)"
  shows "PGROUNDDOWN (va + of_nat i) = PGROUNDDOWN va"
proof -
  have e: "va + of_nat i - PGROUNDDOWN va = (va - PGROUNDDOWN va) + of_nat i" by simp
  have "unat ((va - PGROUNDDOWN va) + of_nat i) = unat (va - PGROUNDDOWN va) + i"
    using assms by (intro unat_add_of_nat64) simp
  then have "va + of_nat i \<in> region (PGROUNDDOWN va) 4096"
    using assms unfolding in_region e by simp
  then show ?thesis by (simp add: page_member)
qed

definition readable :: "memory \<Rightarrow> uint64 \<Rightarrow> uint64 \<Rightarrow> bool" where
  "readable m r va \<longleftrightarrow> va < MAXVA \<and> pte_of m r va AND PTE_V \<noteq> 0 \<and> pte_of m r va AND PTE_U \<noteq> 0"

lemma user_byte_chunk:
  assumes "readable m r va" and "i < 4096 - unat (va - PGROUNDDOWN va)"
  shows "user_byte m r (va + of_nat i) =
    Some (m (PTE2PA (pte_of m r va) + (va - PGROUNDDOWN va) + of_nat i))"
  using user_byte_page [OF same_page [OF assms(2)], of m r] assms(1)
  by (simp add: readable_def algebra_simps)

lemma user_byte_unreadable: "\<not> readable m r va \<Longrightarrow> user_byte m r va = None"
  by (auto simp: user_byte_def readable_def Let_def)

text \<open>
  The bytes \<open>bs\<close> are the user memory from \<open>va\<close> on.
\<close>

definition user_reads :: "memory \<Rightarrow> uint64 \<Rightarrow> uint64 \<Rightarrow> bytes \<Rightarrow> bool" where
  "user_reads m r va bs \<longleftrightarrow> (\<forall>i < length bs. user_byte m r (va + of_nat i) = Some (bs ! i))"

lemma user_reads_Nil [simp]: "user_reads m r va []"
  by (simp add: user_reads_def)

lemma user_reads_append:
  assumes "user_reads m r va as" and "user_reads m r (va + of_nat (length as)) bs"
  shows "user_reads m r va (as @ bs)"
  unfolding user_reads_def
proof (intro allI impI)
  fix i assume i: "i < length (as @ bs)"
  show "user_byte m r (va + of_nat i) = Some ((as @ bs) ! i)"
  proof (cases "i < length as")
    case True
    then show ?thesis using assms(1) by (simp add: user_reads_def nth_append)
  next
    case False
    then have "user_byte m r (va + of_nat (length as) + of_nat (i - length as)) = Some (bs ! (i - length as))"
      using assms(2) [unfolded user_reads_def, rule_format, of "i - length as"] i by auto
    moreover have "va + of_nat (length as) + of_nat (i - length as) = va + of_nat i"
      using False by (simp add: add.assoc flip: of_nat_add)
    ultimately show ?thesis using False by (simp add: nth_append)
  qed
qed

lemma user_reads_chunk:
  assumes "readable m r va" and "n \<le> 4096 - unat (va - PGROUNDDOWN va)"
  shows "user_reads m r va (mem_read m (PTE2PA (pte_of m r va) + (va - PGROUNDDOWN va)) n)"
  using user_byte_chunk [OF assms(1)] assms(2) by (simp add: user_reads_def)

lemma copyin_spec:
  assumes inv: "vm_inv tp held s fr" and r: "is_root tp r"
  shows "\<exists>ret bs. copyin r va len s = Inr (ret, bs) \<and> user_reads (pmem s) r va bs \<and>
    (ret = 0 \<and> length bs = len \<or>
     ret = -1 \<and> length bs < len \<and> user_byte (pmem s) r (va + of_nat (length bs)) = None)"
proof (induction len arbitrary: va rule: less_induct)
  case (less len)
  let ?pa = "PTE2PA (pte_of (pmem s) r va)" and ?off = "va - PGROUNDDOWN va"
  have wa: "walkaddr r (PGROUNDDOWN va) s = Inr (if readable (pmem s) r va then ?pa else 0)"
    "readable (pmem s) r va \<Longrightarrow> ?pa \<noteq> 0"
    using walkaddr_spec [OF inv r, of "PGROUNDDOWN va"]
    by (simp_all add: readable_def PGROUNDDOWN_less_MAXVA)
  show ?case
  proof (cases "len = 0 \<or> \<not> readable (pmem s) r va")
    case True
    then show ?thesis using wa user_byte_unreadable [of "pmem s" r va]
      by (subst copyin.simps) (auto simp: Let_def)
  next
    case False
    define n where "n = min (4096 - unat ?off) len"
    let ?bs = "mem_read (pmem s) (?pa + ?off) n"
    have n: "0 < n" "n \<le> len" "n \<le> 4096 - unat ?off" using False page_offset_bound [of va] by (auto simp: n_def)
    have "len - n < len" using n by simp
    from less.IH [OF this, of "PGROUNDDOWN va + PGSIZE"] obtain ret cs where
      ih: "copyin r (PGROUNDDOWN va + 4096) (len - n) s = Inr (ret, cs)"
        "user_reads (pmem s) r (PGROUNDDOWN va + 4096) cs"
        "ret = 0 \<and> length cs = len - n \<or> ret = -1 \<and> length cs < len - n \<and>
          user_byte (pmem s) r (PGROUNDDOWN va + 4096 + of_nat (length cs)) = None" by auto
    have run: "copyin r va len s = Inr (ret, ?bs @ cs)"
      using False wa ih(1) by (subst copyin.simps) (simp add: Let_def n_def [symmetric])
    show ?thesis
    proof (cases "n = len")
      case True
      then show ?thesis using run ih(3) user_reads_chunk [OF _ n(3)] False by auto
    next
      case ne: False
      then have step: "PGROUNDDOWN va + 4096 = va + of_nat n"
        using next_page(2) [of va n] False by (simp add: n_def readable_def)
      have "user_reads (pmem s) r va (?bs @ cs)"
        using user_reads_chunk [OF _ n(3)] False ih(2) step by (intro user_reads_append) auto
      then show ?thesis using run ih(3) n step by (auto simp: algebra_simps)
    qed
  qed
qed

lemma copyinstr_loop_spec:
  "copyinstr_loop m p n = (bs, got) \<Longrightarrow>
   length bs \<le> n \<and> bs = mem_read m p (length bs) \<and>
   (if got then \<exists>cs. bs = cs @ [0] \<and> 0 \<notin> set cs else length bs = n \<and> 0 \<notin> set bs)"
proof (induction n arbitrary: p bs)
  case (Suc n)
  show ?case
  proof (cases "m p = 0")
    case True
    then show ?thesis using Suc.prems by (auto simp: mem_read_Suc)
  next
    case False
    then obtain cs where cs: "copyinstr_loop m (p + 1) n = (cs, got)" "bs = m p # cs"
      using Suc.prems by (auto split: prod.splits)
    note ih = Suc.IH [OF cs(1)]
    have rd: "length bs \<le> Suc n \<and> bs = mem_read m p (length bs)" using ih cs(2) by (simp add: mem_read_Suc)
    show ?thesis
    proof (cases got)
      case True
      then obtain ds where "cs = ds @ [0]" "0 \<notin> set ds" using ih by auto
      then have "bs = (m p # ds) @ [0] \<and> 0 \<notin> set (m p # ds)" using cs(2) False by simp
      then have "\<exists>es. bs = es @ [0] \<and> 0 \<notin> set es" by blast
      then show ?thesis using rd True by simp
    next
      case no: False
      then have "length cs = n" "0 \<notin> set cs" using ih by auto
      then have "length bs = Suc n" "0 \<notin> set bs" using cs(2) False by simp_all
      then show ?thesis using rd no by simp
    qed
  qed
qed simp

lemma copyinstr_spec:
  assumes inv: "vm_inv tp held s fr" and r: "is_root tp r"
  shows "\<exists>ret bs. copyinstr r va mx s = Inr (ret, bs) \<and> user_reads (pmem s) r va bs \<and> length bs \<le> mx \<and>
    (ret = 0 \<and> (\<exists>cs. bs = cs @ [0] \<and> 0 \<notin> set cs) \<or>
     ret = -1 \<and> 0 \<notin> set bs \<and>
       (length bs = mx \<or> user_byte (pmem s) r (va + of_nat (length bs)) = None))"
proof (induction mx arbitrary: va rule: less_induct)
  case (less mx)
  let ?pa = "PTE2PA (pte_of (pmem s) r va)" and ?off = "va - PGROUNDDOWN va"
  have wa: "walkaddr r (PGROUNDDOWN va) s = Inr (if readable (pmem s) r va then ?pa else 0)"
    "readable (pmem s) r va \<Longrightarrow> ?pa \<noteq> 0"
    using walkaddr_spec [OF inv r, of "PGROUNDDOWN va"]
    by (simp_all add: readable_def PGROUNDDOWN_less_MAXVA)
  show ?case
  proof (cases "mx = 0 \<or> \<not> readable (pmem s) r va")
    case True
    then show ?thesis using wa user_byte_unreadable [of "pmem s" r va]
      by (subst copyinstr.simps) (auto simp: Let_def)
  next
    case False
    define n where "n = min (4096 - unat ?off) mx"
    have n: "0 < n" "n \<le> mx" "n \<le> 4096 - unat ?off" using False page_offset_bound [of va] by (auto simp: n_def)
    obtain bs got where l: "copyinstr_loop (pmem s) (?pa + ?off) n = (bs, got)" by (cases "copyinstr_loop (pmem s) (?pa + ?off) n")
    note L = copyinstr_loop_spec [OF l]
    have rd: "user_reads (pmem s) r va bs"
      using user_reads_chunk [of "pmem s" r va "length bs"] False L n(3) by force
    show ?thesis
    proof (cases got)
      case True
      then have "copyinstr r va mx s = Inr (0, bs)"
        using False wa l by (subst copyinstr.simps) (simp add: Let_def n_def [symmetric])
      then show ?thesis using rd L True n by auto
    next
      case ng: False
      have "mx - n < mx" using n by simp
      from less.IH [OF this, of "PGROUNDDOWN va + PGSIZE"] obtain ret cs where
        ih: "copyinstr r (PGROUNDDOWN va + 4096) (mx - n) s = Inr (ret, cs)"
          "user_reads (pmem s) r (PGROUNDDOWN va + 4096) cs" "length cs \<le> mx - n"
          "ret = 0 \<and> (\<exists>ds. cs = ds @ [0] \<and> 0 \<notin> set ds) \<or>
           ret = -1 \<and> 0 \<notin> set cs \<and>
             (length cs = mx - n \<or> user_byte (pmem s) r (PGROUNDDOWN va + 4096 + of_nat (length cs)) = None)"
        by auto
      have run: "copyinstr r va mx s = Inr (ret, bs @ cs)"
        using False wa l ng ih(1) by (subst copyinstr.simps) (simp add: Let_def n_def [symmetric])
      have lb: "length bs = n" "0 \<notin> set bs" using L ng by auto
      have step: "cs = [] \<and> n = mx \<or> PGROUNDDOWN va + 4096 = va + of_nat n"
        using next_page(2) [of va n] False ih(3) by (cases "n = mx") (auto simp: n_def readable_def)
      have "user_reads (pmem s) r va (bs @ cs)"
        using rd ih(2) step lb by (intro user_reads_append) auto
      moreover have "length (bs @ cs) \<le> mx" using lb ih(3) n by simp
      moreover have "ret = 0 \<and> (\<exists>ds. bs @ cs = ds @ [0] \<and> 0 \<notin> set ds) \<or>
         ret = -1 \<and> 0 \<notin> set (bs @ cs) \<and>
           (length (bs @ cs) = mx \<or> user_byte (pmem s) r (va + of_nat (length (bs @ cs))) = None)"
        using ih(4)
      proof (elim disjE conjE exE)
        fix ds assume "ret = 0" "cs = ds @ [0]" "0 \<notin> set ds"
        then have "bs @ cs = (bs @ ds) @ [0] \<and> 0 \<notin> set (bs @ ds)" using lb by simp
        then show ?thesis using \<open>ret = 0\<close> by blast
      next
        assume h: "ret = -1" "0 \<notin> set cs"
          "user_byte (pmem s) r (PGROUNDDOWN va + 4096 + of_nat (length cs)) = None"
        have "length (bs @ cs) = mx \<or>
          PGROUNDDOWN va + 4096 + of_nat (length cs) = va + of_nat (length (bs @ cs))"
          using step lb by auto
        then show ?thesis using h lb by (metis UnE set_append)
      qed (use lb n in auto)
      ultimately show ?thesis using run by blast
    qed
  qed
qed

end
