(* ===== verification/VmOps.thy ===== *)
theory VmOps
  imports VmUser
begin

text \<open>
  The operations on whole address spaces: \<open>uvmcreate\<close>, \<open>uvmunmap\<close>, \<open>uvmdealloc\<close>, \<open>uvmalloc\<close>
  and \<open>uvmcopy\<close>.  Each keeps \<open>vm_inv\<close> and changes the view of the named pages only, also when it
  runs out of memory half way.
\<close>

section \<open>Creating an address space\<close>

lemma zero_root:
  assumes "page_aligned p" and "\<And>x. x \<in> region p 4096 \<Longrightarrow> m x = 0"
  shows "pte_of m p va = 0"
  using slot_zero [OF assms(1) px_less assms(2)] by (simp add: pte_of_def eval_nat_numeral)

lemma uvmcreate_spec:
  assumes inv: "vm_inv tp held s (p # ps)"
  shows "\<exists>s'. uvmcreate s = (p, s') \<and> vm_inv (tp(p \<mapsto> (p, 2, 0))) held s' ps \<and> tp p = None \<and>
    is_root (tp(p \<mapsto> (p, 2, 0))) p \<and> kern_end s' = kern_end s \<and> kmem.more s' = kmem.more s \<and>
    (\<forall>va. pte_of (pmem s') p va = 0) \<and>
    (\<forall>r va. is_root tp r \<longrightarrow> pte_of (pmem s') r va = pte_of (pmem s) r va \<and>
       user_byte (pmem s') r va = user_byte (pmem s) r va)"
proof -
  let ?tp = "tp(p \<mapsto> (p, 2, 0))"
  note F = free_unmapped [OF inv, of p, simplified]
  obtain s1 where s1: "kalloc s = (p, s1)" "p \<noteq> 0" "vm_inv tp (insert p held) s1 ps" "ram_page s p"
    "\<And>x. PGROUNDDOWN x \<noteq> p \<Longrightarrow> pmem s1 x = pmem s x" "kern_end s1 = kern_end s" "kmem.more s1 = kmem.more s"
    using vm_inv_kalloc [OF inv] by blast
  define m where "m = memset (pmem s1) p 0 4096"
  let ?s = "s1\<lparr>pmem := m\<rparr>"
  have al: "page_aligned p" using s1(4) by (simp add: ram_page_def)
  have out: "m x = pmem s1 x" if "PGROUNDDOWN x \<noteq> p" for x
    using that al by (simp add: m_def memset_page_outside page_member)
  have zero: "m x = 0" if "x \<in> region p 4096" for x
    using that by (simp add: m_def memset_page_inside)
  have fresh: "tp p = None" "p \<notin> held" using F(4) by auto
  note P1 = vm_invD(1) [OF s1(3)] note D1 = pt_invD [OF P1]
  have np: "p \<notin> set ps" using pt_invD(1) [OF vm_invD(1) [OF inv]] by (simp add: kmem_inv_def)
  have keep: "m x = pmem s1 x" if "PGROUNDDOWN x \<in> dom tp \<union> set ps" for x
  proof -
    have "PGROUNDDOWN x \<noteq> p" using that F(4) np by blast
    then show ?thesis by (rule out)
  qed
  note I2 = vm_inv_write [OF s1(3) keep] and W = pt_inv_write [OF P1 keep]
  have root: "is_root ?tp r \<longleftrightarrow> is_root tp r \<or> r = p" for r
    using fresh by (auto simp: is_root_def)
  have z: "pte_of m p va = 0" for va by (rule zero_root [OF al zero])
  have slot0: "load64 m (slot p i) = 0" if "i < 512" for i using slot_zero [OF al that zero] .
  have typed: "pt_typed ?tp m"
    using pt_invD(2) [OF W(1)] al fresh slot0 root unfolding pt_typed_def
    by (auto simp: is_root_def)
  have maps: "mappings ?tp m q = mappings tp m q" for q
    using z root by (auto simp: mappings_def user_va_def)
  have "refcnt s1 p = 1"
    using vm_invD(4) [OF s1(3), of p] vm_invD(3) [OF s1(3), of p] vm_invD(6) [OF s1(3)]
    by (auto simp: mappings_def leaf_ok_def)
  then have pt: "pt_inv ?tp ?s ps"
    using typed pt_invD(1,3-5) [OF W(1)] np s1(4,6) by (auto simp: pt_inv_def ram_page_def)
  have "vm_inv ?tp held ?s ps"
    unfolding vm_inv_def
  proof (intro conjI allI impI ballI)
    show "held \<inter> dom ?tp = {}" using fresh vm_invD(2) [OF I2] by auto
    show "ram_page ?s q" if "q \<in> held" for q using that vm_invD(3) [OF I2] by auto
    show "refcnt ?s q = int (card (mappings ?tp (pmem ?s) q)) + (if q \<in> dom ?tp \<union> held then 1 else 0)"
      if "ram_page ?s q" for q using vm_invD(4) [OF I2 that] maps by auto
    show "q \<in> set ps" if "ram_page ?s q" "refcnt ?s q = 0" for q using vm_invD(5) [OF I2 that] .
    show "leaf_ok ?tp held ?s (pte_of (pmem ?s) r va)"
      if "user_va ?tp r va" "pte_of (pmem ?s) r va AND PTE_V \<noteq> 0" for r va
    proof -
      have "r \<noteq> p" using that(2) z by auto
      then have "user_va tp r va" using that(1) root by (simp add: user_va_def)
      then show ?thesis using vm_invD(6) [OF I2, of r va] that(2) by (auto simp: leaf_ok_def)
    qed
    show "pte_of (pmem ?s) r va AND PTE_U = 0"
      if "is_root ?tp r" "TRAPFRAME \<le> va" "va < MAXVA" for r va
      using that root z vm_invD(7) [OF I2, of r va] by auto
  qed (rule pt)
  moreover have "pte_of m r va = pte_of (pmem s) r va \<and> user_byte m r va = user_byte (pmem s) r va"
    if r: "is_root tp r" for r va
  proof -
    have mem: "m x = pmem s x" if "PGROUNDDOWN x \<noteq> p" for x using that out s1(5) by simp
    have tab: "m x = pmem s x" if "q \<in> dom tp" "x \<in> region q 4096" for q x
    proof -
      have "PGROUNDDOWN x = q" using that pt_typed_aligned [OF D1(2)] by (simp add: page_member)
      moreover have "q \<noteq> p" using that(1) fresh by auto
      ultimately show ?thesis using mem by simp
    qed
    have e: "pte_of m r va = pte_of (pmem s) r va"
      unfolding pte_of_def
      by (rule pte_at_cong [OF pt_invD(2) [OF vm_invD(1) [OF inv]] r [unfolded is_root_def] tab])
    have "user_byte m r va = user_byte (pmem s) r va"
      using mem by (intro user_byte_frame [OF inv r e]) auto
    then show ?thesis using e by simp
  qed
  ultimately show ?thesis using s1 fresh z root by (simp add: uvmcreate_def m_def)
qed

section \<open>Unmapping a range\<close>

lemma uvmunmap_step:
  assumes inv: "vm_inv tp held s fr" and u: "user_va tp r va" and e: "pte_of (pmem s) r va AND PTE_V \<noteq> 0"
  shows "\<exists>s' fr'. (\<forall>ed. va < ed \<longrightarrow> uvmunmap_loop r va ed True s = uvmunmap_loop r (va + PGSIZE) ed True s') \<and>
    vm_inv tp held s' fr' \<and> kern_end s' = kern_end s \<and> kmem.more s' = kmem.more s \<and>
    (\<forall>r' va'. is_root tp r' \<longrightarrow> va' < MAXVA \<longrightarrow> pte_of (pmem s') r' va' =
       (if r' = r \<and> PGROUNDDOWN va' = va then 0 else pte_of (pmem s) r' va')) \<and>
    (\<forall>r' va'. is_root tp r' \<longrightarrow> user_byte (pmem s') r' va' =
       (if r' = r \<and> PGROUNDDOWN va' = va then None else user_byte (pmem s) r' va'))"
proof -
  note P = vm_invD(1) [OF inv]
  have R: "is_root tp r" "va < MAXVA" "page_aligned va" using user_vaD [OF u] by auto
  let ?p = "PTE2PA (pte_of (pmem s) r va)"
  have fl: "PTE_FLAGS (pte_of (pmem s) r va) \<noteq> PTE_V" using vm_invD(6) [OF inv u e] by (simp add: leaf_ok_def)
  have "pte_of (pmem s) r va \<noteq> 0" using e by auto
  then obtain q where q: "pt_leaf (pmem s) 2 r va = Some q" using pte_of_leaf by blast
  let ?fr = "if refcnt s ?p = 1 then ?p # fr else fr"
  obtain s1 where s1: "kfree ?p s = Inr s1" "vm_inv tp held (set_pte q va 0 s1) ?fr"
    "pt_leaf (pmem s1) 2 r va = Some q" "pt_inv tp s1 ?fr"
    "\<And>x. PGROUNDDOWN x \<noteq> ?p \<or> 1 < refcnt s ?p \<Longrightarrow> pmem s1 x = pmem s x"
    "kern_end s1 = kern_end s" "kmem.more s1 = kmem.more s"
    "\<And>r va. is_root tp r \<Longrightarrow> pte_of (pmem s1) r va = pte_of (pmem s) r va"
    using vm_inv_unmap [OF inv u q e] by blast
  let ?s = "set_pte q va 0 s1"
  have run: "uvmunmap_loop r va ed True s = uvmunmap_loop r (va + PGSIZE) ed True ?s" if "va < ed" for ed
    using uvmunmap_one [OF P R(1,2) e fl that, where do_free = True] q s1(1) by auto
  note S = set_pte_inv [OF s1(4) R(1,2) s1(3), where v = 0]
  have pte: "pte_of (pmem ?s) r' va' = (if r' = r \<and> PGROUNDDOWN va' = va then 0 else pte_of (pmem s) r' va')"
    if "is_root tp r'" "va' < MAXVA" for r' va'
    using S(3) [OF that] s1(8) [OF that(1)] R(3) by simp
  have view: "user_byte (pmem ?s) r' va' =
      (if r' = r \<and> PGROUNDDOWN va' = va then None else user_byte (pmem s) r' va')" if r': "is_root tp r'" for r' va'
  proof (cases "va' < MAXVA")
    case True
    show ?thesis
    proof (cases "r' = r \<and> PGROUNDDOWN va' = va")
      case True
      then show ?thesis using pte [OF r' \<open>va' < MAXVA\<close>] by (simp add: user_byte_def)
    next
      case False
      then have same: "pte_of (pmem ?s) r' va' = pte_of (pmem s) r' va'" using pte [OF r' True] by auto
      have "user_byte (pmem ?s) r' va' = user_byte (pmem s) r' va'"
      proof (rule user_byte_frame [OF inv r' same])
        fix x p assume m: "(r', PGROUNDDOWN va') \<in> mappings tp (pmem s) p"
          and l: "leaf_ok tp held s (pte_of (pmem s) r' va')" and x: "PGROUNDDOWN x = p"
        have "p \<notin> dom tp" using m l by (simp add: mappings_iff leaf_ok_def)
        then have "pmem ?s x = pmem s1 x" using S(2) x by simp
        moreover have "1 < refcnt s ?p" if "p = ?p"
        proof -
          have "refcnt s ?p \<noteq> 1" using private_mapping [OF inv u e] m that False by auto
          then show ?thesis using mapped_not_free(2) [OF inv u e] by simp
        qed
        ultimately show "pmem ?s x = pmem s x" using s1(5) x by auto
      qed
      then show ?thesis using False by auto
    qed
  qed (simp add: user_byte_def)
  show ?thesis
    using run s1(2,6,7) pte view by (intro exI [of _ ?s] exI [of _ ?fr]) simp
qed

lemma in_range_page:
  assumes "page_aligned va" and "page_aligned va'"
  shows "in_range va n va' \<longleftrightarrow> (\<exists>i < n. unat va' = unat va + 4096 * i)"
proof -
  obtain k where k: "unat va = 4096 * k" using assms(1) by (auto simp: page_aligned_unat mod_eq_0_iff_dvd elim!: dvdE)
  obtain j where j: "unat va' = 4096 * j" using assms(2) by (auto simp: page_aligned_unat mod_eq_0_iff_dvd elim!: dvdE)
  have "4096 * k \<le> 4096 * j \<and> 4096 * j < 4096 * k + 4096 * n \<longleftrightarrow> (\<exists>i < n. j = k + i)"
    by (auto intro: exI [of _ "j - k"])
  then show ?thesis unfolding in_range_def k j by auto
qed

lemma uvmunmap_loop_range:
  assumes "vm_inv tp held s fr" and r: "is_root tp r" and "page_aligned va" and "unat va + 4096 * n \<le> 0x3fffffe000"
    and "\<And>va'. in_range va n va' \<Longrightarrow> pte_of (pmem s) r va' AND PTE_V \<noteq> 0"
  shows "\<exists>s' fr'. uvmunmap_loop r va (va + 4096 * of_nat n) True s = Inr s' \<and>
    vm_inv tp held s' fr' \<and> kern_end s' = kern_end s \<and> kmem.more s' = kmem.more s \<and>
    (\<forall>r' va'. is_root tp r' \<longrightarrow> va' < MAXVA \<longrightarrow> pte_of (pmem s') r' va' =
       (if r' = r \<and> in_range va n va' then 0 else pte_of (pmem s) r' va')) \<and>
    (\<forall>r' va'. is_root tp r' \<longrightarrow> user_byte (pmem s') r' va' =
       (if r' = r \<and> in_range va n va' then None else user_byte (pmem s) r' va'))"
  using assms(1,3-5)
proof (induction n arbitrary: va s fr)
  case 0
  have "uvmunmap_loop r va va True s = Inr s" by (subst uvmunmap_loop.simps) simp
  then show ?case using 0(1) by (intro exI [of _ s] exI [of _ fr]) simp
next
  case (Suc n)
  have lt: "va < MAXVA" "va < TRAPFRAME" using Suc.prems(3) by (auto simp: MAXVA_eq TRAPFRAME_eq word_less_nat_alt)
  have u: "user_va tp r va" using r Suc.prems(2) lt by (simp add: user_va_def)
  note rng = in_range_step [OF Suc.prems(2) lt(1)]
  have e: "pte_of (pmem s) r va AND PTE_V \<noteq> 0" using Suc.prems(2,4) rng by simp
  have step: "unat (va + 4096) = unat va + 4096" using below_MAXVA_step [OF lt(1)] .
  obtain s1 fr1 where s1: "\<And>ed. va < ed \<Longrightarrow> uvmunmap_loop r va ed True s = uvmunmap_loop r (va + PGSIZE) ed True s1"
    "vm_inv tp held s1 fr1" "kern_end s1 = kern_end s" "kmem.more s1 = kmem.more s"
    "\<And>r' va'. is_root tp r' \<Longrightarrow> va' < MAXVA \<Longrightarrow> pte_of (pmem s1) r' va' =
       (if r' = r \<and> PGROUNDDOWN va' = va then 0 else pte_of (pmem s) r' va')"
    "\<And>r' va'. is_root tp r' \<Longrightarrow> user_byte (pmem s1) r' va' =
       (if r' = r \<and> PGROUNDDOWN va' = va then None else user_byte (pmem s) r' va')"
    using uvmunmap_step [OF Suc.prems(1) u e] by blast
  have out: "\<not> (PGROUNDDOWN va' = va \<and> in_range (va + 4096) k va')" for k va'
    using step page_offset [of va'] by (auto simp: in_range_def unat_PGROUNDDOWN)
  have "\<exists>s' fr'. uvmunmap_loop r (va + 4096) (va + 4096 + 4096 * of_nat n) True s1 = Inr s' \<and>
    vm_inv tp held s' fr' \<and> kern_end s' = kern_end s1 \<and> kmem.more s' = kmem.more s1 \<and>
    (\<forall>r' va'. is_root tp r' \<longrightarrow> va' < MAXVA \<longrightarrow> pte_of (pmem s') r' va' =
       (if r' = r \<and> in_range (va + 4096) n va' then 0 else pte_of (pmem s1) r' va')) \<and>
    (\<forall>r' va'. is_root tp r' \<longrightarrow> user_byte (pmem s') r' va' =
       (if r' = r \<and> in_range (va + 4096) n va' then None else user_byte (pmem s1) r' va'))"
  proof (rule Suc.IH [OF s1(2)])
    show "page_aligned (va + 4096)" using Suc.prems(2) lt(1) by (rule page_aligned_step)
    show "unat (va + 4096) + 4096 * n \<le> 0x3fffffe000" using step Suc.prems(3) by simp
    fix va' assume h: "in_range (va + 4096) n va'"
    have "va' < MAXVA" using h step Suc.prems(3) by (simp add: in_range_def MAXVA_eq word_less_nat_alt)
    moreover have "PGROUNDDOWN va' \<noteq> va" using h out by blast
    ultimately show "pte_of (pmem s1) r va' AND PTE_V \<noteq> 0" using s1(5) [OF r] Suc.prems(4) rng h by simp
  qed
  then obtain s' fr' where s': "uvmunmap_loop r (va + 4096) (va + 4096 + 4096 * of_nat n) True s1 = Inr s'"
    "vm_inv tp held s' fr'" "kern_end s' = kern_end s1" "kmem.more s' = kmem.more s1"
    "\<And>r' va'. is_root tp r' \<Longrightarrow> va' < MAXVA \<Longrightarrow> pte_of (pmem s') r' va' =
       (if r' = r \<and> in_range (va + 4096) n va' then 0 else pte_of (pmem s1) r' va')"
    "\<And>r' va'. is_root tp r' \<Longrightarrow> user_byte (pmem s') r' va' =
       (if r' = r \<and> in_range (va + 4096) n va' then None else user_byte (pmem s1) r' va')"
    by blast
  have "va < va + 4096 * of_nat (Suc n)"
  proof -
    have "unat (of_nat (4096 * Suc n) :: uint64) = 4096 * Suc n"
      using Suc.prems(3) by (intro unat_of_nat64) simp
    moreover have "unat (va + of_nat (4096 * Suc n)) = unat va + 4096 * Suc n"
      using Suc.prems(3) by (intro unat_add_of_nat64) simp
    moreover have "va + of_nat (4096 * Suc n) = va + 4096 * of_nat (Suc n)" by simp
    ultimately show ?thesis by (metis add.commute less_add_same_cancel2 mult_pos_pos word_less_nat_alt
          zero_less_Suc zero_less_numeral)
  qed
  then have "uvmunmap_loop r va (va + 4096 * of_nat (Suc n)) True s = Inr s'"
    using s1(1) [of "va + 4096 * of_nat (Suc n)"] s'(1) by (simp add: algebra_simps)
  moreover have "pte_of (pmem s') r' va' = (if r' = r \<and> in_range va (Suc n) va' then 0 else pte_of (pmem s) r' va')"
    if "is_root tp r'" "va' < MAXVA" for r' va'
    using s'(5) [OF that] s1(5) [OF that] rng by auto
  moreover have "user_byte (pmem s') r' va' = (if r' = r \<and> in_range va (Suc n) va' then None else user_byte (pmem s) r' va')"
    if "is_root tp r'" for r' va'
    using s'(6) [OF that] s1(6) [OF that] rng by auto
  ultimately show ?case using s'(2-4) s1(3,4) by (intro exI [of _ s'] exI [of _ fr']) simp
qed

section \<open>Shrinking\<close>

lemma bit_small: "unat (x :: uint64) < 2 ^ n \<Longrightarrow> n \<le> k \<Longrightarrow> \<not> bit x k"
proof -
  assume a: "unat x < 2 ^ n" and k: "n \<le> k"
  have "take_bit n (unat x) = unat x" using a by (rule take_bit_nat_eq_self)
  then have "\<not> bit (unat x) k" using k by (metis bit_take_bit_iff not_le)
  then show ?thesis by (simp add: bit_unsigned_iff)
qed

lemma int_of_uint64_small: "unat x < 2 ^ 31 \<Longrightarrow> int_of_uint64 x = x"
proof (rule bit_eqI)
  fix k assume a: "unat x < 2 ^ 31" and "possible_bit TYPE(64 word) k"
  then show "bit (int_of_uint64 x) k \<longleftrightarrow> bit x k"
    using bit_small [OF a] by (auto simp: int_of_uint64_def bit_signed_iff bit_ucast_iff min_def)
qed

text \<open>The pages from \<open>newsz\<close> up to \<open>oldsz\<close>.\<close>

definition between :: "uint64 \<Rightarrow> uint64 \<Rightarrow> uint64 \<Rightarrow> bool" where
  "between newsz oldsz va \<longleftrightarrow> PGROUNDUP newsz \<le> va \<and> va < PGROUNDUP oldsz"

lemma TRAPFRAME_aligned: "page_aligned TRAPFRAME"
  by (simp add: page_aligned_def TRAPFRAME_eq)

lemma PGROUNDUP_user: "a \<le> TRAPFRAME \<Longrightarrow> PGROUNDUP a \<le> TRAPFRAME \<and> unat a \<le> unat (PGROUNDUP a)"
proof -
  assume a: "a \<le> TRAPFRAME"
  then have room: "unat a + 4095 < 2 ^ 64" by (simp add: TRAPFRAME_eq word_le_nat_alt)
  then have "PGROUNDUP a \<le> TRAPFRAME" using PGROUNDUP_le_iff [OF room TRAPFRAME_aligned] a by simp
  moreover have "a \<le> PGROUNDUP a" using PGROUNDUP_le_iff [OF room, of "PGROUNDUP a"] by simp
  ultimately show ?thesis by (simp add: word_le_nat_alt)
qed

lemma page_multiple: "page_aligned a \<longleftrightarrow> (\<exists>k. unat a = 4096 * k)"
  by (auto simp: page_aligned_unat mod_eq_0_iff_dvd elim!: dvdE)

text \<open>The page count that \<open>uvmdealloc\<close> passes on is exact.\<close>

lemma page_count:
  assumes "page_aligned a" and "page_aligned b" and "a \<le> b" and "b \<le> TRAPFRAME"
  obtains n where "int_of_uint64 ((b - a) div PGSIZE) = of_nat n" and "unat b = unat a + 4096 * n"
    and "b = a + 4096 * of_nat n"
proof -
  obtain k j where k: "unat a = 4096 * k" "unat b = 4096 * j" using assms(1,2) page_multiple by blast
  have le: "unat a \<le> unat b" "unat b \<le> 0x3fffffe000" using assms(3,4) by (simp_all add: word_le_nat_alt TRAPFRAME_eq)
  have sub: "unat (b - a) = unat b - unat a" using le by (simp add: unat_arith_simps)
  have d: "unat ((b - a) div PGSIZE) = j - k" by (simp add: unat_div sub k diff_mult_distrib2 [symmetric])
  have small: "j - k < 2 ^ 31" using le k by simp
  have "int_of_uint64 ((b - a) div PGSIZE) = (b - a) div PGSIZE" using small d by (intro int_of_uint64_small) simp
  also have "\<dots> = of_nat (j - k)" using d by (metis of_nat_unat ucast_id)
  finally have c: "int_of_uint64 ((b - a) div PGSIZE) = of_nat (j - k)" .
  have u: "unat b = unat a + 4096 * (j - k)" using le k by simp
  have "unat (a + of_nat (4096 * (j - k))) = unat b" using u unat_add_of_nat64 [of a "4096 * (j - k)"] unat_less64 [of b] by simp
  then have "b = a + of_nat (4096 * (j - k))" by (simp only: word_unat_eq_iff)
  then show ?thesis using that [of "j - k"] c u by simp
qed

lemma in_range_between:
  "unat b = unat a + 4096 * n \<Longrightarrow> in_range a n va \<longleftrightarrow> a \<le> va \<and> va < b"
  by (simp add: in_range_def word_le_nat_alt word_less_nat_alt)

lemma uvmdealloc_spec:
  assumes inv: "vm_inv tp held s fr" and r: "is_root tp r" and "oldsz \<le> TRAPFRAME"
    and valid: "\<And>va. newsz < oldsz \<Longrightarrow> between newsz oldsz va \<Longrightarrow> pte_of (pmem s) r va AND PTE_V \<noteq> 0"
  shows "\<exists>s' fr'. uvmdealloc r oldsz newsz s = Inr (if oldsz \<le> newsz then oldsz else newsz, s') \<and>
    vm_inv tp held s' fr' \<and> kern_end s' = kern_end s \<and> kmem.more s' = kmem.more s \<and>
    (\<forall>r' va. is_root tp r' \<longrightarrow> va < MAXVA \<longrightarrow> pte_of (pmem s') r' va =
       (if r' = r \<and> newsz < oldsz \<and> between newsz oldsz va then 0 else pte_of (pmem s) r' va)) \<and>
    (\<forall>r' va. is_root tp r' \<longrightarrow> user_byte (pmem s') r' va =
       (if r' = r \<and> newsz < oldsz \<and> between newsz oldsz va then None else user_byte (pmem s) r' va))"
proof (cases "newsz < oldsz \<and> PGROUNDUP newsz < PGROUNDUP oldsz")
  case True
  have hi: "PGROUNDUP oldsz \<le> TRAPFRAME" using PGROUNDUP_user [OF assms(3)] by simp
  obtain n where n: "int_of_uint64 ((PGROUNDUP oldsz - PGROUNDUP newsz) div PGSIZE) = of_nat n"
    "unat (PGROUNDUP oldsz) = unat (PGROUNDUP newsz) + 4096 * n"
    using page_count [OF page_aligned_PGROUNDUP page_aligned_PGROUNDUP _ hi] True by (metis order_less_imp_le)
  have fits: "unat (PGROUNDUP newsz) + 4096 * n \<le> 0x3fffffe000"
    using n(2) hi by (simp add: TRAPFRAME_eq word_le_nat_alt)
  have rng: "in_range (PGROUNDUP newsz) n va \<longleftrightarrow> between newsz oldsz va" for va
    using in_range_between [OF n(2)] by (simp add: between_def)
  have v: "pte_of (pmem s) r va AND PTE_V \<noteq> 0" if "in_range (PGROUNDUP newsz) n va" for va
    using that rng valid True by simp
  obtain s' fr' where s': "uvmunmap_loop r (PGROUNDUP newsz) (PGROUNDUP newsz + 4096 * of_nat n) True s = Inr s'"
    "vm_inv tp held s' fr'" "kern_end s' = kern_end s" "kmem.more s' = kmem.more s"
    "\<forall>r' va'. is_root tp r' \<longrightarrow> va' < MAXVA \<longrightarrow> pte_of (pmem s') r' va' =
       (if r' = r \<and> in_range (PGROUNDUP newsz) n va' then 0 else pte_of (pmem s) r' va')"
    "\<forall>r' va'. is_root tp r' \<longrightarrow> user_byte (pmem s') r' va' =
       (if r' = r \<and> in_range (PGROUNDUP newsz) n va' then None else user_byte (pmem s) r' va')"
    using uvmunmap_loop_range [OF inv r page_aligned_PGROUNDUP fits v] by blast
  have "PGROUNDUP newsz mod 4096 = 0" using page_aligned_PGROUNDUP [of newsz] by (simp add: page_aligned_def)
  moreover have nle: "\<not> oldsz \<le> newsz" using True by (simp add: not_le)
  ultimately have "uvmdealloc r oldsz newsz s = Inr (newsz, s')"
    using True n(1) s'(1) by (simp add: uvmdealloc_def uvmunmap_def mult.commute)
  then show ?thesis using s' True rng nle by (intro exI [of _ s'] exI [of _ fr']) simp
next
  case False
  have none: "\<not> (newsz < oldsz \<and> between newsz oldsz va)" for va
    using False by (auto simp: between_def)
  have "uvmdealloc r oldsz newsz s = Inr (if oldsz \<le> newsz then oldsz else newsz, s)"
    using False by (auto simp: uvmdealloc_def)
  then show ?thesis using inv none by (intro exI [of _ s] exI [of _ fr]) auto
qed

section \<open>Growing\<close>

lemma user_byte_grow:
  assumes "vm_inv tp held s fr" and g: "tables_grow tp fr s tp' fr' s'" and "is_root tp r"
  shows "user_byte (pmem s') r va = user_byte (pmem s) r va"
proof (rule user_byte_frame [OF assms(1,3) tables_grow_pte [OF g assms(3)]])
  fix x p assume "(r, PGROUNDDOWN va) \<in> mappings tp (pmem s) p" "leaf_ok tp held s (pte_of (pmem s) r va)"
    "p \<notin> set fr" "PGROUNDDOWN x = p"
  then show "pmem s' x = pmem s x"
    by (intro tables_growD(3) [OF g]) (auto simp: mappings_iff leaf_ok_def)
qed

lemma new_entry:
  assumes "page_aligned p" and "PTE_FLAGS perm = perm" and "perm AND PTE_R \<noteq> 0"
  defines "e \<equiv> PA2PTE p OR perm OR PTE_V"
  shows "PTE2PA e = p" and "e AND PTE_V \<noteq> 0" and "PTE_FLAGS e \<noteq> PTE_V" and "PTE_FLAGS e = perm OR PTE_V"
    and "e AND PTE_U = 0 \<longleftrightarrow> perm AND PTE_U = 0"
proof -
  have fl: "PTE_FLAGS (perm OR PTE_V) = perm OR PTE_V" using assms(2) by simp
  show "PTE2PA e = p" using assms(1) fl unfolding e_def by (rule PTE2PA_PA2PTE)
  show f: "PTE_FLAGS e = perm OR PTE_V" using fl unfolding e_def by (rule PTE_FLAGS_PA2PTE)
  show "e AND PTE_V \<noteq> 0" "e AND PTE_U = 0 \<longleftrightarrow> perm AND PTE_U = 0"
    unfolding flag_bits e_def by (simp_all add: bit_PA2PTE bit_or_iff)
  have "bit (PTE_FLAGS e) 1" using assms(3) unfolding f flag_bits by (simp add: bit_or_iff)
  then show "PTE_FLAGS e \<noteq> PTE_V" by auto
qed

text \<open>
  One iteration of \<open>uvmalloc\<close>: either memory ran out and the pages added so far are given back,
  or the next page is mapped, zeroed and private.
\<close>

lemma uvmalloc_page:
  assumes inv: "vm_inv tp held s fr" and u: "user_va tp r a" and un: "pte_of (pmem s) r a AND PTE_V = 0"
    and lt: "a < newsz" and perm: "PTE_FLAGS xperm = xperm"
  defines "fl \<equiv> PTE_R OR PTE_U OR xperm"
  obtains s' tp' fr' where "uvmalloc_loop r a old newsz xperm s =
      rbind (uvmdealloc r a old s') (\<lambda>(r, s). Inr (0, s))"
    and "vm_inv tp' held s' fr'" and "\<And>r. is_root tp' r \<longleftrightarrow> is_root tp r"
    and "kern_end s' = kern_end s" and "kmem.more s' = kmem.more s"
    and "\<And>r' va. is_root tp r' \<Longrightarrow> pte_of (pmem s') r' va = pte_of (pmem s) r' va"
    and "\<And>r' va. is_root tp r' \<Longrightarrow> user_byte (pmem s') r' va = user_byte (pmem s) r' va"
    and "length fr \<le> 3"
  | s' tp' fr' e where "uvmalloc_loop r a old newsz xperm s = uvmalloc_loop r (a + PGSIZE) old newsz xperm s'"
    and "vm_inv tp' held s' fr'" and "\<And>r. is_root tp' r \<longleftrightarrow> is_root tp r"
    and "kern_end s' = kern_end s" and "kmem.more s' = kmem.more s"
    and "PTE_FLAGS e = fl OR PTE_V" and "e AND PTE_V \<noteq> 0"
    and "\<And>r' va. is_root tp r' \<Longrightarrow> va < MAXVA \<Longrightarrow> pte_of (pmem s') r' va =
      (if r' = r \<and> PGROUNDDOWN va = a then e else pte_of (pmem s) r' va)"
    and "\<And>r' va. is_root tp r' \<Longrightarrow> user_byte (pmem s') r' va =
      (if r' = r \<and> PGROUNDDOWN va = a then Some 0 else user_byte (pmem s) r' va)"
    and "length fr \<le> length fr' + 3"
proof (cases fr)
  case Nil
  then obtain s' where s': "kalloc s = (0, s')" "pt_inv tp s' []" "tables_grow tp [] s tp [] s'" "pmem s' = pmem s"
    using kalloc_none vm_invD(1) [OF inv] by blast
  have "uvmalloc_loop r a old newsz xperm s = rbind (uvmdealloc r a old s') (\<lambda>(r, s). Inr (0, s))"
    using lt s'(1) by (subst uvmalloc_loop.simps) simp
  then show ?thesis
    using that(1) [of s' tp "[]"] vm_inv_grow [OF inv [unfolded Nil] s'(3,2)] tables_growD(5,6) [OF s'(3)] s'(4) Nil by simp
next
  case (Cons p ps)
  note inv' = inv [unfolded Cons]
  have R: "is_root tp r" "a < MAXVA" "page_aligned a" using user_vaD [OF u] by auto
  note F = free_unmapped [OF inv', of p, simplified]
  have np: "p \<notin> set ps" using pt_invD(1) [OF vm_invD(1) [OF inv']] by (simp add: kmem_inv_def)
  obtain s1 where s1: "kalloc s = (p, s1)" "p \<noteq> 0" "vm_inv tp (insert p held) s1 ps" "ram_page s p"
    "\<And>x. PGROUNDDOWN x \<noteq> p \<Longrightarrow> pmem s1 x = pmem s x" "kern_end s1 = kern_end s" "kmem.more s1 = kmem.more s"
    using vm_inv_kalloc [OF inv'] by blast
  have al: "page_aligned p" using s1(4) by (simp add: ram_page_def)
  define s2 where "s2 = s1\<lparr>pmem := memset (pmem s1) p 0 4096\<rparr>"
  have out: "pmem s2 x = pmem s x" if "PGROUNDDOWN x \<noteq> p" for x
    using that al s1(5) by (simp add: s2_def memset_page_outside page_member)
  have zero: "pmem s2 x = 0" if "PGROUNDDOWN x = p" for x
    using that al by (simp add: s2_def memset_page_inside page_member)
  have keep: "memset (pmem s1) p 0 4096 x = pmem s1 x" if "PGROUNDDOWN x \<in> dom tp \<union> set ps" for x
  proof -
    have "PGROUNDDOWN x \<noteq> p" using that F(4) np by blast
    then show ?thesis using al by (simp add: memset_page_outside page_member)
  qed
  have inv2: "vm_inv tp (insert p held) s2 ps"
    unfolding s2_def by (rule vm_inv_write [OF s1(3) keep])
  have pte2: "pte_of (pmem s2) r' va = pte_of (pmem s) r' va" if "is_root tp r'" for r' va
    unfolding pte_of_def
  proof (rule pte_at_cong [OF pt_invD(2) [OF vm_invD(1) [OF inv]] that [unfolded is_root_def]])
    fix q x assume q: "q \<in> dom tp" "x \<in> region q 4096"
    have "PGROUNDDOWN x = q"
      using q pt_typed_aligned [OF pt_invD(2) [OF vm_invD(1) [OF inv]]] by (simp add: page_member)
    moreover have "q \<noteq> p" using q(1) F(4) by blast
    ultimately show "pmem s2 x = pmem s x" using out by simp
  qed
  have view2: "user_byte (pmem s2) r' va = user_byte (pmem s) r' va" if "is_root tp r'" for r' va
    using out Cons by (intro user_byte_frame [OF inv that pte2 [OF that]]) auto
  have un2: "pte_of (pmem s2) r a AND PTE_V = 0" using un pte2 [OF R(1)] by simp
  have flR: "PTE_FLAGS fl = fl" "fl AND PTE_R \<noteq> 0" "fl AND PTE_U \<noteq> 0"
    using perm unfolding flag_bits fl_def by (simp_all add: bit_or_iff)
  note E = new_entry [OF al flR(1,2)]
  from vm_invD(1) [OF inv2] R un2 show ?thesis
  proof (cases rule: mappages_one [where pa = p and perm = fl])
    case (1 tp' fr' s3)
    have inv3: "vm_inv tp' (insert p held) s3 fr'" using vm_inv_grow [OF inv2 1(2,1)] .
    have root: "is_root tp' x \<longleftrightarrow> is_root tp x" for x using pt_frame_root [OF tables_grow_frame [OF 1(2)]] .
    obtain s4 where s4: "kfree p s3 = Inr s4" "vm_inv tp' (insert p held - {p}) s4 (p # fr')"
      "\<And>x. PGROUNDDOWN x \<noteq> p \<Longrightarrow> pmem s4 x = pmem s3 x" "kern_end s4 = kern_end s3" "kmem.more s4 = kmem.more s3"
      "\<And>r va. is_root tp' r \<Longrightarrow> pte_of (pmem s4) r va = pte_of (pmem s3) r va"
      using vm_inv_kfree_held [OF inv3 insertI1] by blast
    have "insert p held - {p} = held" using F(4) by auto
    then have inv4: "vm_inv tp' held s4 (p # fr')" using s4(2) by simp
    have run: "uvmalloc_loop r a old newsz xperm s = rbind (uvmdealloc r a old s4) (\<lambda>(r, s). Inr (0, s))"
      using lt s1(1,2) 1(4) s4(1) by (subst uvmalloc_loop.simps) (simp add: s2_def fl_def)
    have pte: "pte_of (pmem s4) r' va = pte_of (pmem s) r' va" if "is_root tp r'" for r' va
      using that s4(6) root tables_grow_pte [OF 1(2) that] pte2 by simp
    have view: "user_byte (pmem s4) r' va = user_byte (pmem s) r' va" if r': "is_root tp r'" for r' va
    proof -
      have "user_byte (pmem s4) r' va = user_byte (pmem s3) r' va"
        using s4(3) root r' by (intro user_byte_frame [OF inv3 _ s4(6)]) (auto simp: mappings_iff leaf_ok_def)
      then show ?thesis using user_byte_grow [OF inv2 1(2) r'] view2 [OF r'] by simp
    qed
    show ?thesis
      by (rule that(1) [of s4 tp' "p # fr'"])
        (use run inv4 root pte view s4(4,5) tables_growD(5,6) [OF 1(2)] s1(6,7) Cons 1(6) in \<open>simp_all add: s2_def\<close>)
  next
    case (2 tp' fr' s3 q)
    let ?e = "PA2PTE p OR fl OR PTE_V" let ?s = "set_pte q a ?e s3"
    have inv3: "vm_inv tp' (insert p held) s3 fr'" using vm_inv_grow [OF inv2 2(2,1)] .
    have root: "is_root tp' x \<longleftrightarrow> is_root tp x" for x using pt_frame_root [OF tables_grow_frame [OF 2(2)]] .
    have pte3: "pte_of (pmem s3) r' va = pte_of (pmem s) r' va" if "is_root tp r'" for r' va
      using tables_grow_pte [OF 2(2) that] pte2 [OF that] by simp
    have u': "user_va tp' r a" using u root by (simp add: user_va_def)
    have "vm_inv tp' (insert p held - {p}) ?s fr'"
      using vm_inv_map [OF inv3 insertI1 u' 2(4) _ E(2,1,3)] un pte3 [OF R(1)] by simp
    moreover have "insert p held - {p} = held" using F(4) by auto
    ultimately have inv4: "vm_inv tp' held ?s fr'" by simp
    note S = set_pte_inv [OF 2(1,3) R(2) 2(4), where v = ?e]
    have run: "uvmalloc_loop r a old newsz xperm s = uvmalloc_loop r (a + PGSIZE) old newsz xperm ?s"
      using lt s1(1,2) 2(5) by (subst uvmalloc_loop.simps) (simp add: s2_def fl_def)
    have pte: "pte_of (pmem ?s) r' va = (if r' = r \<and> PGROUNDDOWN va = a then ?e else pte_of (pmem s) r' va)"
      if "is_root tp r'" "va < MAXVA" for r' va
      using S(3) [of r' va] that root pte3 [OF that(1)] R(3) by simp
    have tab: "p \<notin> dom tp'" using vm_invD(2) [OF inv3] by auto
    have pz: "pmem ?s x = 0" if "PGROUNDDOWN x = p" for x
      using that tab S(2) [of x] tables_growD(3) [OF 2(2), of x] F(4) np zero by auto
    have view3: "user_byte (pmem s3) r' va = user_byte (pmem s) r' va" if "is_root tp r'" for r' va
      using user_byte_grow [OF inv2 2(2) that] view2 [OF that] by simp
    have view: "user_byte (pmem ?s) r' va = (if r' = r \<and> PGROUNDDOWN va = a then Some 0 else user_byte (pmem s) r' va)"
      if r': "is_root tp r'" for r' va
    proof (cases "r' = r \<and> PGROUNDDOWN va = a")
      case True
      then have "va < MAXVA" using R(2) PGROUNDDOWN_less_MAXVA [of va] by simp
      then show ?thesis using True pte [OF R(1), of va] E(1,2,5) flR(3) pz page_plus_offset [OF al, of va]
        by (simp add: user_byte_def Let_def)
    next
      case False
      have "user_byte (pmem ?s) r' va = user_byte (pmem s3) r' va"
      proof (cases "va < MAXVA")
        case True
        then have "pte_of (pmem ?s) r' va = pte_of (pmem s3) r' va" using pte [OF r'] pte3 [OF r'] False by auto
        then show ?thesis
          using S(2) root r' by (intro user_byte_frame [OF inv3]) (auto simp: mappings_iff leaf_ok_def)
      qed (simp add: user_byte_def)
      then show ?thesis using view3 [OF r'] False by auto
    qed
    show ?thesis
      by (rule that(2) [of ?s tp' fr' ?e])
        (use run inv4 root pte view E(2,4) tables_growD(5,6) [OF 2(2)] s1(6,7) Cons 2(6) in \<open>simp_all add: s2_def\<close>)
  qed
qed

text \<open>What \<open>uvmalloc\<close> promises: all pages up to \<open>newsz\<close>, zeroed, or none.\<close>

definition grown :: "roles \<Rightarrow> uint64 \<Rightarrow> uint64 \<Rightarrow> uint64 \<Rightarrow> uint64 \<Rightarrow> memory \<Rightarrow> memory \<Rightarrow> bool" where
  "grown tp r lo hi fl m m' \<longleftrightarrow>
     (\<forall>r' va. is_root tp r' \<longrightarrow> user_byte m' r' va =
        (if r' = r \<and> lo \<le> va \<and> va < hi then Some 0 else user_byte m r' va)) \<and>
     (\<forall>r' va. is_root tp r' \<longrightarrow> va < MAXVA \<longrightarrow>
        (if r' = r \<and> lo \<le> va \<and> va < hi then PTE_FLAGS (pte_of m' r' va) = fl
         else pte_of m' r' va = pte_of m r' va))"

definition shrunk :: "roles \<Rightarrow> uint64 \<Rightarrow> uint64 \<Rightarrow> uint64 \<Rightarrow> memory \<Rightarrow> memory \<Rightarrow> bool" where
  "shrunk tp r lo hi m m' \<longleftrightarrow>
     (\<forall>r' va. is_root tp r' \<longrightarrow> user_byte m' r' va =
        (if r' = r \<and> lo \<le> va \<and> va < hi then None else user_byte m r' va)) \<and>
     (\<forall>r' va. is_root tp r' \<longrightarrow> va < MAXVA \<longrightarrow>
        (if r' = r \<and> lo \<le> va \<and> va < hi then pte_of m' r' va AND PTE_V = 0
         else pte_of m' r' va = pte_of m r' va))"

lemma PGROUNDUP_aligned: "page_aligned a \<Longrightarrow> a \<le> TRAPFRAME \<Longrightarrow> PGROUNDUP a = a"
proof -
  assume a: "page_aligned a" "a \<le> TRAPFRAME"
  then have "unat a + 4095 < 2 ^ 64" by (simp add: TRAPFRAME_eq word_le_nat_alt)
  moreover obtain k where "unat a = 4096 * k" using a(1) page_multiple by blast
  ultimately have "unat (PGROUNDUP a) = unat a" by (simp add: unat_PGROUNDUP)
  then show ?thesis by (simp add: word_unat_eq_iff)
qed

lemma page_split:
  assumes "page_aligned a" and "a < MAXVA"
  shows "a \<le> va \<longleftrightarrow> PGROUNDDOWN va = a \<or> a + 4096 \<le> va"
    and "\<not> (PGROUNDDOWN va = a \<and> a + 4096 \<le> va)" and "PGROUNDDOWN va = a \<Longrightarrow> a \<le> va"
proof -
  obtain k where k: "unat a = 4096 * k" using assms(1) page_multiple by blast
  have s: "unat (a + 4096) = unat a + 4096" using below_MAXVA_step [OF assms(2)] .
  have e: "PGROUNDDOWN va = a \<longleftrightarrow> unat va div 4096 = k" by (simp add: word_unat_eq_iff unat_PGROUNDDOWN k)
  have "unat va div 4096 = k \<longleftrightarrow> 4096 * k \<le> unat va \<and> unat va < 4096 * k + 4096" by auto
  then show "a \<le> va \<longleftrightarrow> PGROUNDDOWN va = a \<or> a + 4096 \<le> va"
    "\<not> (PGROUNDDOWN va = a \<and> a + 4096 \<le> va)" "PGROUNDDOWN va = a \<Longrightarrow> a \<le> va"
    unfolding e word_le_nat_alt s k by auto
qed

lemma uvmalloc_loop_spec:
  assumes "vm_inv tp held s fr" and "is_root tp r" and "page_aligned a" and "page_aligned old"
    and "old \<le> a" and "newsz \<le> TRAPFRAME" and "a \<le> PGROUNDUP newsz" and "PTE_FLAGS xperm = xperm"
    and "\<And>va. a \<le> va \<Longrightarrow> va < PGROUNDUP newsz \<Longrightarrow> pte_of (pmem s) r va AND PTE_V = 0"
    and "\<And>va. old \<le> va \<Longrightarrow> va < a \<Longrightarrow> pte_of (pmem s) r va AND PTE_V \<noteq> 0"
  shows "\<exists>ret s' tp' fr'. uvmalloc_loop r a old newsz xperm s = Inr (ret, s') \<and> vm_inv tp' held s' fr' \<and>
    (\<forall>r. is_root tp' r \<longleftrightarrow> is_root tp r) \<and> kern_end s' = kern_end s \<and> kmem.more s' = kmem.more s \<and>
    (ret = newsz \<and> grown tp r a (PGROUNDUP newsz) ((PTE_R OR PTE_U OR xperm) OR PTE_V) (pmem s) (pmem s') \<and>
       4096 * length fr \<le> 4096 * length fr' + 3 * (unat (PGROUNDUP newsz) - unat a) \<or>
     ret = 0 \<and> shrunk tp r old (PGROUNDUP newsz) (pmem s) (pmem s') \<and>
       4096 * length fr \<le> 3 * (unat (PGROUNDUP newsz) - unat a))"
  using assms
proof (induction "unat newsz - unat a" arbitrary: a s tp fr rule: less_induct)
  case less
  have hi: "PGROUNDUP newsz \<le> TRAPFRAME" "newsz \<le> PGROUNDUP newsz"
    using PGROUNDUP_user [OF less.prems(6)] by (simp_all add: word_le_nat_alt)
  show ?case
  proof (cases "a < newsz")
    case False
    have "unat newsz + 4095 < 2 ^ 64" using less.prems(6) by (simp add: TRAPFRAME_eq word_le_nat_alt)
    then have "PGROUNDUP newsz \<le> a" using PGROUNDUP_le_iff [of newsz a] less.prems(3) False by simp
    then have none: "\<not> (a \<le> va \<and> va < PGROUNDUP newsz)" for va by auto
    have "uvmalloc_loop r a old newsz xperm s = Inr (newsz, s)"
      using False by (subst uvmalloc_loop.simps) simp
    then show ?thesis using less.prems(1) none
      by (intro exI [of _ newsz] exI [of _ s] exI [of _ tp] exI [of _ fr]) (auto simp: grown_def)
  next
    case True
    have aT: "a < TRAPFRAME" "a < MAXVA" using True hi less.prems(6)
      by (auto simp: word_less_nat_alt word_le_nat_alt TRAPFRAME_eq MAXVA_eq)
    have u: "user_va tp r a" using less.prems(2,3) aT by (simp add: user_va_def)
    note spl = page_split [OF less.prems(3) aT(2)]
    have un: "pte_of (pmem s) r a AND PTE_V = 0" using less.prems(9) [of a] True hi by simp
    have st: "unat (a + 4096) = unat a + 4096" using below_MAXVA_step [OF aT(2)] .
    have ap: "a + 4096 \<le> PGROUNDUP newsz"
      using True hi(2) page_split(1) [OF less.prems(3) aT(2), of "PGROUNDUP newsz"] by auto
    have room: "unat a + 4096 \<le> unat (PGROUNDUP newsz)" using ap st by (simp add: word_le_nat_alt)
    from less.prems(1) u un True less.prems(8) show ?thesis
    proof (cases rule: uvmalloc_page [where old = old])
      case (1 s1 tp1 fr1)
      have r1: "is_root tp1 r" using 1(3) less.prems(2) by simp
      have ru: "PGROUNDUP a = a" "PGROUNDUP old = old"
        using PGROUNDUP_aligned less.prems(3,4,5) aT by (auto intro: order_less_imp_le order.strict_implies_order order_trans)
      have bt: "between old a va \<longleftrightarrow> old \<le> va \<and> va < a" for va using ru by (simp add: between_def)
      have v: "pte_of (pmem s1) r va AND PTE_V \<noteq> 0" if "old < a" "between old a va" for va
        using that(2) bt 1(6) [OF less.prems(2)] less.prems(10) by simp
      obtain s' fr' where d: "uvmdealloc r a old s1 = Inr (if a \<le> old then a else old, s')"
        "vm_inv tp1 held s' fr'" "kern_end s' = kern_end s1" "kmem.more s' = kmem.more s1"
        "\<And>r' va. is_root tp1 r' \<Longrightarrow> va < MAXVA \<Longrightarrow> pte_of (pmem s') r' va =
           (if r' = r \<and> old < a \<and> between old a va then 0 else pte_of (pmem s1) r' va)"
        "\<And>r' va. is_root tp1 r' \<Longrightarrow> user_byte (pmem s') r' va =
           (if r' = r \<and> old < a \<and> between old a va then None else user_byte (pmem s1) r' va)"
        using uvmdealloc_spec [OF 1(2) r1 order_less_imp_le [OF aT(1)] v] by blast
      have bt': "old < a \<and> between old a va \<longleftrightarrow> old \<le> va \<and> va < a" for va
        using bt [of va] order_le_less_trans [of old va a] by blast
      have gap: "user_byte (pmem s) r va = None" if "a \<le> va" "va < PGROUNDUP newsz" for va
        using less.prems(9) [OF that] by (simp add: user_byte_def)
      have "shrunk tp r old (PGROUNDUP newsz) (pmem s) (pmem s')"
        unfolding shrunk_def
      proof (intro conjI allI impI)
        fix r' va assume r': "is_root tp r'"
        show "user_byte (pmem s') r' va = (if r' = r \<and> old \<le> va \<and> va < PGROUNDUP newsz then None else user_byte (pmem s) r' va)"
          using d(6) [of r' va] bt' [of va] 1(3,7) r' gap [of va] less.prems(7) by (auto simp: not_less)
        assume "va < MAXVA"
        then show "if r' = r \<and> old \<le> va \<and> va < PGROUNDUP newsz then pte_of (pmem s') r' va AND PTE_V = 0
         else pte_of (pmem s') r' va = pte_of (pmem s) r' va"
          using d(5) [of r' va] bt' [of va] 1(3,6) r' less.prems(7,9) by (auto simp: not_less)
      qed
      moreover have "4096 * length fr \<le> 3 * (unat (PGROUNDUP newsz) - unat a)"
        using 1(8) room by linarith
      ultimately show ?thesis using 1 d
        by (intro exI [of _ 0] exI [of _ s'] exI [of _ tp1] exI [of _ fr']) simp
    next
      case (2 s1 tp1 fr1 e)
      have al': "page_aligned (a + 4096)" using page_aligned_step [OF less.prems(3) aT(2)] .
      have lt: "unat newsz - unat (a + 4096) < unat newsz - unat a"
        using st True by (simp add: word_less_nat_alt)
      have oa: "old \<le> a + 4096" using less.prems(5) st by (simp add: word_le_nat_alt)
      have r1: "is_root tp1 r" using 2(3) less.prems(2) by simp
      have bel: "va < MAXVA" if "va < PGROUNDUP newsz" for va
        using that hi by (auto simp: word_less_nat_alt word_le_nat_alt TRAPFRAME_eq MAXVA_eq)
      have un1: "pte_of (pmem s1) r va AND PTE_V = 0" if "a + 4096 \<le> va" "va < PGROUNDUP newsz" for va
        using 2(8) [OF less.prems(2) bel [OF that(2)]] that spl [of va] less.prems(9) [of va] by auto
      have mp1: "pte_of (pmem s1) r va AND PTE_V \<noteq> 0" if "old \<le> va" "va < a + 4096" for va
      proof (cases "PGROUNDDOWN va = a")
        case True
        have "va < PGROUNDUP newsz" using that(2) ap by simp
        then show ?thesis using True 2(7) 2(8) [OF less.prems(2) bel] by simp
      next
        case False
        have "va < PGROUNDUP newsz" using that(2) ap by simp
        moreover have "va < a" using False that(2) spl(1) [of va] by (auto simp: not_le)
        ultimately show ?thesis using False 2(8) [OF less.prems(2) bel] less.prems(10) [OF that(1)] by simp
      qed
      from less.hyps [OF lt 2(2) r1 al' less.prems(4) oa less.prems(6) ap less.prems(8) un1 mp1]
      obtain ret s' tp' fr' where ih: "uvmalloc_loop r (a + 4096) old newsz xperm s1 = Inr (ret, s')"
        "vm_inv tp' held s' fr'" "\<And>r. is_root tp' r \<longleftrightarrow> is_root tp1 r" "kern_end s' = kern_end s1" "kmem.more s' = kmem.more s1"
        "ret = newsz \<and> grown tp1 r (a + 4096) (PGROUNDUP newsz) ((PTE_R OR PTE_U OR xperm) OR PTE_V) (pmem s1) (pmem s') \<and>
           4096 * length fr1 \<le> 4096 * length fr' + 3 * (unat (PGROUNDUP newsz) - unat (a + 4096)) \<or>
         ret = 0 \<and> shrunk tp1 r old (PGROUNDUP newsz) (pmem s1) (pmem s') \<and>
           4096 * length fr1 \<le> 3 * (unat (PGROUNDUP newsz) - unat (a + 4096))" by blast
      have inpg: "PGROUNDDOWN va = a \<Longrightarrow> va < PGROUNDUP newsz" for va
      proof -
        assume "PGROUNDDOWN va = a"
        then have "\<not> a + 4096 \<le> va" using spl(2) [of va] by blast
        then show "va < PGROUNDUP newsz" using ap by simp
      qed
      from ih(6) have "ret = newsz \<and> grown tp r a (PGROUNDUP newsz) ((PTE_R OR PTE_U OR xperm) OR PTE_V) (pmem s) (pmem s') \<and>
           4096 * length fr \<le> 4096 * length fr' + 3 * (unat (PGROUNDUP newsz) - unat a) \<or>
         ret = 0 \<and> shrunk tp r old (PGROUNDUP newsz) (pmem s) (pmem s') \<and>
           4096 * length fr \<le> 3 * (unat (PGROUNDUP newsz) - unat a)"
      proof (elim disjE conjE)
        assume ret: "ret = newsz" and g: "grown tp1 r (a + 4096) (PGROUNDUP newsz) ((PTE_R OR PTE_U OR xperm) OR PTE_V) (pmem s1) (pmem s')"
          and len: "4096 * length fr1 \<le> 4096 * length fr' + 3 * (unat (PGROUNDUP newsz) - unat (a + 4096))"
        have len': "4096 * length fr \<le> 4096 * length fr' + 3 * (unat (PGROUNDUP newsz) - unat a)"
          using len 2(10) st room by linarith
        have "grown tp r a (PGROUNDUP newsz) ((PTE_R OR PTE_U OR xperm) OR PTE_V) (pmem s) (pmem s')"
          unfolding grown_def
        proof (intro conjI allI impI)
          fix r' va assume r': "is_root tp r'"
          then have r1': "is_root tp1 r'" using 2(3) by simp
          have gu: "user_byte (pmem s') r' va =
            (if r' = r \<and> a + 4096 \<le> va \<and> va < PGROUNDUP newsz then Some 0 else user_byte (pmem s1) r' va)"
            using g r1' unfolding grown_def by blast
          show "user_byte (pmem s') r' va =
            (if r' = r \<and> a \<le> va \<and> va < PGROUNDUP newsz then Some 0 else user_byte (pmem s) r' va)"
            unfolding gu 2(9) [OF r'] using spl [of va] inpg [of va] by auto
          assume lt: "va < MAXVA"
          have gp: "if r' = r \<and> a + 4096 \<le> va \<and> va < PGROUNDUP newsz then PTE_FLAGS (pte_of (pmem s') r' va) = (PTE_R OR PTE_U OR xperm) OR PTE_V
             else pte_of (pmem s') r' va = pte_of (pmem s1) r' va"
            using g r1' lt unfolding grown_def by blast
          show "if r' = r \<and> a \<le> va \<and> va < PGROUNDUP newsz then PTE_FLAGS (pte_of (pmem s') r' va) = (PTE_R OR PTE_U OR xperm) OR PTE_V
             else pte_of (pmem s') r' va = pte_of (pmem s) r' va"
            using gp 2(8) [OF r' lt] 2(6) spl [of va] inpg [of va] by (auto split: if_splits)
        qed
        then show ?thesis using ret len' by simp
      next
        assume ret: "ret = 0" and g: "shrunk tp1 r old (PGROUNDUP newsz) (pmem s1) (pmem s')"
          and len: "4096 * length fr1 \<le> 3 * (unat (PGROUNDUP newsz) - unat (a + 4096))"
        have len': "4096 * length fr \<le> 3 * (unat (PGROUNDUP newsz) - unat a)"
          using len 2(10) st room by linarith
        have "shrunk tp r old (PGROUNDUP newsz) (pmem s) (pmem s')"
          unfolding shrunk_def
        proof (intro conjI allI impI)
          fix r' va assume r': "is_root tp r'"
          then have r1': "is_root tp1 r'" using 2(3) by simp
          have gu: "user_byte (pmem s') r' va =
            (if r' = r \<and> old \<le> va \<and> va < PGROUNDUP newsz then None else user_byte (pmem s1) r' va)"
            using g r1' unfolding shrunk_def by blast
          have ina: "old \<le> va \<and> va < PGROUNDUP newsz" if "PGROUNDDOWN va = a"
            using that inpg [of va] spl(3) [of va] less.prems(5) by auto
          show "user_byte (pmem s') r' va =
            (if r' = r \<and> old \<le> va \<and> va < PGROUNDUP newsz then None else user_byte (pmem s) r' va)"
            unfolding gu 2(9) [OF r'] using ina by auto
          assume lt: "va < MAXVA"
          have gp: "if r' = r \<and> old \<le> va \<and> va < PGROUNDUP newsz then pte_of (pmem s') r' va AND PTE_V = 0
             else pte_of (pmem s') r' va = pte_of (pmem s1) r' va"
            using g r1' lt unfolding shrunk_def by blast
          show "if r' = r \<and> old \<le> va \<and> va < PGROUNDUP newsz then pte_of (pmem s') r' va AND PTE_V = 0
             else pte_of (pmem s') r' va = pte_of (pmem s) r' va"
            using gp 2(8) [OF r' lt] ina by (auto split: if_splits)
        qed
        then show ?thesis using ret len' by simp
      qed
      then show ?thesis using 2 ih
        by (intro exI [of _ ret] exI [of _ s'] exI [of _ tp'] exI [of _ fr']) simp
    qed
  qed
qed

end
