(* ===== verification/VmCopy.thy ===== *)
theory VmCopy
  imports VmOps
begin

text \<open>
  Copy-on-write sharing: \<open>uvmcopy\<close> gives the child the parent's memory without copying a page.
  Both entries lose the write permission, every count grows by one, no process reads anything
  different, and on failure the child's address space is empty again.
\<close>

section \<open>Sharing pages: uvmcopy\<close>

definition share_pte :: "uint64 \<Rightarrow> uint64" where
  "share_pte e = (if e AND PTE_W \<noteq> 0 then (e XOR PTE_W) OR PTE_COW else e)"

lemma bit_share_pte:
  "bit (share_pte e) k \<longleftrightarrow> (if k = 2 then False else if k = 8 \<and> bit e 2 then True else bit e k)"
  unfolding share_pte_def flag_bits by (auto simp: bit_or_iff bit_xor_iff)

lemma share_pte_props:
  "PTE2PA (share_pte e) = PTE2PA e" "share_pte e AND PTE_V = 0 \<longleftrightarrow> e AND PTE_V = 0"
  "share_pte e AND PTE_U = 0 \<longleftrightarrow> e AND PTE_U = 0" "share_pte e AND PTE_W = 0"
  "PTE_FLAGS e \<noteq> PTE_V \<Longrightarrow> PTE_FLAGS (share_pte e) \<noteq> PTE_V"
proof -
  show "PTE2PA (share_pte e) = PTE2PA e"
    by (rule bit_eqI) (auto simp: bit_PTE2PA bit_share_pte)
  show "share_pte e AND PTE_V = 0 \<longleftrightarrow> e AND PTE_V = 0" "share_pte e AND PTE_U = 0 \<longleftrightarrow> e AND PTE_U = 0"
    "share_pte e AND PTE_W = 0"
    unfolding flag_bits by (simp_all add: bit_share_pte)
  assume a: "PTE_FLAGS e \<noteq> PTE_V"
  show "PTE_FLAGS (share_pte e) \<noteq> PTE_V"
  proof (cases "bit e 2")
    case True
    then have "bit (PTE_FLAGS (share_pte e)) 8" by (simp add: bit_PTE_FLAGS bit_share_pte)
    then show ?thesis by auto
  next
    case False
    then have "share_pte e = e" unfolding share_pte_def flag_bits by simp
    then show ?thesis using a by simp
  qed
qed

lemma copied_entry:
  fixes e :: uint64
  assumes "e AND PTE_V \<noteq> 0" and "PTE_FLAGS e \<noteq> PTE_V"
  defines "e' \<equiv> PA2PTE (PTE2PA e) OR PTE_FLAGS e OR PTE_V"
  shows "PTE2PA e' = PTE2PA e" and "PTE_FLAGS e' = PTE_FLAGS e" and "e' AND PTE_V \<noteq> 0"
    and "e' AND PTE_W = 0 \<longleftrightarrow> e AND PTE_W = 0" and "e' AND PTE_U = 0 \<longleftrightarrow> e AND PTE_U = 0"
proof -
  have v: "PTE_FLAGS e OR PTE_V = PTE_FLAGS e"
    using assms(1) unfolding flag_bits by (intro bit_eqI) (auto simp: bit_or_iff bit_PTE_FLAGS)
  have e': "e' = PA2PTE (PTE2PA e) OR PTE_FLAGS e" unfolding e'_def v ..
  show "PTE2PA e' = PTE2PA e" unfolding e' by (rule PTE2PA_PA2PTE) simp_all
  show "PTE_FLAGS e' = PTE_FLAGS e" unfolding e' by (rule PTE_FLAGS_PA2PTE) simp
  show "e' AND PTE_V \<noteq> 0" "e' AND PTE_W = 0 \<longleftrightarrow> e AND PTE_W = 0" "e' AND PTE_U = 0 \<longleftrightarrow> e AND PTE_U = 0"
    using assms(1) unfolding e' flag_bits by (simp_all add: bit_or_iff bit_PA2PTE bit_PTE_FLAGS)
qed

text \<open>Marking the parent's entry: no process sees a change.\<close>

lemma mark_shared:
  assumes inv: "vm_inv tp held s fr" and u: "user_va tp r va" and e: "pte_of (pmem s) r va AND PTE_V \<noteq> 0"
    and q: "pt_leaf (pmem s) 2 r va = Some q"
  defines "s' \<equiv> if pte_of (pmem s) r va AND PTE_W \<noteq> 0
    then set_pte q va ((pte_of (pmem s) r va XOR PTE_W) OR PTE_COW) s else s"
  shows "vm_inv tp held s' fr" and "\<And>p. mappings tp (pmem s') p = mappings tp (pmem s) p"
    and "kern_end s' = kern_end s" "kmem.more s' = kmem.more s" "page_refcnt s' = page_refcnt s"
    and "\<And>r' va'. is_root tp r' \<Longrightarrow> va' < MAXVA \<Longrightarrow> pte_of (pmem s') r' va' =
      (if r' = r \<and> PGROUNDDOWN va' = va then share_pte (pte_of (pmem s) r va) else pte_of (pmem s) r' va')"
    and "\<And>r' va'. is_root tp r' \<Longrightarrow> user_byte (pmem s') r' va' = user_byte (pmem s) r' va'"
    and "pt_leaf (pmem s') 2 r va = Some q"
    and "\<And>x. PGROUNDDOWN x \<notin> dom tp \<Longrightarrow> pmem s' x = pmem s x"
proof -
  let ?e = "pte_of (pmem s) r va"
  note P = vm_invD(1) [OF inv] and SP = share_pte_props [of ?e]
  have R: "is_root tp r" "va < MAXVA" "page_aligned va" using user_vaD [OF u] by auto
  have fl: "PTE_FLAGS ?e \<noteq> PTE_V" using vm_invD(6) [OF inv u e] by (simp add: leaf_ok_def)
  note S = set_pte_inv [OF P R(1,2) q, where v = "share_pte ?e"]
  have s': "s' = (if ?e AND PTE_W \<noteq> 0 then set_pte q va (share_pte ?e) s else s)"
    by (simp add: s'_def share_pte_def)
  have id: "share_pte ?e = ?e" if "?e AND PTE_W = 0" using that by (simp add: share_pte_def)
  note I = vm_inv_reflag [OF inv u q e, of "share_pte ?e"]
  show "vm_inv tp held s' fr" "\<And>p. mappings tp (pmem s') p = mappings tp (pmem s) p"
    using I inv e fl SP unfolding s' by auto
  show k: "kern_end s' = kern_end s" "kmem.more s' = kmem.more s" "page_refcnt s' = page_refcnt s"
    unfolding s' by simp_all
  show pte: "pte_of (pmem s') r' va' =
      (if r' = r \<and> PGROUNDDOWN va' = va then share_pte ?e else pte_of (pmem s) r' va')"
    if "is_root tp r'" "va' < MAXVA" for r' va'
  proof (cases "?e AND PTE_W = 0")
    case True
    then show ?thesis using id pte_of_PGROUNDDOWN [of "pmem s" r va'] unfolding s' by auto
  next
    case False
    then show ?thesis using S(3) [OF that] R(3) unfolding s' by simp
  qed
  show "pt_leaf (pmem s') 2 r va = Some q" using q S(4) [OF R(1,2)] unfolding s' by simp
  show out: "pmem s' x = pmem s x" if "PGROUNDDOWN x \<notin> dom tp" for x using that S(2) unfolding s' by simp
  fix r' va' assume r': "is_root tp r'"
  have dat: "pmem s' (PTE2PA (pte_of (pmem s) r' va') + (va' - PGROUNDDOWN va')) =
      pmem s (PTE2PA (pte_of (pmem s) r' va') + (va' - PGROUNDDOWN va'))"
    if "va' < MAXVA" "pte_of (pmem s) r' va' AND PTE_V \<noteq> 0" "pte_of (pmem s) r' va' AND PTE_U \<noteq> 0"
  proof (rule out)
    have "leaf_ok tp held s (pte_of (pmem s) r' (PGROUNDDOWN va'))"
      using vm_invD(6) [OF inv user_page [OF inv r' that(1,3)]] that(2) by simp
    then show "PGROUNDDOWN (PTE2PA (pte_of (pmem s) r' va') + (va' - PGROUNDDOWN va')) \<notin> dom tp"
      by (simp add: page_plus_offset leaf_ok_def)
  qed
  show "user_byte (pmem s') r' va' = user_byte (pmem s) r' va'"
  proof (cases "va' < MAXVA \<and> r' = r \<and> PGROUNDDOWN va' = va")
    case True
    then have "pte_of (pmem s) r' va' = ?e" using pte_of_PGROUNDDOWN [of "pmem s" r va'] by auto
    then show ?thesis using True pte [OF r', of va'] dat SP(1-3) by (simp add: user_byte_def Let_def)
  next
    case False
    then show ?thesis using pte [OF r', of va'] dat by (auto simp: user_byte_def Let_def)
  qed
qed


lemma mapped_read_only:
  assumes inv: "vm_inv tp held s fr" and u: "user_va tp r va" and e: "pte_of (pmem s) r va AND PTE_V \<noteq> 0"
    and w: "pte_of (pmem s) r va AND PTE_W = 0"
    and m: "(r', va') \<in> mappings tp (pmem s) (PTE2PA (pte_of (pmem s) r va))"
  shows "pte_of (pmem s) r' va' AND PTE_W = 0"
proof (rule ccontr)
  assume w': "pte_of (pmem s) r' va' AND PTE_W \<noteq> 0"
  have u': "user_va tp r' va'" "pte_of (pmem s) r' va' AND PTE_V \<noteq> 0"
    and p: "PTE2PA (pte_of (pmem s) r' va') = PTE2PA (pte_of (pmem s) r va)"
    using m by (simp_all add: mappings_iff)
  have "refcnt s (PTE2PA (pte_of (pmem s) r' va')) = 1"
    using vm_invD(6) [OF inv u'] w' by (simp add: leaf_ok_def)
  from private_mapping [OF inv u' this] have "mappings tp (pmem s) (PTE2PA (pte_of (pmem s) r va)) = {(r', va')}"
    unfolding p .
  moreover have "(r, va) \<in> mappings tp (pmem s) (PTE2PA (pte_of (pmem s) r va))" using u e by (simp add: mappings_iff)
  ultimately show False using w w' by auto
qed

lemma uvmcopy_page:
  assumes inv: "vm_inv tp held s fr" and u: "user_va tp old i" "user_va tp new i" "old \<noteq> new"
    and e: "pte_of (pmem s) old i AND PTE_V \<noteq> 0" and un: "pte_of (pmem s) new i AND PTE_V = 0" and lt: "i < sz"
  obtains s' tp' fr' where "uvmcopy_loop old new i sz s =
      rbind (uvmunmap new 0 (i div PGSIZE) True s') (\<lambda>s. Inr (-1, s))"
    and "vm_inv tp' held s' fr'" and "\<And>r. is_root tp' r \<longleftrightarrow> is_root tp r"
    and "kern_end s' = kern_end s" and "kmem.more s' = kmem.more s"
    and "\<And>va. va < MAXVA \<Longrightarrow> pte_of (pmem s') new va = pte_of (pmem s) new va"
    and "\<And>r' va. is_root tp r' \<Longrightarrow> user_byte (pmem s') r' va = user_byte (pmem s) r' va"
    and "length fr \<le> 2"
  | s' tp' fr' where "uvmcopy_loop old new i sz s = uvmcopy_loop old new (i + PGSIZE) sz s'"
    and "vm_inv tp' held s' fr'" and "\<And>r. is_root tp' r \<longleftrightarrow> is_root tp r"
    and "kern_end s' = kern_end s" and "kmem.more s' = kmem.more s"
    and "\<And>r' va. is_root tp r' \<Longrightarrow> va < MAXVA \<Longrightarrow> \<not> (PGROUNDDOWN va = i \<and> (r' = old \<or> r' = new)) \<Longrightarrow>
      pte_of (pmem s') r' va = pte_of (pmem s) r' va"
    and "pte_of (pmem s') new i AND PTE_V \<noteq> 0" and "PTE2PA (pte_of (pmem s') new i) = PTE2PA (pte_of (pmem s) old i)"
    and "PTE_FLAGS (pte_of (pmem s') new i) = PTE_FLAGS (share_pte (pte_of (pmem s) old i))"
    and "pte_of (pmem s') old i = share_pte (pte_of (pmem s) old i)"
    and "\<And>r' va. is_root tp r' \<Longrightarrow> user_byte (pmem s') r' va =
      (if r' = new \<and> PGROUNDDOWN va = i then user_byte (pmem s) old va else user_byte (pmem s) r' va)"
    and "length fr \<le> length fr' + 2"
    and "\<And>x. PGROUNDDOWN x \<in> held \<Longrightarrow> pmem s' x = pmem s x"
proof -
  note P = vm_invD(1) [OF inv]
  have O: "is_root tp old" "i < MAXVA" "page_aligned i" and N: "is_root tp new" using user_vaD [OF u(1)] user_vaD [OF u(2)] by auto
  let ?e = "pte_of (pmem s) old i" and ?e1 = "share_pte (pte_of (pmem s) old i)"
  note SP = share_pte_props [of ?e]
  have fl: "PTE_FLAGS ?e \<noteq> PTE_V" using vm_invD(6) [OF inv u(1) e] by (simp add: leaf_ok_def)
  have ez: "?e \<noteq> 0" using e by auto
  obtain q where q: "pt_leaf (pmem s) 2 old i = Some q" using pte_of_leaf [OF ez] by blast
  note L = leaf_slot(2,3) [OF P O(1,2) q]
  define s1 where "s1 = (if ?e AND PTE_W \<noteq> 0 then set_pte q i ((?e XOR PTE_W) OR PTE_COW) s else s)"
  note M = mark_shared [OF inv u(1) e q, folded s1_def]
  have e1: "pte_of (pmem s1) old i = ?e1" using M(6) [OF O(1,2)] O(3) by simp
  have l1: "load64 (pmem s1) (slot q (px 0 i)) = ?e1"
    using leaf_slot(3) [OF vm_invD(1) [OF M(1)] O(1,2) M(8)] e1 by simp
  have un1: "pte_of (pmem s1) new i AND PTE_V = 0" using M(6) [OF N O(2)] un u(3) by auto
  have wk: "walk old i False s = Inr (slot q (px 0 i), s)" using walk_existing [OF O(2) q] .
  let ?pa = "PTE2PA ?e"
  have run: "uvmcopy_loop old new i sz s = rbind (mappages new i PGSIZE ?pa (PTE_FLAGS ?e1) s1) (\<lambda>(r, s).
      if r \<noteq> 0 then rbind (uvmunmap new 0 (i div PGSIZE) True s) (\<lambda>s. Inr (-1, s))
      else if PHYSTOP div PGSIZE \<le> ?pa div PGSIZE then Inl (Fault ''page_refcnt'')
      else uvmcopy_loop old new (i + PGSIZE) sz
             (s\<lparr>page_refcnt := (page_refcnt s)(?pa div PGSIZE := page_refcnt s (?pa div PGSIZE) + 1)\<rparr>))"
  proof -
    have "(if load64 (pmem s) (slot q (px 0 i)) AND PTE_W \<noteq> 0
        then s\<lparr>pmem := store64 (pmem s) (slot q (px 0 i)) ((load64 (pmem s) (slot q (px 0 i)) XOR PTE_W) OR PTE_COW)\<rparr> else s) = s1"
      by (simp add: s1_def L(2) set_pte_def)
    then show ?thesis using lt wk L e l1 by (subst uvmcopy_loop.simps) (simp add: Let_def)
  qed
  have e1v: "?e1 AND PTE_V \<noteq> 0" using e SP(2) by simp
  note C = copied_entry [OF e1v SP(5) [OF fl]]
  from vm_invD(1) [OF M(1)] N O(2,3) un1 show ?thesis
  proof (cases rule: mappages_one [where pa = ?pa and perm = "PTE_FLAGS ?e1"])
    case (1 tp' fr' s2)
    have root: "is_root tp' x \<longleftrightarrow> is_root tp x" for x using pt_frame_root [OF tables_grow_frame [OF 1(2)]] .
    show ?thesis
    proof (rule that(1) [of s2 tp' fr'])
      show "uvmcopy_loop old new i sz s = rbind (uvmunmap new 0 (i div PGSIZE) True s2) (\<lambda>s. Inr (-1, s))"
        unfolding run 1(4) by simp
      show "vm_inv tp' held s2 fr'" using vm_inv_grow [OF M(1) 1(2,1)] .
      show "pte_of (pmem s2) new va = pte_of (pmem s) new va" if "va < MAXVA" for va
        using tables_grow_pte [OF 1(2) N] M(6) [OF N that] u(3) by simp
      show "user_byte (pmem s2) r' va = user_byte (pmem s) r' va" if "is_root tp r'" for r' va
        using user_byte_grow [OF M(1) 1(2) that] M(7) [OF that] by simp
    qed (use root tables_growD(5,6) [OF 1(2)] M(3,4) 1(6) in simp_all)
  next
    case (2 tp' fr' s2 q')
    have root: "is_root tp' x \<longleftrightarrow> is_root tp x" for x using pt_frame_root [OF tables_grow_frame [OF 2(2)]] .
    have inv2: "vm_inv tp' held s2 fr'" using vm_inv_grow [OF M(1) 2(2,1)] .
    let ?e2 = "PA2PTE ?pa OR PTE_FLAGS ?e1 OR PTE_V"
    have C': "PTE2PA ?e2 = ?pa" "PTE_FLAGS ?e2 = PTE_FLAGS ?e1" "?e2 AND PTE_V \<noteq> 0" "?e2 AND PTE_W = 0"
      "?e2 AND PTE_U = 0 \<longleftrightarrow> ?e AND PTE_U = 0" "PTE_FLAGS ?e2 \<noteq> PTE_V"
      using C SP fl unfolding SP(1) by auto
    have uo: "user_va tp' old i" and unw: "user_va tp' new i" using u root by (simp_all add: user_va_def)
    have pte2: "pte_of (pmem s2) r' va = (if r' = old \<and> PGROUNDDOWN va = i then ?e1 else pte_of (pmem s) r' va)"
      if "is_root tp r'" "va < MAXVA" for r' va
      using tables_grow_pte [OF 2(2) that(1)] M(6) [OF that] by simp
    have eo2: "pte_of (pmem s2) old i = ?e1" using pte2 [OF O(1,2)] O(3) by simp
    have l2: "leaf_ok tp' held s2 ?e1" using vm_invD(6) [OF inv2 uo] eo2 e1v by simp
    then have pa: "ram_page s2 ?pa" "?pa \<notin> dom tp' \<union> held" by (simp_all add: leaf_ok_def SP(1))
    have nf: "?pa \<notin> set fr'" using mapped_not_free(1) [OF inv2 uo] eo2 e1v SP(1) by simp
    have old2: "pte_of (pmem s2) new i AND PTE_V = 0" using pte2 [OF N O(2)] un u(3) by simp
    let ?s = "(set_pte q' i ?e2 s2)\<lparr>page_refcnt := (page_refcnt s2)(?pa div PGSIZE := refcnt s2 ?pa + 1)\<rparr>"
    have ro: "pte_of (pmem s2) r' va' AND PTE_W = 0" if "(r', va') \<in> mappings tp' (pmem s2) ?pa" for r' va'
      using mapped_read_only [OF inv2 uo] that eo2 e1v SP(1,4) by simp
    have inv3: "vm_inv tp' held ?s fr'"
      using vm_inv_share [OF inv2 unw 2(4) old2 C'(3,1,6,4) pa nf ro] .
    note S = set_pte_inv [OF 2(1,3) O(2) 2(4), where v = ?e2]
    have pte3: "pte_of (pmem ?s) r' va = (if r' = new \<and> PGROUNDDOWN va = i then ?e2 else pte_of (pmem s2) r' va)"
      if "is_root tp r'" "va < MAXVA" for r' va
      using S(3) [of r' va] that root O(3) by simp
    have "\<not> PHYSTOP div PGSIZE \<le> ?pa div PGSIZE" using ram_page_index [OF pa(1)] by simp
    then have run2: "uvmcopy_loop old new i sz s = uvmcopy_loop old new (i + PGSIZE) sz ?s"
      unfolding run 2(5) by simp
    have view2: "user_byte (pmem s2) r' va = user_byte (pmem s) r' va" if "is_root tp r'" for r' va
      using user_byte_grow [OF M(1) 2(2) that] M(7) [OF that] by simp
    have view: "user_byte (pmem ?s) r' va =
      (if r' = new \<and> PGROUNDDOWN va = i then user_byte (pmem s) old va else user_byte (pmem s) r' va)"
      if r': "is_root tp r'" for r' va
    proof (cases "r' = new \<and> PGROUNDDOWN va = i")
      case True
      then have lt': "va < MAXVA" using O(2) PGROUNDDOWN_less_MAXVA [of va] by simp
      have "pmem ?s (?pa + (va - PGROUNDDOWN va)) = pmem s2 (?pa + (va - PGROUNDDOWN va))"
        using S(2) [of "?pa + (va - PGROUNDDOWN va)"] pa(2) by (simp add: page_plus_offset)
      moreover have "pte_of (pmem s2) old va = ?e1" using pte2 [OF O(1) lt'] True by simp
      ultimately have "user_byte (pmem ?s) new va = user_byte (pmem s2) old va"
        using True lt' pte3 [OF N lt'] C'(1,3,5) SP(1-3) e by (simp add: user_byte_def Let_def)
      then show ?thesis using True view2 [OF O(1)] by simp
    next
      case False
      have "user_byte (pmem ?s) r' va = user_byte (pmem s2) r' va"
      proof (cases "va < MAXVA")
        case True
        then have "pte_of (pmem ?s) r' va = pte_of (pmem s2) r' va" using pte3 [OF r' True] False by auto
        then show ?thesis
          using S(2) root r' by (intro user_byte_frame [OF inv2]) (auto simp: mappings_iff leaf_ok_def)
      qed (simp add: user_byte_def)
      then show ?thesis using view2 [OF r'] False by auto
    qed
    have kept: "pmem ?s x = pmem s x" if "PGROUNDDOWN x \<in> held" for x
    proof -
      have "PGROUNDDOWN x \<notin> dom tp" "PGROUNDDOWN x \<notin> dom tp'" "PGROUNDDOWN x \<notin> set fr"
        using that vm_invD(2) [OF inv] vm_invD(2) [OF inv2] free_unmapped(4) [OF inv] by auto
      then show ?thesis using S(2) tables_growD(3) [OF 2(2)] M(9) by simp
    qed
    show ?thesis
    proof (rule that(2) [of ?s tp' fr'])
      show "pte_of (pmem ?s) r' va = pte_of (pmem s) r' va"
        if "is_root tp r'" "va < MAXVA" "\<not> (PGROUNDDOWN va = i \<and> (r' = old \<or> r' = new))" for r' va
        using pte3 [OF that(1,2)] pte2 [OF that(1,2)] that(3) by auto
      show "pte_of (pmem ?s) old i = ?e1" using pte3 [OF O(1,2)] eo2 u(3) by simp
      have "pte_of (pmem ?s) new i = ?e2" using pte3 [OF N O(2)] O(3) by simp
      then show "pte_of (pmem ?s) new i AND PTE_V \<noteq> 0" "PTE2PA (pte_of (pmem ?s) new i) = ?pa"
        "PTE_FLAGS (pte_of (pmem ?s) new i) = PTE_FLAGS ?e1" using C' by simp_all
    qed (use run2 inv3 root view kept tables_growD(5,6) [OF 2(2)] M(3,4) 2(6) in simp_all)
  qed
qed

text \<open>
  The child's pages from \<open>lo\<close> to \<open>hi\<close> show the parent's memory, read-only in both, and nothing
  else changed for any process.
\<close>

definition shared :: "roles \<Rightarrow> uint64 \<Rightarrow> uint64 \<Rightarrow> uint64 \<Rightarrow> uint64 \<Rightarrow> memory \<Rightarrow> memory \<Rightarrow> bool" where
  "shared tp old new lo hi m m' \<longleftrightarrow>
     (\<forall>r va. is_root tp r \<longrightarrow> user_byte m' r va =
        (if r = new \<and> lo \<le> va \<and> va < hi then user_byte m old va else user_byte m r va)) \<and>
     (\<forall>va. lo \<le> va \<longrightarrow> va < hi \<longrightarrow> pte_of m' new va AND PTE_V \<noteq> 0 \<and>
        PTE2PA (pte_of m' new va) = PTE2PA (pte_of m old va) \<and>
        PTE2PA (pte_of m' old va) = PTE2PA (pte_of m old va) \<and>
        pte_of m' old va AND PTE_W = 0 \<and> pte_of m' new va AND PTE_W = 0 \<and>
        writable (pte_of m' old va) = writable (pte_of m old va) \<and>
        writable (pte_of m' new va) = writable (pte_of m old va)) \<and>
     (\<forall>r va. is_root tp r \<longrightarrow> va < MAXVA \<longrightarrow> \<not> (lo \<le> va \<and> va < hi \<and> (r = old \<or> r = new)) \<longrightarrow>
        pte_of m' r va = pte_of m r va)"

lemma flags_W: "PTE_FLAGS a = PTE_FLAGS b \<Longrightarrow> a AND PTE_W = 0 \<longleftrightarrow> b AND PTE_W = 0"
  unfolding flag_bits using bit_PTE_FLAGS [of a 2] bit_PTE_FLAGS [of b 2] by simp

lemma writable_flags: "PTE_FLAGS a = PTE_FLAGS b \<Longrightarrow> writable a = writable b"
proof -
  assume f: "PTE_FLAGS a = PTE_FLAGS b"
  have "bit a k \<longleftrightarrow> bit b k" if "k < 10" for k using that f bit_PTE_FLAGS [of a k] bit_PTE_FLAGS [of b k] by simp
  from this [of 0] this [of 2] this [of 4] this [of 8] show ?thesis unfolding writable_def flag_bits by simp
qed

lemma writable_share [simp]: "writable (share_pte e) = writable e"
  unfolding writable_def flag_bits by (auto simp: bit_share_pte)

lemma uvmcopy_loop_spec:
  assumes "vm_inv tp held s fr" and "is_root tp old" and "is_root tp new" and ne: "old \<noteq> new"
    and "page_aligned i" and sz: "sz \<le> TRAPFRAME" and "i \<le> PGROUNDUP sz"
    and "\<And>va. i \<le> va \<Longrightarrow> va < PGROUNDUP sz \<Longrightarrow> pte_of (pmem s) old va AND PTE_V \<noteq> 0"
    and "\<And>va. i \<le> va \<Longrightarrow> va < PGROUNDUP sz \<Longrightarrow> pte_of (pmem s) new va AND PTE_V = 0"
    and "\<And>va. va < i \<Longrightarrow> pte_of (pmem s) new va AND PTE_V \<noteq> 0"
  shows "\<exists>ret s' tp' fr'. uvmcopy_loop old new i sz s = Inr (ret, s') \<and> vm_inv tp' held s' fr' \<and>
    (\<forall>r. is_root tp' r \<longleftrightarrow> is_root tp r) \<and> kern_end s' = kern_end s \<and> kmem.more s' = kmem.more s \<and>
    (ret = 0 \<and> shared tp old new i (PGROUNDUP sz) (pmem s) (pmem s') \<and>
       4096 * length fr \<le> 4096 * length fr' + 2 * (unat (PGROUNDUP sz) - unat i) \<and>
       (\<forall>x. PGROUNDDOWN x \<in> held \<longrightarrow> pmem s' x = pmem s x) \<or>
     ret = -1 \<and> (\<forall>r va. is_root tp r \<longrightarrow> user_byte (pmem s') r va =
       (if r = new \<and> va < PGROUNDUP sz then None else user_byte (pmem s) r va)) \<and>
       4096 * length fr \<le> 2 * (unat (PGROUNDUP sz) - unat i))"
  using assms(1-3,5,7-10)
proof (induction "unat sz - unat i" arbitrary: i s tp fr rule: less_induct)
  case less
  have hi: "PGROUNDUP sz \<le> TRAPFRAME" "sz \<le> PGROUNDUP sz"
    using PGROUNDUP_user [OF sz] by (simp_all add: word_le_nat_alt)
  have bel: "va < MAXVA" if "va < PGROUNDUP sz" for va
    using that hi by (auto simp: word_less_nat_alt word_le_nat_alt TRAPFRAME_eq MAXVA_eq)
  show ?case
  proof (cases "i < sz")
    case False
    have "unat sz + 4095 < 2 ^ 64" using sz by (simp add: TRAPFRAME_eq word_le_nat_alt)
    then have "PGROUNDUP sz \<le> i" using PGROUNDUP_le_iff [of sz i] less.prems(4) False by simp
    then have none: "\<not> (i \<le> va \<and> va < PGROUNDUP sz)" for va by auto
    have "uvmcopy_loop old new i sz s = Inr (0, s)"
      using False by (subst uvmcopy_loop.simps) simp
    then show ?thesis using less.prems(1) none
      by (intro exI [of _ 0] exI [of _ s] exI [of _ tp] exI [of _ fr]) (auto simp: shared_def)
  next
    case True
    have iT: "i < TRAPFRAME" "i < MAXVA" and ip: "i < PGROUNDUP sz" using True hi sz
      by (auto simp: word_less_nat_alt word_le_nat_alt TRAPFRAME_eq MAXVA_eq)
    have u: "user_va tp old i" "user_va tp new i" using less.prems(2-4) iT by (simp_all add: user_va_def)
    note spl = page_split [OF less.prems(4) iT(2)]
    have e: "pte_of (pmem s) old i AND PTE_V \<noteq> 0" "pte_of (pmem s) new i AND PTE_V = 0"
      using less.prems(6,7) [of i] ip by simp_all
    have st: "unat (i + 4096) = unat i + 4096" using below_MAXVA_step [OF iT(2)] .
    have ap: "i + 4096 \<le> PGROUNDUP sz" using ip page_split(1) [OF less.prems(4) iT(2), of "PGROUNDUP sz"] True hi(2) by auto
    have room: "unat i + 4096 \<le> unat (PGROUNDUP sz)" using ap st by (simp add: word_le_nat_alt)
    from less.prems(1) u ne e True show ?thesis
    proof (cases rule: uvmcopy_page)
      case (1 s1 tp1 fr1)
      have r1: "is_root tp1 new" using 1(3) less.prems(3) by simp
      obtain n where n: "unat i = 4096 * n" using less.prems(4) page_multiple by blast
      have i0: "0 + 4096 * of_nat n = i" "i div 4096 = of_nat n"
      proof -
        have "unat (of_nat (4096 * n) :: uint64) = 4096 * n" using n unat_less64 [of i] by (intro unat_of_nat64) simp
        then show "0 + 4096 * of_nat n = i" using n by (simp add: word_unat_eq_iff)
        have "unat (i div 4096) = n" using n by (simp add: unat_div)
        then show "i div 4096 = of_nat n" by (metis of_nat_unat ucast_id)
      qed
      have fits: "unat (0 :: uint64) + 4096 * n \<le> 0x3fffffe000" using n iT by (simp add: TRAPFRAME_eq word_less_nat_alt)
      have rng: "in_range 0 n va \<longleftrightarrow> va < i" for va using n by (simp add: in_range_def word_less_nat_alt)
      have v: "pte_of (pmem s1) new va AND PTE_V \<noteq> 0" if "in_range 0 n va" for va
      proof -
        have "va < MAXVA" "va < i" using that rng iT(2) by auto
        then show ?thesis using 1(6) less.prems(8) by simp
      qed
      have al0: "page_aligned 0" by (simp add: page_aligned_def)
      obtain s' fr' where d: "uvmunmap_loop new 0 (0 + 4096 * of_nat n) True s1 = Inr s'"
        "vm_inv tp1 held s' fr'" "kern_end s' = kern_end s1" "kmem.more s' = kmem.more s1"
        "\<And>r' va'. is_root tp1 r' \<Longrightarrow> user_byte (pmem s') r' va' =
           (if r' = new \<and> in_range 0 n va' then None else user_byte (pmem s1) r' va')"
        using uvmunmap_loop_range [OF 1(2) r1 al0 fits v] by blast
      have "uvmunmap new 0 (i div PGSIZE) True s1 = Inr s'"
        using d(1) i0 by (simp add: uvmunmap_def mult.commute)
      then have "uvmcopy_loop old new i sz s = Inr (-1, s')" unfolding 1(1) by simp
      moreover have "user_byte (pmem s') r va = (if r = new \<and> va < PGROUNDUP sz then None else user_byte (pmem s) r va)"
        if "is_root tp r" for r va
      proof -
        have "user_byte (pmem s) new va = None" if "i \<le> va" "va < PGROUNDUP sz"
          using less.prems(7) [OF that] by (simp add: user_byte_def)
        then show ?thesis using d(5) [of r va] 1(3,7) that rng ip by (auto simp: not_less)
      qed
      moreover have "4096 * length fr \<le> 2 * (unat (PGROUNDUP sz) - unat i)" using 1(8) room by linarith
      ultimately show ?thesis using d(2-4) 1(3-5)
        by (intro exI [of _ "-1"] exI [of _ s'] exI [of _ tp1] exI [of _ fr']) simp
    next
      case (2 s1 tp1 fr1)
      have al': "page_aligned (i + 4096)" using page_aligned_step [OF less.prems(4) iT(2)] .
      have lt: "unat sz - unat (i + 4096) < unat sz - unat i" using st True by (simp add: word_less_nat_alt)
      have r1: "is_root tp1 old" "is_root tp1 new" using 2(3) less.prems(2,3) by simp_all
      have up: "i \<le> va \<and> PGROUNDDOWN va \<noteq> i" if "i + 4096 \<le> va" for va using that spl(1,2) [of va] by blast
      have o1: "pte_of (pmem s1) old va AND PTE_V \<noteq> 0" if "i + 4096 \<le> va" "va < PGROUNDUP sz" for va
        using 2(6) [OF less.prems(2) bel [OF that(2)]] up [OF that(1)] less.prems(6) [of va] that by simp
      have n1: "pte_of (pmem s1) new va AND PTE_V = 0" if "i + 4096 \<le> va" "va < PGROUNDUP sz" for va
        using 2(6) [OF less.prems(3) bel [OF that(2)]] up [OF that(1)] less.prems(7) [of va] that by simp
      have pg: "pte_of m r va = pte_of m r i" if "PGROUNDDOWN va = i" for m r va
        using that pte_of_PGROUNDDOWN by metis
      have d1: "pte_of (pmem s1) new va AND PTE_V \<noteq> 0" if "va < i + 4096" for va
      proof (cases "PGROUNDDOWN va = i")
        case True
        then show ?thesis using 2(7) pg by simp
      next
        case False
        have "va < i" using False that spl(1) [of va] by (auto simp: not_le)
        moreover have "va < MAXVA" using calculation iT(2) by simp
        ultimately show ?thesis using False 2(6) [OF less.prems(3)] less.prems(8) by simp
      qed
      from less.hyps [OF lt 2(2) r1 al' ap o1 n1 d1]
      obtain ret s' tp' fr' where ih: "uvmcopy_loop old new (i + 4096) sz s1 = Inr (ret, s')" "vm_inv tp' held s' fr'"
        "\<And>r. is_root tp' r \<longleftrightarrow> is_root tp1 r" "kern_end s' = kern_end s1" "kmem.more s' = kmem.more s1"
        "ret = 0 \<and> shared tp1 old new (i + 4096) (PGROUNDUP sz) (pmem s1) (pmem s') \<and>
           4096 * length fr1 \<le> 4096 * length fr' + 2 * (unat (PGROUNDUP sz) - unat (i + 4096)) \<and>
           (\<forall>x. PGROUNDDOWN x \<in> held \<longrightarrow> pmem s' x = pmem s1 x) \<or>
         ret = -1 \<and> (\<forall>r va. is_root tp1 r \<longrightarrow> user_byte (pmem s') r va =
           (if r = new \<and> va < PGROUNDUP sz then None else user_byte (pmem s1) r va)) \<and>
           4096 * length fr1 \<le> 2 * (unat (PGROUNDUP sz) - unat (i + 4096))" by blast
      have inpg: "va < PGROUNDUP sz" if "PGROUNDDOWN va = i" for va
      proof -
        have "\<not> i + 4096 \<le> va" using that spl(2) [of va] by blast
        then show ?thesis using ap by simp
      qed
      have in_i: "i \<le> va \<and> va < PGROUNDUP sz \<longleftrightarrow> PGROUNDDOWN va = i \<or> i + 4096 \<le> va \<and> va < PGROUNDUP sz" for va
        using spl [of va] inpg [of va] by blast
      note ob = 2(11) [OF less.prems(2)]
      from ih(6) have "ret = 0 \<and> shared tp old new i (PGROUNDUP sz) (pmem s) (pmem s') \<and>
           4096 * length fr \<le> 4096 * length fr' + 2 * (unat (PGROUNDUP sz) - unat i) \<and>
           (\<forall>x. PGROUNDDOWN x \<in> held \<longrightarrow> pmem s' x = pmem s x) \<or>
         ret = -1 \<and> (\<forall>r va. is_root tp r \<longrightarrow> user_byte (pmem s') r va =
           (if r = new \<and> va < PGROUNDUP sz then None else user_byte (pmem s) r va)) \<and>
           4096 * length fr \<le> 2 * (unat (PGROUNDUP sz) - unat i)"
      proof (elim disjE conjE)
        assume ret: "ret = 0" and g: "shared tp1 old new (i + 4096) (PGROUNDUP sz) (pmem s1) (pmem s')"
          and left: "4096 * length fr1 \<le> 4096 * length fr' + 2 * (unat (PGROUNDUP sz) - unat (i + 4096))"
          and kept: "\<forall>x. PGROUNDDOWN x \<in> held \<longrightarrow> pmem s' x = pmem s1 x"
        have left': "4096 * length fr \<le> 4096 * length fr' + 2 * (unat (PGROUNDUP sz) - unat i)"
          using left 2(12) st room by linarith
        have g1: "user_byte (pmem s') r va = (if r = new \<and> i + 4096 \<le> va \<and> va < PGROUNDUP sz
            then user_byte (pmem s1) old va else user_byte (pmem s1) r va)" if "is_root tp r" for r va
          using g that 2(3) unfolding shared_def by blast
        have g3: "pte_of (pmem s') r va = pte_of (pmem s1) r va"
          if "is_root tp r" "va < MAXVA" "\<not> (i + 4096 \<le> va \<and> va < PGROUNDUP sz \<and> (r = old \<or> r = new))" for r va
          using g that 2(3) unfolding shared_def by blast
        have core: "pte_of (pmem s') new va AND PTE_V \<noteq> 0 \<and>
            PTE2PA (pte_of (pmem s') new va) = PTE2PA (pte_of (pmem s) old va) \<and>
            PTE2PA (pte_of (pmem s') old va) = PTE2PA (pte_of (pmem s) old va) \<and>
            pte_of (pmem s') old va AND PTE_W = 0 \<and> pte_of (pmem s') new va AND PTE_W = 0 \<and>
            writable (pte_of (pmem s') old va) = writable (pte_of (pmem s) old va) \<and>
            writable (pte_of (pmem s') new va) = writable (pte_of (pmem s) old va)"
          if v: "i \<le> va" "va < PGROUNDUP sz" for va
        proof -
          note M = bel [OF v(2)]
          show ?thesis
          proof (cases "PGROUNDDOWN va = i")
            case True
            then have "\<not> i + 4096 \<le> va" using spl(2) [of va] by blast
            then have "pte_of (pmem s') new va = pte_of (pmem s1) new i" "pte_of (pmem s') old va = pte_of (pmem s1) old i"
              using g3 [OF less.prems(3) M] g3 [OF less.prems(2) M] pg [OF True] by simp_all
            then show ?thesis
              using 2(7-10) share_pte_props [of "pte_of (pmem s) old i"] flags_W [OF 2(9)] writable_flags [OF 2(9)] pg [OF True] by simp
          next
            case False
            then have "i + 4096 \<le> va" using v in_i by blast
            moreover have "pte_of (pmem s1) old va = pte_of (pmem s) old va" using 2(6) [OF less.prems(2) M] False by simp
            ultimately show ?thesis using g v unfolding shared_def by simp
          qed
        qed
        have "shared tp old new i (PGROUNDUP sz) (pmem s) (pmem s')"
          unfolding shared_def
        proof (intro conjI allI impI)
          fix r va assume r: "is_root tp r"
          show "user_byte (pmem s') r va = (if r = new \<and> i \<le> va \<and> va < PGROUNDUP sz
              then user_byte (pmem s) old va else user_byte (pmem s) r va)"
            unfolding g1 [OF r] 2(11) [OF r] ob using ne in_i [of va] by auto
          assume "va < MAXVA" "\<not> (i \<le> va \<and> va < PGROUNDUP sz \<and> (r = old \<or> r = new))"
          then show "pte_of (pmem s') r va = pte_of (pmem s) r va"
            using g3 [OF r, of va] 2(6) [OF r, of va] in_i [of va] by (metis (no_types, lifting))
        qed (use core in auto)
        then show ?thesis using ret left' kept 2(13) by simp
      next
        assume ret: "ret = -1" and g: "\<forall>r va. is_root tp1 r \<longrightarrow> user_byte (pmem s') r va =
           (if r = new \<and> va < PGROUNDUP sz then None else user_byte (pmem s1) r va)"
          and len: "4096 * length fr1 \<le> 2 * (unat (PGROUNDUP sz) - unat (i + 4096))"
        have len': "4096 * length fr \<le> 2 * (unat (PGROUNDUP sz) - unat i)" using len 2(12) st room by linarith
        have "user_byte (pmem s') r va = (if r = new \<and> va < PGROUNDUP sz then None else user_byte (pmem s) r va)"
          if r: "is_root tp r" for r va
        proof -
          have "user_byte (pmem s') r va = (if r = new \<and> va < PGROUNDUP sz then None else user_byte (pmem s1) r va)"
            using g r 2(3) by blast
          then show ?thesis using 2(11) [OF r, of va] inpg [of va] by auto
        qed
        then show ?thesis using ret len' by blast
      qed
      then show ?thesis using 2(1-5) ih(1-5)
        by (intro exI [of _ ret] exI [of _ s'] exI [of _ tp'] exI [of _ fr']) simp
    qed
  qed
qed

end
