(* ===== verification/VmProps.thy ===== *)
theory VmProps
  imports VmCopy
begin

text \<open>
  The properties of the memory system that the rest of the kernel relies on, and the small
  machine on which they are exercised: 32 pages of RAM after \<open>kinit\<close>, one address space with two
  zeroed pages made by \<open>uvmcreate\<close> and \<open>uvmalloc\<close>, and one empty address space.
\<close>

section \<open>A small machine\<close>

definition demo_kmem :: kmem where
  "demo_kmem = (case kinit (boot_kmem 0x87fe0000) of Inr s \<Rightarrow> s | Inl _ \<Rightarrow> boot_kmem 0)"

definition demo_old :: uint64 where "demo_old = fst (uvmcreate demo_kmem)"
definition demo_kmem1 :: kmem where "demo_kmem1 = snd (uvmcreate demo_kmem)"
definition demo_new :: uint64 where "demo_new = fst (uvmcreate demo_kmem1)"
definition demo_kmem2 :: kmem where "demo_kmem2 = snd (uvmcreate demo_kmem1)"

definition demo_user :: kmem where
  "demo_user = (case uvmalloc demo_old 0 8192 PTE_W demo_kmem2 of Inr (sz, s) \<Rightarrow> s | Inl _ \<Rightarrow> demo_kmem2)"

lemma vm_inv_boot:
  assumes "kmem_inv s fl" and "set fl = {p. ram_page s p}"
  shows "vm_inv Map.empty {} s fl"
proof -
  have "mappings Map.empty (pmem s) p = {}" for p by (simp add: mappings_def user_va_def is_root_def)
  moreover have "page_refcnt s (p div PGSIZE) = 0" if "ram_page s p" for p
    using that assms by (auto simp: kmem_inv_def)
  ultimately show ?thesis
    using assms by (simp add: vm_inv_def pt_inv_def pt_typed_def user_va_def is_root_def)
qed

lemma demo_pages: "\<exists>fl. vm_inv Map.empty {} demo_kmem fl \<and> 24 \<le> length fl"
proof -
  let ?b = "boot_kmem 0x87fe0000"
  obtain s fl where s: "kinit ?b = Inr s" "kmem_inv s fl" "set fl = {p. ram_page ?b p}" "kern_end s = kern_end ?b"
    using kinit_frees [of ?b] by (auto simp: boot_kmem_def PHYSTOP_eq)
  have rp: "ram_page s p = ram_page ?b p" for p using s(4) by (simp add: ram_page_def)
  have "vm_inv Map.empty {} s fl" using s rp by (intro vm_inv_boot) auto
  moreover have "24 \<le> length fl"
  proof -
    let ?ps = "[0x87fe8000, 0x87fe9000, 0x87fea000, 0x87feb000, 0x87fec000, 0x87fed000, 0x87fee000, 0x87fef000,
      0x87ff0000, 0x87ff1000, 0x87ff2000, 0x87ff3000, 0x87ff4000, 0x87ff5000, 0x87ff6000, 0x87ff7000,
      0x87ff8000, 0x87ff9000, 0x87ffa000, 0x87ffb000, 0x87ffc000, 0x87ffd000, 0x87ffe000, 0x87fff000 :: uint64]"
    have "set ?ps \<subseteq> set fl" unfolding s(3) by (simp add: ram_page_def page_aligned_def boot_kmem_def PHYSTOP_eq)
    have "distinct ?ps" by simp
    have "card (set ?ps) \<le> card (set fl)" by (rule card_mono) (use \<open>set ?ps \<subseteq> set fl\<close> in auto)
    also have "\<dots> \<le> length fl" by (rule card_length)
    finally show ?thesis using distinct_card [OF \<open>distinct ?ps\<close>] by simp
  qed
  ultimately show ?thesis using s(1) by (auto simp: demo_kmem_def)
qed

text \<open>The small machine satisfies the invariant, and the first address space has two pages.\<close>

lemma demo_space:
  "\<exists>tp fr. vm_inv tp {} demo_user fr \<and> is_root tp demo_old \<and> is_root tp demo_new \<and> demo_old \<noteq> demo_new \<and>
    16 \<le> length fr \<and> (\<forall>va < 8192. pte_of (pmem demo_user) demo_old va AND PTE_V \<noteq> 0 \<and>
      user_byte (pmem demo_user) demo_old va = Some 0 \<and> writable (pte_of (pmem demo_user) demo_old va)) \<and>
    (\<forall>va < 8192. pte_of (pmem demo_user) demo_new va AND PTE_V = 0)"
proof -
  obtain fl where fl: "vm_inv Map.empty {} demo_kmem fl" "24 \<le> length fl" using demo_pages by blast
  then obtain p q ps where ps: "fl = p # q # ps" by (cases fl; cases "tl fl") auto
  obtain s1 where s1: "uvmcreate demo_kmem = (p, s1)" "vm_inv [p \<mapsto> (p, 2, 0)] {} s1 (q # ps)" "is_root [p \<mapsto> (p, 2, 0)] p"
    "\<And>va. pte_of (pmem s1) p va = 0"
    using uvmcreate_spec [OF fl(1) [unfolded ps]] by blast
  define tp :: roles where "tp = [p \<mapsto> (p, 2, 0), q \<mapsto> (q, 2, 0)]"
  obtain s2 where s2: "uvmcreate s1 = (q, s2)" "vm_inv tp {} s2 ps" "([p \<mapsto> (p, 2, 0)] :: roles) q = None" "is_root tp q"
    "\<And>va. pte_of (pmem s2) q va = 0" "\<And>va. pte_of (pmem s2) p va = pte_of (pmem s1) p va"
    using uvmcreate_spec [OF s1(2)] s1(3) unfolding tp_def by blast
  have ne: "p \<noteq> q" using s2(3) by auto
  have rp: "is_root tp p" using ne by (simp add: tp_def is_root_def)
  have up: "PGROUNDUP 0 = 0" "PGROUNDUP 8192 = 8192" by (simp_all add: PGROUNDUP_def)
  have al: "page_aligned 0" by (simp add: page_aligned_def)
  have small: "(8192 :: uint64) \<le> TRAPFRAME" by (simp add: TRAPFRAME_eq)
  have "\<exists>ret s' tp' fr'. uvmalloc_loop p 0 0 8192 PTE_W s2 = Inr (ret, s') \<and> vm_inv tp' {} s' fr' \<and>
    (\<forall>r. is_root tp' r \<longleftrightarrow> is_root tp r) \<and> kern_end s' = kern_end s2 \<and> kmem.more s' = kmem.more s2 \<and>
    (ret = 8192 \<and> grown tp p 0 (PGROUNDUP 8192) ((PTE_R OR PTE_U OR PTE_W) OR PTE_V) (pmem s2) (pmem s') \<and>
       4096 * length ps \<le> 4096 * length fr' + 3 * (unat (PGROUNDUP 8192) - unat (0 :: uint64)) \<or>
     ret = 0 \<and> shrunk tp p 0 (PGROUNDUP 8192) (pmem s2) (pmem s') \<and>
       4096 * length ps \<le> 3 * (unat (PGROUNDUP 8192) - unat (0 :: uint64)))"
    by (rule uvmalloc_loop_spec [OF s2(2) rp al al _ small]) (use s1(4) s2(6) in \<open>simp_all add: up\<close>)
  then obtain s3 tp' fr' where s3: "uvmalloc_loop p 0 0 8192 PTE_W s2 = Inr (8192, s3)" "vm_inv tp' {} s3 fr'"
    "\<And>r. is_root tp' r \<longleftrightarrow> is_root tp r" "grown tp p 0 8192 ((PTE_R OR PTE_U OR PTE_W) OR PTE_V) (pmem s2) (pmem s3)"
    "4096 * length ps \<le> 4096 * length fr' + 3 * 8192"
    using fl(2) ps unfolding up by auto
  have "demo_old = p" "demo_new = q" "demo_user = s3"
    using s1(1) s2(1) s3(1) by (simp_all add: demo_old_def demo_new_def demo_kmem1_def demo_kmem2_def
        demo_user_def uvmalloc_def up)
  moreover have "pte_of (pmem s3) p va AND PTE_V \<noteq> 0 \<and> user_byte (pmem s3) p va = Some 0 \<and> writable (pte_of (pmem s3) p va)" if "va < 8192" for va
  proof -
    have "va < MAXVA" using that by (simp add: MAXVA_eq word_less_nat_alt)
    then have f: "PTE_FLAGS (pte_of (pmem s3) p va) = (PTE_R OR PTE_U OR PTE_W) OR PTE_V"
      and b: "user_byte (pmem s3) p va = Some 0"
      using s3(4) that rp by (simp_all add: grown_def)
    have "bit (PTE_FLAGS (pte_of (pmem s3) p va)) 0" "bit (PTE_FLAGS (pte_of (pmem s3) p va)) 2"
      "bit (PTE_FLAGS (pte_of (pmem s3) p va)) 4" unfolding f by (simp_all add: bit_or_iff)
    then show ?thesis using b unfolding writable_def flag_bits by (simp add: bit_PTE_FLAGS)
  qed
  moreover have "pte_of (pmem s3) q va AND PTE_V = 0" if "va < 8192" for va
  proof -
    have "va < MAXVA" using that by (simp add: MAXVA_eq word_less_nat_alt)
    then have "pte_of (pmem s3) q va = pte_of (pmem s2) q va"
      using s3(4) s2(4) ne by (auto simp: grown_def)
    then show ?thesis using s2(5) by simp
  qed
  moreover have "16 \<le> length fr'" using s3(5) fl(2) ps by simp
  ultimately show ?thesis using s3(2,3) rp s2(4) ne by (intro exI [of _ tp'] exI [of _ fr']) simp
qed

section \<open>Properties\<close>

text \<open>C1: \<open>uvmcopy\<close> forks an address space without copying a page.  When it succeeds, the child
  reads at every address below the size exactly what the parent reads, through the same physical
  pages, mapped writable in neither, but marked copy-on-write in both where the parent could write, so
  that both may write where the parent could and nowhere else; no other process, and not the parent, reads anything different; the
  reference counts again equal the number of mappings.  It fails only when fewer than two free
  pages per shared page are left, and then the child's address space is empty again and no page
  has leaked.\<close>

theorem uvmcopy_shares:
  assumes "vm_inv tp held s fr" and "is_root tp old" and "is_root tp new" and "old \<noteq> new"
    and "sz \<le> TRAPFRAME"
    and "\<forall>va < PGROUNDUP sz. pte_of (pmem s) old va AND PTE_V \<noteq> 0 \<and> pte_of (pmem s) new va AND PTE_V = 0"
  shows "\<exists>ret s' tp' fr'. uvmcopy old new sz s = Inr (ret, s') \<and> vm_inv tp' held s' fr' \<and>
    (ret = 0 \<and>
       (\<forall>r va. is_root tp r \<longrightarrow> user_byte (pmem s') r va =
          (if r = new \<and> va < PGROUNDUP sz then user_byte (pmem s) old va else user_byte (pmem s) r va)) \<and>
       (\<forall>va < PGROUNDUP sz.
          PTE2PA (pte_of (pmem s') new va) = PTE2PA (pte_of (pmem s) old va) \<and>
          PTE2PA (pte_of (pmem s') old va) = PTE2PA (pte_of (pmem s) old va) \<and>
          pte_of (pmem s') old va AND PTE_W = 0 \<and> pte_of (pmem s') new va AND PTE_W = 0 \<and>
          writable (pte_of (pmem s') old va) = writable (pte_of (pmem s) old va) \<and>
          writable (pte_of (pmem s') new va) = writable (pte_of (pmem s) old va)) \<or>
     ret = -1 \<and> 4096 * length fr \<le> 2 * unat (PGROUNDUP sz) \<and>
       (\<forall>r va. is_root tp r \<longrightarrow> user_byte (pmem s') r va =
          (if r = new \<and> va < PGROUNDUP sz then None else user_byte (pmem s) r va)))"
proof -
  have "page_aligned 0" by (simp add: page_aligned_def)
  from uvmcopy_loop_spec [OF assms(1-4) this assms(5)] assms(6)
  show ?thesis unfolding uvmcopy_def shared_def by fastforce
qed

theorem uvmcopy_shares_witness:
  "\<exists>s'. uvmcopy demo_old demo_new 8192 demo_user = Inr (0, s') \<and> user_byte (pmem s') demo_new 4097 = Some 0"
proof -
  obtain tp fr where d: "vm_inv tp {} demo_user fr" "is_root tp demo_old" "is_root tp demo_new" "demo_old \<noteq> demo_new"
    "16 \<le> length fr" "\<forall>va < 8192. pte_of (pmem demo_user) demo_old va AND PTE_V \<noteq> 0 \<and> user_byte (pmem demo_user) demo_old va = Some 0"
    "\<forall>va < 8192. pte_of (pmem demo_user) demo_new va AND PTE_V = 0" using demo_space by blast
  have up: "PGROUNDUP 8192 = 8192" and small: "(8192 :: uint64) \<le> TRAPFRAME" by (simp_all add: PGROUNDUP_def TRAPFRAME_eq)
  from uvmcopy_shares [OF d(1-4) small] d(5-7) d(3) show ?thesis unfolding up by fastforce
qed

text \<open>C3: \<open>copyout\<close> writes exactly the bytes given, at exactly the addresses given, in the address
  space given, and changes what no other process reads, even when the pages are shared
  copy-on-write: whatever happens, every other byte of every address space is as before.  It stops
  early only at a page that the process may not write, or when the free pages run out.\<close>

theorem copyout_isolated:
  assumes "vm_inv tp held s fr" and "is_root tp r"
  shows "\<exists>ret s' fr' k. copyout r dst src s = Inr (ret, s') \<and> vm_inv tp held s' fr' \<and>
    (ret = 0 \<and> k = length src \<or>
     ret = -1 \<and> k < length src \<and>
       (4096 * length fr \<le> unat dst mod 4096 + k \<or>
        (\<exists>va. unat va = unat dst + k \<and> \<not> (va < MAXVA \<and> writable (pte_of (pmem s) r va))))) \<and>
    (\<forall>r' va. is_root tp r' \<longrightarrow> user_byte (pmem s') r' va =
       (if r' = r \<and> unat dst \<le> unat va \<and> unat va < unat dst + k
        then Some (src ! (unat va - unat dst)) else user_byte (pmem s) r' va))"
  using copyout_spec [OF assms, of dst src] by blast

theorem copyout_isolated_witness:
  "\<exists>s'. copyout demo_old 100 [1, 2, 3] demo_user = Inr (0, s') \<and> user_byte (pmem s') demo_old 101 = Some 2"
proof -
  obtain tp fr where d: "vm_inv tp {} demo_user fr" "is_root tp demo_old" "16 \<le> length fr"
    "\<forall>va < 8192. writable (pte_of (pmem demo_user) demo_old va)"
    using demo_space by blast
  obtain ret s' k where c: "copyout demo_old 100 [1, 2, 3] demo_user = Inr (ret, s')"
    "ret = 0 \<and> k = length [1, 2, 3 :: uint8] \<or> ret = -1 \<and> k < length [1, 2, 3 :: uint8] \<and>
      (4096 * length fr \<le> unat (100 :: uint64) mod 4096 + k \<or>
        (\<exists>va. unat va = unat (100 :: uint64) + k \<and> \<not> (va < MAXVA \<and> writable (pte_of (pmem demo_user) demo_old va))))"
    "\<forall>r' va. is_root tp r' \<longrightarrow> user_byte (pmem s') r' va =
       (if r' = demo_old \<and> unat (100 :: uint64) \<le> unat va \<and> unat va < unat (100 :: uint64) + k
        then Some ([1, 2, 3] ! (unat va - unat (100 :: uint64))) else user_byte (pmem demo_user) r' va)"
    using copyout_isolated [OF d(1,2), of 100 "[1, 2, 3]"] by blast
  have "va < MAXVA \<and> writable (pte_of (pmem demo_user) demo_old va)" if "unat va = unat (100 :: uint64) + k" "k < 3" for va
  proof -
    have "va < 8192" "va < MAXVA" using that by (simp_all add: word_less_nat_alt MAXVA_eq)
    then show ?thesis using d(4) by blast
  qed
  then have "ret = 0" "k = 3" using c(2) d(3) by auto
  moreover have "user_byte (pmem s') demo_old 101 = Some 2"
    using c(3) [rule_format, OF d(2), of 101] \<open>k = 3\<close> by simp
  ultimately show ?thesis using c(1) by blast
qed

text \<open>C7: \<open>copyin\<close> returns 0 exactly with the user's bytes at the addresses asked for; otherwise it
  returns -1 with the bytes up to the first address the process cannot read.  It never faults,
  for any address and length.\<close>

theorem copyin_reads_user:
  assumes "vm_inv tp held s fr" and "is_root tp r"
  shows "\<exists>ret bs. copyin r srcva len s = Inr (ret, bs) \<and> user_reads (pmem s) r srcva bs \<and>
    (ret = 0 \<and> length bs = len \<or>
     ret = -1 \<and> length bs < len \<and> user_byte (pmem s) r (srcva + of_nat (length bs)) = None)"
  by (rule copyin_spec [OF assms])

theorem copyin_reads_user_witness:
  "\<exists>ret bs. copyin demo_old 4000 200 demo_user = Inr (ret, bs) \<and> user_reads (pmem demo_user) demo_old 4000 bs"
proof -
  obtain tp fr where "vm_inv tp {} demo_user fr" "is_root tp demo_old" using demo_space by blast
  then show ?thesis using copyin_reads_user [of tp "{}" demo_user fr demo_old 4000 200] by blast
qed

text \<open>C8: \<open>copyinstr\<close> either returns a string that is the user's memory up to and including its
  first NUL, within the limit, or -1; when it returns -1 there was no NUL in the limit or before
  the first unreadable byte.\<close>

theorem copyinstr_terminated:
  assumes "vm_inv tp held s fr" and "is_root tp r"
  shows "\<exists>ret bs. copyinstr r srcva mx s = Inr (ret, bs) \<and> user_reads (pmem s) r srcva bs \<and> length bs \<le> mx \<and>
    (ret = 0 \<and> (\<exists>cs. bs = cs @ [0] \<and> 0 \<notin> set cs) \<or>
     ret = -1 \<and> 0 \<notin> set bs \<and>
       (length bs = mx \<or> user_byte (pmem s) r (srcva + of_nat (length bs)) = None))"
  by (rule copyinstr_spec [OF assms])

theorem copyinstr_terminated_witness:
  "\<exists>ret bs. copyinstr demo_old 8 16 demo_user = Inr (ret, bs) \<and> length bs \<le> 16"
proof -
  obtain tp fr where "vm_inv tp {} demo_user fr" "is_root tp demo_old" using demo_space by blast
  then show ?thesis using copyinstr_terminated [of tp "{}" demo_user fr demo_old 8 16] by blast
qed





end
