(* ===== verification/PipeProps.thy ===== *)
theory PipeProps
  imports Pipe Ring Frame VmProps BioInv
begin

text \<open>
  Pipes as queues: the ring buffer of a pipe, of the UART and of the console are instances of the ring
  contract; \<open>pipewrite\<close> and \<open>piperead\<close> move bytes between user memory and a first-in-first-out queue; and
  no reader or writer sleeps while it could go on.
\<close>

section \<open>The three rings\<close>

interpretation pq: ring_buffer PIPESIZE pipe_data nread nwrite pipe_put pipe_get
  by unfold_locales (auto simp: PIPESIZE_def pipe_put_def pipe_get_def intro: dvdI [of _ _ 8388608])

interpretation uq: ring_buffer UART_TX_BUF_SIZE uart_tx_buf uart_tx_r uart_tx_w
  "\<lambda>c u. u\<lparr>uart_tx_buf := (uart_tx_buf u)[unat (uart_tx_w u) mod UART_TX_BUF_SIZE := c], uart_tx_w := uart_tx_w u + 1\<rparr>"
  "\<lambda>u. (uart_tx_buf u ! (unat (uart_tx_r u) mod UART_TX_BUF_SIZE), u\<lparr>uart_tx_r := uart_tx_r u + 1\<rparr>)"
  by unfold_locales (auto simp: UART_TX_BUF_SIZE_def intro: dvdI [of _ _ 576460752303423488])

interpretation cq: ring_buffer INPUT_BUF_SIZE cons_buf cons_r cons_e
  "\<lambda>c co. co\<lparr>cons_buf := (cons_buf co)[unat (cons_e co) mod INPUT_BUF_SIZE := c], cons_e := cons_e co + 1\<rparr>"
  "\<lambda>co. (cons_buf co ! (unat (cons_r co) mod INPUT_BUF_SIZE), co\<lparr>cons_r := cons_r co + 1\<rparr>)"
  by unfold_locales (auto simp: INPUT_BUF_SIZE_def intro: dvdI [of _ _ 33554432])

section \<open>The pipe as a queue\<close>

definition pipe_list :: "pipe \<Rightarrow> bytes" where
  "pipe_list pi = ring_list (pipe_data pi) (nread pi) (nwrite pi)"

definition pipe_ok :: "pipe \<Rightarrow> bool" where
  "pipe_ok pi \<longleftrightarrow> length (pipe_data pi) = PIPESIZE \<and> length (pipe_list pi) \<le> PIPESIZE"

lemma pipe_full_iff: "pipe_ok pi \<Longrightarrow> pipe_full pi \<longleftrightarrow> length (pipe_list pi) = PIPESIZE"
  using pq.count_full [of pi] by (simp add: pipe_ok_def pipe_list_def pipe_full_def)

lemma pipe_empty_iff: "pipe_empty pi \<longleftrightarrow> pipe_list pi = []"
  by (simp add: pipe_empty_def pipe_list_def)

lemma pipe_put_flags [simp]: "readopen (pipe_put c pi) = readopen pi" "writeopen (pipe_put c pi) = writeopen pi"
  by (simp_all add: pipe_put_def)

lemma pipe_put_ok:
  assumes "pipe_ok pi" and "\<not> pipe_full pi"
  shows "pipe_ok (pipe_put c pi)" and "pipe_list (pipe_put c pi) = pipe_list pi @ [c]"
proof -
  have len: "length (pipe_data pi) = PIPESIZE" and room: "unat (nwrite pi - nread pi) < PIPESIZE"
    using assms pipe_full_iff [OF assms(1)] by (auto simp: pipe_ok_def pipe_list_def)
  show l: "pipe_list (pipe_put c pi) = pipe_list pi @ [c]"
    unfolding pipe_list_def by (rule pq.put_appends [OF len room])
  show "pipe_ok (pipe_put c pi)" using len room unfolding pipe_ok_def l
    by (simp add: pq.put_law) (simp add: pipe_list_def)
qed

lemma pipe_get_ok:
  assumes "pipe_ok pi" and "\<not> pipe_empty pi" and "pipe_get pi = (c, pi')"
  shows "pipe_ok pi'" and "pipe_list pi = c # pipe_list pi'"
    and "readopen pi' = readopen pi" and "writeopen pi' = writeopen pi"
proof -
  have g: "c = fst (pipe_get pi)" "pi' = snd (pipe_get pi)" using assms(3) by auto
  show l: "pipe_list pi = c # pipe_list pi'"
    using pq.get_head [of pi] assms(1,2) g by (simp add: pipe_ok_def pipe_list_def pipe_empty_def)
  show "pipe_ok pi'" using assms(1) l g by (simp add: pipe_ok_def pq.get_law)
  show "readopen pi' = readopen pi" "writeopen pi' = writeopen pi" using g by (simp_all add: pipe_get_def)
qed

section \<open>One byte of user memory\<close>

lemma copyin_byte:
  assumes "vm_inv tp held s fr" and "is_root tp r" and "user_byte (pmem s) r va = Some b"
  shows "copyin r va 1 s = Inr (0, [b])"
proof -
  obtain ret bs where c: "copyin r va 1 s = Inr (ret, bs)" "user_reads (pmem s) r va bs"
    "ret = 0 \<and> length bs = 1 \<or> ret = -1 \<and> length bs < 1 \<and> user_byte (pmem s) r (va + of_nat (length bs)) = None"
    using copyin_spec [OF assms(1,2), of va 1] by blast
  then have "ret = 0" "length bs = 1" using assms(3) by auto
  then obtain x where "bs = [x]" by (cases bs) auto
  then show ?thesis using c \<open>ret = 0\<close> assms(3) by (auto simp: user_reads_def)
qed

lemma copyout_byte:
  assumes "vm_inv tp held s fr" and "is_root tp r"
  shows "\<exists>ret s' fr'. copyout r va [c] s = Inr (ret, s') \<and> vm_inv tp held s' fr' \<and> kmem.more s' = kmem.more s \<and>
    (ret = 0 \<and> (\<forall>r' x. is_root tp r' \<longrightarrow> user_byte (pmem s') r' x =
        (if r' = r \<and> x = va then Some c else user_byte (pmem s) r' x)) \<or>
     ret = -1 \<and> (\<forall>r' x. is_root tp r' \<longrightarrow> user_byte (pmem s') r' x = user_byte (pmem s) r' x))"
proof -
  have one: "unat va \<le> unat x \<and> unat x < unat va + 1 \<longleftrightarrow> x = va" for x :: uint64
    by (auto simp: word_unat_eq_iff)
  obtain ret s' fr' k where c: "copyout r va [c] s = Inr (ret, s')" "vm_inv tp held s' fr'"
    "ret = 0 \<and> k = 1 \<or> ret = -1 \<and> k = 0" "kmem.more s' = kmem.more s"
    "\<And>r' x. is_root tp r' \<Longrightarrow> user_byte (pmem s') r' x =
       (if r' = r \<and> unat va \<le> unat x \<and> unat x < unat va + k
        then Some ([c] ! (unat x - unat va)) else user_byte (pmem s) r' x)"
    using copyout_spec [OF assms, of va "[c]"] by fastforce
  show ?thesis
  proof (intro exI conjI)
    show "copyout r va [c] s = Inr (ret, s')" "vm_inv tp held s' fr'" "kmem.more s' = kmem.more s" by (fact c)+
    show "ret = 0 \<and> (\<forall>r' x. is_root tp r' \<longrightarrow> user_byte (pmem s') r' x =
        (if r' = r \<and> x = va then Some c else user_byte (pmem s) r' x)) \<or>
     ret = -1 \<and> (\<forall>r' x. is_root tp r' \<longrightarrow> user_byte (pmem s') r' x = user_byte (pmem s) r' x)"
      using c(3)
    proof
      assume k: "ret = 0 \<and> k = 1"
      then have "user_byte (pmem s') r' x = (if r' = r \<and> x = va then Some c else user_byte (pmem s) r' x)"
        if "is_root tp r'" for r' x
        using c(5) [OF that, of x] one [of x] by auto
      then show ?thesis using k by blast
    next
      assume k: "ret = -1 \<and> k = 0"
      then have "user_byte (pmem s') r' x = user_byte (pmem s) r' x" if "is_root tp r'" for r' x
        using c(5) [OF that, of x] by auto
      then show ?thesis using k by blast
    qed
  qed
qed

section \<open>Writing\<close>

lemma procs_wakeup_pmem [simp]: "pmem (wakeup me cn s) = pmem s" "kmem.more (s\<lparr>pmem := m\<rparr>) = kmem.more s"
  by (simp_all add: wakeup_def)

text \<open>
  Whatever the arguments, a write appends some bytes and returns; it gives up with -1 before its first
  byte, or it ends after waking the readers, or it sleeps on a full pipe after waking them.
\<close>

lemma pipewrite_loop_cases:
  assumes "pipe_ok pi"
  shows "\<exists>r pi' s' bs. pipewrite_loop me a addr i k pi s = Inr (r, pi', s') \<and> pipe_ok pi' \<and>
    pipe_list pi' = pipe_list pi @ bs \<and> readopen pi' = readopen pi \<and> writeopen pi' = writeopen pi \<and>
    (r = Done (-1) \<and> pi' = pi \<and> s' = s \<and> (\<not> readopen pi \<or> killed me s \<noteq> 0) \<or>
     r = Done (int (i + length bs)) \<and> s' = wakeup (Some me) (Chan_pipe_read a) s \<or>
     r = Sleeping (int (i + length bs)) \<and> pipe_full pi' \<and> readopen pi \<and> killed me s = 0 \<and>
       s' = sleep me (Chan_pipe_write a) (wakeup (Some me) (Chan_pipe_read a) s))"
  using assms
proof (induction k arbitrary: i pi)
  case 0
  then show ?case by (auto intro!: exI [of _ "[]"])
next
  case (Suc k)
  show ?case
  proof (cases "\<not> readopen pi \<or> killed me s \<noteq> 0 \<or> pipe_full pi")
    case True
    then show ?thesis using Suc.prems by (auto intro!: exI [of _ "[]"])
  next
    case False
    obtain r cs where c: "copyin (p_pagetable (procs s ! me)) (addr + of_nat i) 1 s = Inr (r, cs)"
      using copyin_total by blast
    show ?thesis
    proof (cases "r = -1")
      case True
      then show ?thesis using c False Suc.prems by (auto intro!: exI [of _ "[]"])
    next
      case r: False
      have put: "pipe_ok (pipe_put (hd cs) pi)" "pipe_list (pipe_put (hd cs) pi) = pipe_list pi @ [hd cs]"
        using pipe_put_ok Suc.prems False by auto
      obtain r' pi' s' bs where ih: "pipewrite_loop me a addr (Suc i) k (pipe_put (hd cs) pi) s = Inr (r', pi', s')"
        "pipe_ok pi'" "pipe_list pi' = pipe_list pi @ [hd cs] @ bs" "readopen pi' = readopen pi" "writeopen pi' = writeopen pi"
        "r' = Done (int (Suc i + length bs)) \<and> s' = wakeup (Some me) (Chan_pipe_read a) s \<or>
         r' = Sleeping (int (Suc i + length bs)) \<and> pipe_full pi' \<and> readopen pi \<and> killed me s = 0 \<and>
           s' = sleep me (Chan_pipe_write a) (wakeup (Some me) (Chan_pipe_read a) s)"
        using Suc.IH [OF put(1), of "Suc i"] put(2) False by auto
      have "pipewrite_loop me a addr i (Suc k) pi s = Inr (r', pi', s')"
        using ih(1) c r False by simp
      moreover have "length ([hd cs] @ bs) = Suc (length bs)" by simp
      ultimately show ?thesis using ih(2-6)
        by (intro exI [of _ r'] exI [of _ pi'] exI [of _ s'] exI [of _ "[hd cs] @ bs"]) auto
    qed
  qed
qed

text \<open>With the bytes in user memory and a reader, a write fills the queue from the front of the data.\<close>

lemma pipewrite_loop_queue:
  assumes "vm_inv tp held s fr" and "is_root tp (p_pagetable (procs s ! me))"
    and "killed me s = 0" and "pipe_ok pi" and "readopen pi"
    and "\<forall>j < length bs. user_byte (pmem s) (p_pagetable (procs s ! me)) (addr + of_nat (i + j)) = Some (bs ! j)"
  shows "\<exists>pi'. pipewrite_loop me a addr i (length bs) pi s =
      Inr (if length bs \<le> PIPESIZE - length (pipe_list pi)
           then (Done (int (i + length bs)), pi', wakeup (Some me) (Chan_pipe_read a) s)
           else (Sleeping (int (i + (PIPESIZE - length (pipe_list pi)))), pi',
                 sleep me (Chan_pipe_write a) (wakeup (Some me) (Chan_pipe_read a) s))) \<and>
    pipe_ok pi' \<and> pipe_list pi' = pipe_list pi @ take (PIPESIZE - length (pipe_list pi)) bs"
  using assms(4-6)
proof (induction bs arbitrary: i pi)
  case Nil
  then show ?case by auto
next
  case (Cons b bs)
  show ?case
  proof (cases "pipe_full pi")
    case True
    then have "length (pipe_list pi) = PIPESIZE" using pipe_full_iff Cons.prems(1) by blast
    then show ?thesis using True Cons.prems assms(3) by auto
  next
    case False
    then have room: "length (pipe_list pi) < PIPESIZE"
      using pipe_full_iff [OF Cons.prems(1)] Cons.prems(1) by (auto simp: pipe_ok_def)
    have put: "pipe_ok (pipe_put b pi)" "pipe_list (pipe_put b pi) = pipe_list pi @ [b]"
      using pipe_put_ok Cons.prems False by auto
    have "user_byte (pmem s) (p_pagetable (procs s ! me)) (addr + of_nat i) = Some b"
      using Cons.prems(3) [rule_format, of 0] by simp
    then have c: "copyin (p_pagetable (procs s ! me)) (addr + of_nat i) 1 s = Inr (0, [b])"
      using copyin_byte assms(1,2) by blast
    have bytes: "\<forall>j < length bs. user_byte (pmem s) (p_pagetable (procs s ! me)) (addr + of_nat (Suc i + j)) = Some (bs ! j)"
    proof (intro allI impI)
      fix j assume "j < length bs"
      then show "user_byte (pmem s) (p_pagetable (procs s ! me)) (addr + of_nat (Suc i + j)) = Some (bs ! j)"
        using Cons.prems(3) [rule_format, of "Suc j"] by (simp add: add.commute add.left_commute)
    qed
    have n: "PIPESIZE - length (pipe_list pi) = Suc (PIPESIZE - length (pipe_list (pipe_put b pi)))"
      using room put(2) by simp
    obtain pi' where "pipewrite_loop me a addr (Suc i) (length bs) (pipe_put b pi) s =
      Inr (if length bs \<le> PIPESIZE - length (pipe_list (pipe_put b pi))
           then (Done (int (Suc i + length bs)), pi', wakeup (Some me) (Chan_pipe_read a) s)
           else (Sleeping (int (Suc i + (PIPESIZE - length (pipe_list (pipe_put b pi))))), pi',
                 sleep me (Chan_pipe_write a) (wakeup (Some me) (Chan_pipe_read a) s)))"
      "pipe_ok pi'" "pipe_list pi' = pipe_list (pipe_put b pi) @ take (PIPESIZE - length (pipe_list (pipe_put b pi))) bs"
      using Cons.IH [OF put(1) _ bytes] Cons.prems(2) by auto
    then show ?thesis using c False Cons.prems(2) assms(3) put(2) n
      by (intro exI [of _ pi']) auto
  qed
qed

section \<open>Reading\<close>

text \<open>
  A read delivers the front of the queue in user memory, byte for byte.  When user memory refuses a
  byte, the read stops there; that byte is no longer in the pipe.
\<close>

lemma piperead_loop_queue:
  assumes "vm_inv tp held s fr" and "is_root tp (p_pagetable (procs s ! me))" and "pipe_ok pi" and "i + k < 2 ^ 64"
  shows "\<exists>pi' s' fr' j. piperead_loop me addr i k pi s = Inr (int (i + j), pi', s') \<and> vm_inv tp held s' fr' \<and>
    pipe_ok pi' \<and> kmem.more s' = kmem.more s \<and> readopen pi' = readopen pi \<and> writeopen pi' = writeopen pi \<and>
    (j = min k (length (pipe_list pi)) \<and> pipe_list pi' = drop j (pipe_list pi) \<or>
     j < min k (length (pipe_list pi)) \<and> pipe_list pi' = drop (Suc j) (pipe_list pi)) \<and>
    (\<forall>r va. is_root tp r \<longrightarrow> user_byte (pmem s') r va =
       (if r = p_pagetable (procs s ! me) \<and> i \<le> unat (va - addr) \<and> unat (va - addr) < i + j
        then Some (pipe_list pi ! (unat (va - addr) - i)) else user_byte (pmem s) r va))"
  using assms
proof (induction k arbitrary: i pi s fr)
  case 0
  then show ?case by (intro exI [of _ pi] exI [of _ s] exI [of _ fr] exI [of _ 0]) auto
next
  case (Suc k)
  let ?r = "p_pagetable (procs s ! me)"
  show ?case
  proof (cases "pipe_empty pi")
    case True
    then show ?thesis using Suc.prems
      by (intro exI [of _ pi] exI [of _ s] exI [of _ fr] exI [of _ 0]) (auto simp: pipe_empty_iff)
  next
    case False
    obtain c pi1 where g: "pipe_get pi = (c, pi1)" by (cases "pipe_get pi")
    note get = pipe_get_ok [OF Suc.prems(3) False g]
    obtain ret s1 fr1 where o: "copyout ?r (addr + of_nat i) [c] s = Inr (ret, s1)" "vm_inv tp held s1 fr1"
      "kmem.more s1 = kmem.more s"
      "ret = 0 \<and> (\<forall>r x. is_root tp r \<longrightarrow> user_byte (pmem s1) r x =
        (if r = ?r \<and> x = addr + of_nat i then Some c else user_byte (pmem s) r x)) \<or>
       ret = -1 \<and> (\<forall>r x. is_root tp r \<longrightarrow> user_byte (pmem s1) r x = user_byte (pmem s) r x)"
      using copyout_byte [OF Suc.prems(1,2)] by blast
    have p1: "procs s1 = procs s" using o(3) by (rule more_procs)
    show ?thesis
      using o(4)
    proof
      assume ret: "ret = -1 \<and> (\<forall>r x. is_root tp r \<longrightarrow> user_byte (pmem s1) r x = user_byte (pmem s) r x)"
      then have "piperead_loop me addr i (Suc k) pi s = Inr (int (i + 0), pi1, s1)" using o(1) g False by simp
      then show ?thesis using o(2,3) get ret
        by (intro exI [of _ pi1] exI [of _ s1] exI [of _ fr1] exI [of _ 0]) auto
    next
      assume ret: "ret = 0 \<and> (\<forall>r x. is_root tp r \<longrightarrow> user_byte (pmem s1) r x =
        (if r = ?r \<and> x = addr + of_nat i then Some c else user_byte (pmem s) r x))"
      have i: "Suc i + k < 2 ^ 64" and i64: "i < 2 ^ 64" using Suc.prems(4) by simp_all
      obtain pi' s' fr' j where ih: "piperead_loop me addr (Suc i) k pi1 s1 = Inr (int (Suc i + j), pi', s')"
        "vm_inv tp held s' fr'" "pipe_ok pi'" "kmem.more s' = kmem.more s1" "readopen pi' = readopen pi1" "writeopen pi' = writeopen pi1"
        "j = min k (length (pipe_list pi1)) \<and> pipe_list pi' = drop j (pipe_list pi1) \<or>
         j < min k (length (pipe_list pi1)) \<and> pipe_list pi' = drop (Suc j) (pipe_list pi1)"
        "\<And>r va. is_root tp r \<Longrightarrow> user_byte (pmem s') r va =
           (if r = ?r \<and> Suc i \<le> unat (va - addr) \<and> unat (va - addr) < Suc i + j
            then Some (pipe_list pi1 ! (unat (va - addr) - Suc i)) else user_byte (pmem s1) r va)"
        using Suc.IH [OF o(2) _ get(1) i] Suc.prems(2) p1 by auto
      have "piperead_loop me addr i (Suc k) pi s = Inr (int (i + Suc j), pi', s')"
        using o(1) g False ret ih(1) by simp
      moreover have "user_byte (pmem s') r va =
         (if r = ?r \<and> i \<le> unat (va - addr) \<and> unat (va - addr) < i + Suc j
          then Some (pipe_list pi ! (unat (va - addr) - i)) else user_byte (pmem s) r va)"
        if "is_root tp r" for r va
      proof -
        have at: "va = addr + of_nat i \<longleftrightarrow> unat (va - addr) = i" using offset_unique [OF i64] by simp
        show ?thesis
          using ih(8) [OF that, of va] ret that get(2) at
          by (cases "unat (va - addr) = i") (auto simp: nth_Cons' Suc_le_eq)
      qed
      moreover have "Suc j = min (Suc k) (length (pipe_list pi)) \<and> pipe_list pi' = drop (Suc j) (pipe_list pi) \<or>
         Suc j < min (Suc k) (length (pipe_list pi)) \<and> pipe_list pi' = drop (Suc (Suc j)) (pipe_list pi)"
        using ih(7) get(2) by auto
      ultimately show ?thesis using ih(2-6) o(3) get(3,4)
        by (intro exI [of _ pi'] exI [of _ s'] exI [of _ fr'] exI [of _ "Suc j"]) auto
    qed
  qed
qed

section \<open>Who sleeps on a pipe\<close>

text \<open>
  The steps that concern the pipe at \<open>a\<close>: a running process writes (from the start or after a sleep),
  reads, or closes an end; anything else neither touches the pipe nor puts a process to sleep on it.
\<close>

inductive pipe_step :: "uint64 \<Rightarrow> pipe \<times> 'a pstate_scheme \<Rightarrow> pipe \<times> 'a pstate_scheme \<Rightarrow> bool" for a where
  wr: "me < length (procs s) \<Longrightarrow> p_state (procs s ! me) = RUNNING \<Longrightarrow>
    pipewrite_loop me a addr i k pi s = Inr (r, pi', s') \<Longrightarrow> pipe_step a (pi, s) (pi', s')"
| rd: "me < length (procs s) \<Longrightarrow> p_state (procs s ! me) = RUNNING \<Longrightarrow>
    piperead me a addr n pi s = Inr (r, pi', s') \<Longrightarrow> pipe_step a (pi, s) (pi', s')"
| shut_wr: "p_state (procs s ! me) = RUNNING \<Longrightarrow>
    pipe_step a (pi, s) (pi\<lparr>writeopen := False\<rparr>, wakeup (Some me) (Chan_pipe_read a) s)"
| shut_rd: "p_state (procs s ! me) = RUNNING \<Longrightarrow>
    pipe_step a (pi, s) (pi\<lparr>readopen := False\<rparr>, wakeup (Some me) (Chan_pipe_write a) s)"
| other: "length (procs s') = length (procs s) \<Longrightarrow>
    (\<And>p c. p < length (procs s) \<Longrightarrow> c \<in> {Chan_pipe_read a, Chan_pipe_write a} \<Longrightarrow>
      p_state (procs s' ! p) = SLEEPING \<Longrightarrow> p_chan (procs s' ! p) = Some c \<Longrightarrow>
      p_state (procs s ! p) = SLEEPING \<and> p_chan (procs s ! p) = Some c) \<Longrightarrow>
    pipe_step a (pi, s) (pi, s')"

definition asleep_on :: "chan \<Rightarrow> 'a pstate_scheme \<Rightarrow> bool" where
  "asleep_on c s \<longleftrightarrow> (\<exists>p \<in> set (procs s). p_state p = SLEEPING \<and> p_chan p = Some c)"

definition sleepers_ok :: "uint64 \<Rightarrow> pipe \<Rightarrow> 'a pstate_scheme \<Rightarrow> bool" where
  "sleepers_ok a pi s \<longleftrightarrow> pipe_ok pi \<and>
     (asleep_on (Chan_pipe_read a) s \<longrightarrow> pipe_empty pi \<and> writeopen pi) \<and>
     (asleep_on (Chan_pipe_write a) s \<longrightarrow> pipe_full pi \<and> readopen pi)"

lemma asleep_on_nth:
  "asleep_on c s \<longleftrightarrow> (\<exists>i < length (procs s). p_state (procs s ! i) = SLEEPING \<and> p_chan (procs s ! i) = Some c)"
  unfolding asleep_on_def by (metis in_set_conv_nth)

lemma asleep_on_cong: "procs s' = procs s \<Longrightarrow> asleep_on c s' \<longleftrightarrow> asleep_on c s"
  by (simp add: asleep_on_def)

lemma asleep_on_wakeup:
  assumes "p_state (procs s ! me) = RUNNING"
  shows "asleep_on c (wakeup (Some me) d s) \<longleftrightarrow> c \<noteq> d \<and> asleep_on c s"
  using assms by (auto simp: asleep_on_nth wakeup_nth split: if_splits)

lemma asleep_on_sleep: "asleep_on c (sleep me d s) \<Longrightarrow> c = d \<or> asleep_on c s"
  unfolding asleep_on_nth sleep_def length_upd_proc
  by (metis upd_proc_other upd_proc_same option.inject proc.select_convs(2) proc.surjective proc.update_convs(1,2))

lemma pipe_flag_simps [simp]:
  "pipe_ok (pi\<lparr>writeopen := b\<rparr>) = pipe_ok pi" "pipe_ok (pi\<lparr>readopen := b\<rparr>) = pipe_ok pi"
  "pipe_full (pi\<lparr>writeopen := b\<rparr>) = pipe_full pi" "pipe_full (pi\<lparr>readopen := b\<rparr>) = pipe_full pi"
  "pipe_empty (pi\<lparr>writeopen := b\<rparr>) = pipe_empty pi" "pipe_empty (pi\<lparr>readopen := b\<rparr>) = pipe_empty pi"
  by (simp_all add: pipe_ok_def pipe_list_def pipe_full_def pipe_empty_def)

lemma sleepers_ok_shut:
  assumes "sleepers_ok a pi s" and "p_state (procs s ! me) = RUNNING"
  shows "sleepers_ok a (pi\<lparr>writeopen := False\<rparr>) (wakeup (Some me) (Chan_pipe_read a) s)"
    and "sleepers_ok a (pi\<lparr>readopen := False\<rparr>) (wakeup (Some me) (Chan_pipe_write a) s)"
  using assms(1) by (simp_all add: sleepers_ok_def asleep_on_wakeup [OF assms(2)])

lemma sleepers_ok_step: "pipe_step a (pi, s) (pi', s') \<Longrightarrow> sleepers_ok a pi s \<Longrightarrow> sleepers_ok a pi' s'"
proof (induction "(pi, s)" "(pi', s')" rule: pipe_step.induct)
  case (wr me addr i k r)
  have ok: "pipe_ok pi" using wr by (simp add: sleepers_ok_def)
  obtain bs where b: "pipe_ok pi'" "pipe_list pi' = pipe_list pi @ bs" "readopen pi' = readopen pi" "writeopen pi' = writeopen pi"
    and c: "pi' = pi \<and> s' = s \<or> s' = wakeup (Some me) (Chan_pipe_read a) s \<or>
      pipe_full pi' \<and> readopen pi \<and> s' = sleep me (Chan_pipe_write a) (wakeup (Some me) (Chan_pipe_read a) s)"
    using pipewrite_loop_cases [OF ok, of me a addr i k s] wr(3) by auto
  have full: "pipe_full pi \<Longrightarrow> pipe_full pi'"
    using pipe_full_iff [OF ok] pipe_full_iff [OF b(1)] b(1,2) by (auto simp: pipe_ok_def)
  have w: "asleep_on c (wakeup (Some me) (Chan_pipe_read a) s) \<longleftrightarrow> c \<noteq> Chan_pipe_read a \<and> asleep_on c s" for c
    using asleep_on_wakeup wr(2) by blast
  show ?case using c
  proof (elim disjE conjE)
    assume "s' = wakeup (Some me) (Chan_pipe_read a) s"
    then show ?thesis using wr(4) w full b by (auto simp: sleepers_ok_def)
  next
    assume "pipe_full pi'" "readopen pi" "s' = sleep me (Chan_pipe_write a) (wakeup (Some me) (Chan_pipe_read a) s)"
    then show ?thesis using w b by (auto simp: sleepers_ok_def dest!: asleep_on_sleep)
  qed (use wr(4) in simp)
next
  case (rd me addr n r)
  show ?case
  proof (cases "pipe_empty pi \<and> writeopen pi")
    case True
    then show ?thesis using rd by (auto simp: piperead_def sleepers_ok_def split: if_splits dest!: asleep_on_sleep)
  next
    case False
    then obtain i s1 where l: "piperead_loop me addr 0 (nat n) pi s = Inr (i, pi', s1)"
      and s': "s' = wakeup (Some me) (Chan_pipe_write a) s1"
      using rd(3) by (auto simp: piperead_def)
    have l': "pipe_ok pi' \<and> procs s1 = procs s \<and> readopen pi' = readopen pi \<and> writeopen pi' = writeopen pi"
      if "piperead_loop me addr j m pi s = Inr (i, pi', s1)" "pipe_ok pi" for j m pi s
      using that
    proof (induction m arbitrary: j pi s)
      case (Suc m)
      obtain c pi1 where g: "pipe_get pi = (c, pi1)" by (cases "pipe_get pi")
      show ?case
      proof (cases "pipe_empty pi")
        case False
        note get = pipe_get_ok [OF Suc.prems(2) False g]
        obtain ret s2 where o: "copyout (p_pagetable (procs s ! me)) (addr + of_nat j) [c] s = Inr (ret, s2)"
          using Suc.prems(1) g False by auto
        have p: "procs s2 = procs s" using more_procs [OF copyout_more [OF o]] .
        show ?thesis using Suc.prems(1) g False o p get Suc.IH [of "Suc j" pi1 s2] by (auto split: if_splits)
      qed (use Suc in simp)
    qed simp
    note l' = l' [OF l]
    have ok: "pipe_ok pi" "\<not> asleep_on (Chan_pipe_read a) s" using rd(4) False by (auto simp: sleepers_ok_def)
    then have p: "procs s1 = procs s" "pipe_ok pi'" using l' by auto
    have "asleep_on c s' \<longleftrightarrow> c \<noteq> Chan_pipe_write a \<and> asleep_on c s" for c
      using asleep_on_wakeup [of s1 me] rd(2) p asleep_on_cong [OF p(1)] s' by auto
    then show ?thesis using ok p by (auto simp: sleepers_ok_def)
  qed
next
  case (shut_wr me)
  show ?case using sleepers_ok_shut(1) [OF shut_wr(4,1)] unfolding shut_wr(2,3) .
next
  case (shut_rd me)
  show ?case using sleepers_ok_shut(2) [OF shut_rd(4,1)] unfolding shut_rd(2,3) .
next
  case other
  have "asleep_on c s' \<Longrightarrow> asleep_on c s" if "c \<in> {Chan_pipe_read a, Chan_pipe_write a}" for c
    using other(1,2) that unfolding asleep_on_nth by metis
  then have "asleep_on (Chan_pipe_read a) s' \<Longrightarrow> asleep_on (Chan_pipe_read a) s"
    "asleep_on (Chan_pipe_write a) s' \<Longrightarrow> asleep_on (Chan_pipe_write a) s" by blast+
  then show ?case using other(4) unfolding sleepers_ok_def other(3) [symmetric] by blast
qed

lemma sleepers_ok_reachable:
  assumes "(pipe_step a)\<^sup>*\<^sup>* x y" and "sleepers_ok a (fst x) (snd x)"
  shows "sleepers_ok a (fst y) (snd y)"
  using assms by (induction rule: rtranclp_induct) (auto dest: sleepers_ok_step [of a])

section \<open>A small machine with processes\<close>

text \<open>Two running processes share the first address space of the small machine of the memory properties.\<close>

lemma vm_inv_ext:
  fixes s :: "'a kmem_scheme" and s' :: "'b kmem_scheme"
  assumes "pmem s' = pmem s" and "freelist s' = freelist s" and "page_refcnt s' = page_refcnt s"
    and "kern_end s' = kern_end s" and "vm_inv tp held s fr"
  shows "vm_inv tp held s' fr"
proof -
  have rp: "ram_page s' = ram_page s" using assms(4) by (intro ext) (simp add: ram_page_def)
  have "kmem_inv s' fr \<longleftrightarrow> kmem_inv s fr" unfolding kmem_inv_def rp assms(1-4) ..
  then have pt: "pt_inv tp s' fr \<longleftrightarrow> pt_inv tp s fr" unfolding pt_inv_def rp assms(1-4) by blast
  have leaf: "leaf_ok tp held s' = leaf_ok tp held s" by (intro ext) (simp only: leaf_ok_def rp assms(1-4))
  show ?thesis using assms(5) unfolding vm_inv_def pt rp leaf assms(1-4) .
qed

definition demo_proc :: proc where
  "demo_proc = zero_proc\<lparr>p_state := RUNNING, p_pagetable := demo_old\<rparr>"

definition demo_pstate :: pstate where
  "demo_pstate = \<lparr>pmem = pmem demo_user, freelist = freelist demo_user, page_refcnt = page_refcnt demo_user,
     kern_end = kern_end demo_user, procs = [demo_proc, demo_proc], nextpid = 3, initproc = None, ticks = 0\<rparr>"

definition demo_pipe :: "bytes \<Rightarrow> pipe" where
  "demo_pipe xs = \<lparr>pipe_data = xs @ replicate (PIPESIZE - length xs) 0, nread = 0, nwrite = of_nat (length xs),
     readopen = True, writeopen = True\<rparr>"

lemma demo_pstate_vm:
  obtains tp fr where "vm_inv tp {} demo_pstate fr" "is_root tp (p_pagetable (procs demo_pstate ! 0))"
    "\<And>va. va < 8192 \<Longrightarrow> user_byte (pmem demo_pstate) (p_pagetable (procs demo_pstate ! 0)) va = Some 0"
    "killed 0 demo_pstate = 0"
proof -
  obtain tp fr where d: "vm_inv tp {} demo_user fr" "is_root tp demo_old"
    "\<forall>va < 8192. user_byte (pmem demo_user) demo_old va = Some 0" using demo_space by blast
  have "vm_inv tp {} demo_pstate fr"
    by (rule vm_inv_ext [OF _ _ _ _ d(1)]) (simp_all add: demo_pstate_def)
  then show ?thesis
    by (rule that) (use d in \<open>simp_all add: demo_pstate_def demo_proc_def zero_proc_def killed_def\<close>)
qed

lemma demo_pipe_list: "pipe_list (demo_pipe []) = []" "pipe_list (demo_pipe [7, 8, 9]) = [7, 8, 9]"
  and demo_pipe_ok: "pipe_ok (demo_pipe [])" "pipe_ok (demo_pipe [7, 8, 9])"
  by (simp_all add: pipe_ok_def pipe_list_def ring_list_def demo_pipe_def PIPESIZE_def upt_rec)

section \<open>Properties\<close>

text \<open>C22: A pipe is a bounded first-in-first-out queue of \<open>PIPESIZE\<close> bytes, and \<open>pipewrite\<close> is its append.
  With the bytes in the memory of the writer and the read end open, a write that fits puts all of them
  behind what the pipe holds, in order, and returns their number; one that does not fit fills the pipe
  to the brim and sleeps having sent exactly that many.  This also holds when the 32-bit counters
  wrap.\<close>

theorem pipe_write_refines_queue:
  assumes "vm_inv tp held s fr" and "is_root tp (p_pagetable (procs s ! me))"
    and "killed me s = 0" and "pipe_ok pi" and "readopen pi"
    and "user_reads (pmem s) (p_pagetable (procs s ! me)) addr bs"
  shows "\<exists>pi' s'. pipewrite me a addr (int (length bs)) pi s =
      Inr (if length (pipe_list pi) + length bs \<le> PIPESIZE then Done (int (length bs))
           else Sleeping (int (PIPESIZE - length (pipe_list pi))), pi', s') \<and>
    pipe_ok pi' \<and> pipe_list pi' = take PIPESIZE (pipe_list pi @ bs)"
proof -
  have len: "length (pipe_list pi) \<le> PIPESIZE" using assms(4) by (simp add: pipe_ok_def)
  have fit: "length bs \<le> PIPESIZE - length (pipe_list pi) \<longleftrightarrow> length (pipe_list pi) + length bs \<le> PIPESIZE"
    using len by linarith
  have "\<forall>j < length bs. user_byte (pmem s) (p_pagetable (procs s ! me)) (addr + of_nat (0 + j)) = Some (bs ! j)"
    using assms(6) by (simp add: user_reads_def)
  from pipewrite_loop_queue [OF assms(1-5) this, of a] show ?thesis
    using len by (auto simp: pipewrite_def fit)
qed

theorem pipe_write_refines_queue_witness:
  "\<exists>pi' s'. pipewrite 0 64 100 3 (demo_pipe [7, 8, 9]) demo_pstate = Inr (Done 3, pi', s') \<and>
     pipe_list pi' = [7, 8, 9, 0, 0, 0]"
proof -
  obtain tp fr where d: "vm_inv tp {} demo_pstate fr" "is_root tp (p_pagetable (procs demo_pstate ! 0))"
    "\<And>va. va < 8192 \<Longrightarrow> user_byte (pmem demo_pstate) (p_pagetable (procs demo_pstate ! 0)) va = Some 0"
    "killed 0 demo_pstate = 0" using demo_pstate_vm by blast
  have r: "user_reads (pmem demo_pstate) (p_pagetable (procs demo_pstate ! 0)) 100 [0, 0, 0]"
    using d(3) [of 100] d(3) [of 101] d(3) [of 102] by (auto simp: user_reads_def less_Suc_eq numeral_3_eq_3)
  have "readopen (demo_pipe [7, 8, 9])" by (simp add: demo_pipe_def)
  from pipe_write_refines_queue [OF d(1,2,4) demo_pipe_ok(2) this r, of 64] show ?thesis
    by (auto simp: demo_pipe_list PIPESIZE_def)
qed

text \<open>C23: \<open>piperead\<close> is the removal from the front of the queue.  When there is something to read, or no
  writer is left, it returns the number of bytes it delivered; these are the oldest bytes of the pipe,
  in order, in the memory of the reader from the address given, and nothing else in any address space
  changes.  If the reader's memory takes all of them the rest of the queue stays; if it refuses a
  byte, that one byte is lost, because it has left the pipe before it is copied.\<close>

theorem pipe_read_refines_queue:
  assumes "vm_inv tp held s fr" and "is_root tp (p_pagetable (procs s ! me))" and "pipe_ok pi"
    and "pipe_list pi \<noteq> [] \<or> \<not> writeopen pi" and "n < 2 ^ 31"
  shows "\<exists>j pi' s' fr'. piperead me a addr n pi s = Inr (Done (int j), pi', s') \<and> vm_inv tp held s' fr' \<and> pipe_ok pi' \<and>
    (j = min (nat n) (length (pipe_list pi)) \<and> pipe_list pi = take j (pipe_list pi) @ pipe_list pi' \<or>
     (\<exists>lost. j < min (nat n) (length (pipe_list pi)) \<and> pipe_list pi = take j (pipe_list pi) @ lost # pipe_list pi')) \<and>
    (\<forall>r va. is_root tp r \<longrightarrow> user_byte (pmem s') r va =
       (if r = p_pagetable (procs s ! me) \<and> unat (va - addr) < j
        then Some (pipe_list pi ! unat (va - addr)) else user_byte (pmem s) r va))"
proof -
  have small: "0 + nat n < 2 ^ 64" using assms(5) by simp
  obtain pi' s1 fr' j where l: "piperead_loop me addr 0 (nat n) pi s = Inr (int j, pi', s1)" "vm_inv tp held s1 fr'"
    "pipe_ok pi'" "j = min (nat n) (length (pipe_list pi)) \<and> pipe_list pi' = drop j (pipe_list pi) \<or>
     j < min (nat n) (length (pipe_list pi)) \<and> pipe_list pi' = drop (Suc j) (pipe_list pi)"
    "\<And>r va. is_root tp r \<Longrightarrow> user_byte (pmem s1) r va =
       (if r = p_pagetable (procs s ! me) \<and> unat (va - addr) < j
        then Some (pipe_list pi ! unat (va - addr)) else user_byte (pmem s) r va)"
    using piperead_loop_queue [OF assms(1-3) small, of addr] by auto
  let ?s' = "wakeup (Some me) (Chan_pipe_write a) s1"
  have "piperead me a addr n pi s = Inr (Done (int j), pi', ?s')"
    using l(1) assms(4) by (auto simp: piperead_def pipe_empty_iff)
  moreover have "vm_inv tp held ?s' fr'" by (rule vm_inv_ext [OF _ _ _ _ l(2)]) (simp_all add: wakeup_def)
  moreover have "j = min (nat n) (length (pipe_list pi)) \<and> pipe_list pi = take j (pipe_list pi) @ pipe_list pi' \<or>
     (\<exists>lost. j < min (nat n) (length (pipe_list pi)) \<and> pipe_list pi = take j (pipe_list pi) @ lost # pipe_list pi')"
    using l(4) id_take_nth_drop [of j "pipe_list pi"] by (metis append_take_drop_id min_less_iff_conj)
  ultimately show ?thesis using l(3,5)
    by (intro exI [of _ j] exI [of _ pi'] exI [of _ ?s'] exI [of _ fr']) simp
qed

theorem pipe_read_refines_queue_witness:
  "\<exists>j pi' s'. piperead 0 64 100 2 (demo_pipe [7, 8, 9]) demo_pstate = Inr (Done (int j), pi', s') \<and> j \<le> 2"
proof -
  obtain tp fr where d: "vm_inv tp {} demo_pstate fr" "is_root tp (p_pagetable (procs demo_pstate ! 0))"
    using demo_pstate_vm by blast
  from pipe_read_refines_queue [OF d demo_pipe_ok(2), of 2 64 100] show ?thesis
    by (fastforce simp: demo_pipe_list)
qed



end
