(* ===== verification/ConsoleProps.thy ===== *)
theory ConsoleProps
  imports PipeProps
begin

text \<open>
  The UART and the console: what processes write reaches the line in order, and editing a line never
  touches the input that is already committed to readers.
\<close>

section \<open>The transmit queue\<close>

definition uart_list :: "uart \<Rightarrow> bytes" where
  "uart_list u = ring_list (uart_tx_buf u) (uart_tx_r u) (uart_tx_w u)"

definition uart_sent :: "uart \<Rightarrow> bytes" where
  "uart_sent u = map snd (filter (\<lambda>x. fst x = THR) (hw_writes u))"

definition uart_ok :: "uart \<Rightarrow> bool" where
  "uart_ok u \<longleftrightarrow> length (uart_tx_buf u) = UART_TX_BUF_SIZE \<and> length (uart_list u) \<le> UART_TX_BUF_SIZE"

lemma uart_sent_send [simp]: "uart_sent (WriteReg THR c u) = uart_sent u @ [c]"
  by (simp add: uart_sent_def WriteReg_def)

lemma WriteReg_sel [simp]:
  "uart_tx_buf (WriteReg r c u) = uart_tx_buf u" "uart_tx_r (WriteReg r c u) = uart_tx_r u"
  "uart_tx_w (WriteReg r c u) = uart_tx_w u" "panicked (WriteReg r c u) = panicked u"
  "hw_lsr (WriteReg r c u) = hw_lsr u" "hw_rhr (WriteReg r c u) = hw_rhr u"
  by (simp_all add: WriteReg_def)

text \<open>Starting the transmitter moves bytes from the queue to the line and loses none.\<close>

lemma uartstart_stream:
  "uartstart me u s = (u', s') \<Longrightarrow> uart_ok u \<Longrightarrow>
   uart_ok u' \<and> uart_sent u' @ uart_list u' = uart_sent u @ uart_list u \<and> panicked u' = panicked u \<and>
   length (uart_list u') \<le> length (uart_list u)"
proof (induction me u s arbitrary: u' s' rule: uartstart.induct)
  case (1 me u s)
  show ?case
  proof (cases "uart_tx_w u = uart_tx_r u \<or> hw_lsr u = []")
    case True
    then show ?thesis using "1.prems" by (subst (asm) uartstart.simps) (auto split: if_splits)
  next
    case False
    then obtain x xs where l: "hw_lsr u = x # xs" by (cases "hw_lsr u") auto
    define v where "v = u\<lparr>hw_lsr := xs\<rparr>"
    show ?thesis
    proof (cases "x AND LSR_TX_IDLE = 0")
      case True
      then have "u' = v" using "1.prems"(1) False l by (subst (asm) uartstart.simps) (simp add: v_def)
      then show ?thesis using "1.prems"(2) by (simp add: v_def uart_ok_def uart_list_def uart_sent_def)
    next
      case idle: False
      define c where "c = uart_tx_buf v ! (unat (uart_tx_r v) mod UART_TX_BUF_SIZE)"
      define w where "w = v\<lparr>uart_tx_r := uart_tx_r v + 1\<rparr>"
      have run: "uartstart me (WriteReg THR c w) (wakeup me Chan_uart s) = (u', s')"
        using "1.prems"(1) False l idle
        by (subst (asm) uartstart.simps) (simp add: v_def c_def w_def Let_def)
      have ne: "uart_tx_r v \<noteq> uart_tx_w v" and len: "length (uart_tx_buf v) = UART_TX_BUF_SIZE"
        using False "1.prems"(2) by (auto simp: v_def uart_ok_def)
      have h: "uart_list v = c # uart_list w"
        using uq.get_head [OF len ne] by (simp add: uart_list_def c_def w_def)
      have v: "uart_list v = uart_list u" "uart_sent w = uart_sent u" "panicked w = panicked u"
        by (simp_all add: v_def w_def uart_list_def uart_sent_def)
      have wl: "uart_list (WriteReg THR c w) = uart_list w" by (simp add: uart_list_def)
      have "uart_tx_buf w = uart_tx_buf u" by (simp add: v_def w_def)
      then have ok: "uart_ok (WriteReg THR c w)"
        using "1.prems"(2) h v(1) wl by (simp add: uart_ok_def)
      note ih = "1.IH" [OF _ l v_def idle c_def w_def refl run ok]
      show ?thesis using ih False h v wl by auto
    qed
  qed
qed

text \<open>The transmitter wakes sleepers and does nothing else to the rest of the kernel.\<close>

definition same_vm :: "nat \<Rightarrow> 'a pstate_scheme \<Rightarrow> 'a pstate_scheme \<Rightarrow> bool" where
  "same_vm me s s' \<longleftrightarrow> pmem s' = pmem s \<and> freelist s' = freelist s \<and> page_refcnt s' = page_refcnt s \<and>
     kern_end s' = kern_end s \<and> length (procs s') = length (procs s) \<and>
     p_pagetable (procs s' ! me) = p_pagetable (procs s ! me)"

lemma same_vm_refl [simp]: "same_vm me s s"
  by (simp add: same_vm_def)

lemma same_vm_trans: "same_vm me s t \<Longrightarrow> same_vm me t u \<Longrightarrow> same_vm me s u"
  by (simp add: same_vm_def)

lemma same_vm_wakeup: "me < length (procs s) \<Longrightarrow> same_vm me s (wakeup mo c s)"
  by (simp add: same_vm_def wakeup_nth)

lemma same_vm_inv: "same_vm me s s' \<Longrightarrow> vm_inv tp held s fr \<Longrightarrow> vm_inv tp held s' fr"
  using vm_inv_ext [of s' s tp held fr] by (simp add: same_vm_def)

lemma uartstart_vm: "uartstart mo u s = (u', s') \<Longrightarrow> me < length (procs s) \<Longrightarrow> same_vm me s s'"
proof (induction mo u s arbitrary: u' s' rule: uartstart.induct)
  case (1 mo u s)
  show ?case
  proof (cases "uart_tx_w u = uart_tx_r u \<or> hw_lsr u = [] \<or> hd (hw_lsr u) AND LSR_TX_IDLE = 0")
    case True
    then have "s' = s" using "1.prems"(1) by (subst (asm) uartstart.simps) (auto simp: Let_def split: if_splits list.splits)
    then show ?thesis by simp
  next
    case False
    then obtain x xs where l: "hw_lsr u = x # xs" "x AND LSR_TX_IDLE \<noteq> 0" by (cases "hw_lsr u") auto
    have "same_vm me (wakeup mo Chan_uart s) s'"
      using "1.IH" [OF _ l(1) refl l(2) refl refl refl] "1.prems" False l
      by (subst (asm) uartstart.simps) (simp add: Let_def)
    then show ?thesis using same_vm_trans same_vm_wakeup "1.prems"(2) by blast
  qed
qed

lemma uartputc_stream:
  assumes "uart_ok u" and "\<not> panicked u" and "me < length (procs s)"
  obtains u' s' where "uartputc me c u s = Inr (Done (), u', s')" "uart_ok u'" "\<not> panicked u'" "same_vm me s s'"
      "uart_sent u' @ uart_list u' = uart_sent u @ uart_list u @ [c]"
    | s' where "uartputc me c u s = Inr (Sleeping 0, u, s')" "length (uart_list u) = UART_TX_BUF_SIZE"
proof (cases "uart_full u")
  case True
  moreover have "length (uart_list u) = UART_TX_BUF_SIZE"
    using True uq.count_full [of u] assms(1) by (simp add: uart_full_def uart_ok_def uart_list_def)
  ultimately show ?thesis using that(2) assms(2) by (simp add: uartputc_def)
next
  case False
  define v where "v = u\<lparr>uart_tx_buf := (uart_tx_buf u)[unat (uart_tx_w u) mod UART_TX_BUF_SIZE := c], uart_tx_w := uart_tx_w u + 1\<rparr>"
  have len: "length (uart_tx_buf u) = UART_TX_BUF_SIZE" and room: "unat (uart_tx_w u - uart_tx_r u) < UART_TX_BUF_SIZE"
    using False uq.count_full [of u] assms(1) by (auto simp: uart_full_def uart_ok_def uart_list_def)
  have l: "uart_list v = uart_list u @ [c]"
    using uq.put_appends [OF len room, of c] by (simp add: uart_list_def v_def)
  have ok: "uart_ok v" using l len room by (simp add: uart_ok_def v_def) (simp add: uart_list_def)
  obtain u' s' where run: "uartstart (Some me) v s = (u', s')" by (cases "uartstart (Some me) v s")
  then have p: "uartputc me c u s = Inr (Done (), u', s')"
    using False assms(2) by (simp add: uartputc_def Let_def v_def)
  have v: "uart_sent v = uart_sent u" "panicked v = panicked u" by (simp_all add: v_def uart_sent_def)
  note st = uartstart_stream [OF run ok]
  show ?thesis
  proof (rule that(1) [OF p])
    show "uart_ok u'" "\<not> panicked u'" "uart_sent u' @ uart_list u' = uart_sent u @ uart_list u @ [c]"
      using st l v assms(2) by simp_all
    show "same_vm me s s'" using uartstart_vm [OF run assms(3)] .
  qed
qed

lemma consolewrite_loop_stream:
  assumes "vm_inv tp held s fr" and "is_root tp (p_pagetable (procs s ! me))" and "me < length (procs s)"
    and "uart_ok u" and "\<not> panicked u"
    and "\<forall>j < length bs. user_byte (pmem s) (p_pagetable (procs s ! me)) (addr + of_nat (i + j)) = Some (bs ! j)"
  shows "\<exists>r u' s' k. consolewrite_loop me (From_user addr) i (length bs) u s = Inr (r, u', s') \<and> uart_ok u' \<and>
    uart_sent u' @ uart_list u' = uart_sent u @ uart_list u @ take k bs \<and>
    (k = length bs \<and> r = Done (int (i + k)) \<or>
     k < length bs \<and> r = Sleeping (int (i + k)) \<and> length (uart_list u') = UART_TX_BUF_SIZE)"
  using assms
proof (induction bs arbitrary: i u s)
  case Nil
  then show ?case by auto
next
  case (Cons b bs)
  have "user_byte (pmem s) (p_pagetable (procs s ! me)) (addr + of_nat i) = Some b"
    using Cons.prems(6) [rule_format, of 0] by simp
  then have c: "copyin (p_pagetable (procs s ! me)) (addr + of_nat i) 1 s = Inr (0, [b])"
    using copyin_byte Cons.prems(1,2) by blast
  show ?case
  proof (cases rule: uartputc_stream [OF Cons.prems(4,5,3), of b])
    case (1 u1 s1)
    have bytes: "\<forall>j < length bs. user_byte (pmem s1) (p_pagetable (procs s1 ! me)) (addr + of_nat (Suc i + j)) = Some (bs ! j)"
    proof (intro allI impI)
      fix j assume "j < length bs"
      then show "user_byte (pmem s1) (p_pagetable (procs s1 ! me)) (addr + of_nat (Suc i + j)) = Some (bs ! j)"
        using Cons.prems(6) [rule_format, of "Suc j"] 1(4) by (simp add: same_vm_def add.commute add.left_commute)
    qed
    have pre: "vm_inv tp held s1 fr" "is_root tp (p_pagetable (procs s1 ! me))" "me < length (procs s1)"
      using same_vm_inv [OF 1(4) Cons.prems(1)] Cons.prems(2,3) 1(4) by (auto simp: same_vm_def)
    obtain r u' s' k where ih: "consolewrite_loop me (From_user addr) (Suc i) (length bs) u1 s1 = Inr (r, u', s')" "uart_ok u'"
      "uart_sent u' @ uart_list u' = uart_sent u1 @ uart_list u1 @ take k bs"
      "k = length bs \<and> r = Done (int (Suc i + k)) \<or>
       k < length bs \<and> r = Sleeping (int (Suc i + k)) \<and> length (uart_list u') = UART_TX_BUF_SIZE"
      using Cons.IH [OF pre 1(2,3) bytes] by blast
    have "consolewrite_loop me (From_user addr) i (length (b # bs)) u s = Inr (r, u', s')"
      using c 1(1) ih(1) by simp
    moreover have "uart_sent u' @ uart_list u' = uart_sent u @ uart_list u @ take (Suc k) (b # bs)"
      using ih(3) 1(5) by (simp flip: append_assoc)
    ultimately show ?thesis using ih(2,4)
      by (intro exI [of _ r] exI [of _ u'] exI [of _ s'] exI [of _ "Suc k"]) auto
  next
    case (2 s1)
    then show ?thesis using c Cons.prems(4)
      by (intro exI [of _ "Sleeping (int i)"] exI [of _ u] exI [of _ s1] exI [of _ 0]) simp
  qed
qed

section \<open>Line editing\<close>

text \<open>
  The abstract console: the input committed to readers, and the line being edited.  Ctrl-U erases the
  line, backspace and delete its last character; a newline, Ctrl-D or a full buffer commits it.
\<close>

definition line_edit :: "int \<Rightarrow> bytes \<times> bytes \<Rightarrow> bytes \<times> bytes" where
  "line_edit c x =
     (let (com, pen) = x in
      if c = CTRL 80 then (com, pen)
      else if c = CTRL 85 then (com, [])
      else if c = CTRL 72 \<or> c = 0x7f then (com, butlast pen)
      else if c \<noteq> 0 \<and> length com + length pen < INPUT_BUF_SIZE
      then
        let c = (if c = 13 then 10 else c); pen = pen @ [word_of_int c] in
        if c = 10 \<or> c = CTRL 68 \<or> length com + length pen = INPUT_BUF_SIZE then (com @ pen, []) else (com, pen)
      else (com, pen))"

definition cons_abs :: "cons \<Rightarrow> bytes \<times> bytes" where
  "cons_abs co = (ring_list (cons_buf co) (cons_r co) (cons_w co), ring_list (cons_buf co) (cons_w co) (cons_e co))"

definition cons_ok :: "cons \<Rightarrow> bool" where
  "cons_ok co \<longleftrightarrow> length (cons_buf co) = INPUT_BUF_SIZE \<and>
     unat (cons_w co - cons_r co) + unat (cons_e co - cons_w co) \<le> INPUT_BUF_SIZE \<and>
     10 \<notin> set (snd (cons_abs co))"

lemma unat_add_mod: "n dvd 2 ^ LENGTH('w :: len) \<Longrightarrow> (unat (w :: 'w word) + k) mod n = (unat r + (unat (w - r) + k)) mod n"
proof -
  assume d: "n dvd 2 ^ LENGTH('w)"
  have "unat (r + of_nat (unat (w - r))) mod n = (unat r + unat (w - r)) mod n" by (rule unat_mod_dvd [OF d])
  then have "unat w mod n = (unat r + unat (w - r)) mod n" by simp
  then show ?thesis by (metis mod_add_left_eq add.assoc)
qed

lemma unat_split:
  assumes "unat (w - r :: 'w :: len word) + unat (e - w) < 2 ^ LENGTH('w)"
  shows "unat (e - r) = unat (w - r) + unat (e - w)"
proof -
  have "e - r = (w - r) + (e - w)" by simp
  then have "unat (e - r) = (unat (w - r) + unat (e - w)) mod 2 ^ LENGTH('w)" by (metis unat_word_ariths(1))
  then show ?thesis using assms by simp
qed

lemma ring_list_split:
  assumes "length d dvd 2 ^ LENGTH('w :: len)" and "unat (w - r :: 'w word) + unat (e - w) < 2 ^ LENGTH('w)"
  shows "ring_list d r e = ring_list d r w @ ring_list d w e"
proof (rule nth_equalityI)
  show "length (ring_list d r e) = length (ring_list d r w @ ring_list d w e)" using unat_split [OF assms(2)] by simp
next
  fix k assume "k < length (ring_list d r e)"
  then have k: "k < unat (w - r) + unat (e - w)" using unat_split [OF assms(2)] by simp
  show "ring_list d r e ! k = (ring_list d r w @ ring_list d w e) ! k"
  proof (cases "k < unat (w - r)")
    case True
    then show ?thesis using k unat_split [OF assms(2)] by (simp add: ring_list_def nth_append)
  next
    case False
    then obtain j where j: "k = unat (w - r) + j" "j < unat (e - w)" using k by (metis add_less_cancel_left le_iff_add not_le)
    show ?thesis using j unat_split [OF assms(2)] unat_add_mod [OF assms(1), of w j r]
      by (simp add: ring_list_def nth_append)
  qed
qed

lemma ring_list_pred:
  assumes "e \<noteq> w"
  shows "ring_list d w (e - 1) = butlast (ring_list d w e)" and "unat (e - 1 - w) = unat (e - w) - 1"
proof -
  have "e - w \<noteq> 0" using assms by (metis right_minus_eq)
  then have "unat (e - w - 1) = unat (e - w) - 1" by (rule unat_minus_one)
  then show u: "unat (e - 1 - w) = unat (e - w) - 1" by (simp add: algebra_simps)
  show "ring_list d w (e - 1) = butlast (ring_list d w e)"
    unfolding ring_list_def u by (cases "unat (e - w)") (simp_all add: map_butlast [symmetric])
qed

lemma input_dvd: "INPUT_BUF_SIZE dvd 2 ^ LENGTH(32)" "INPUT_BUF_SIZE < 2 ^ LENGTH(32)"
  by (auto simp: INPUT_BUF_SIZE_def intro: dvdI [of _ _ 33554432])

lemma cons_ok_D:
  assumes "cons_ok co"
  shows "length (cons_buf co) = INPUT_BUF_SIZE"
    and "unat (cons_e co - cons_r co) = unat (cons_w co - cons_r co) + unat (cons_e co - cons_w co)"
    and "unat (cons_e co - cons_r co) \<le> INPUT_BUF_SIZE"
    and "ring_list (cons_buf co) (cons_r co) (cons_e co) = fst (cons_abs co) @ snd (cons_abs co)"
proof -
  show l: "length (cons_buf co) = INPUT_BUF_SIZE" using assms by (simp add: cons_ok_def)
  have le: "unat (cons_w co - cons_r co) + unat (cons_e co - cons_w co) \<le> INPUT_BUF_SIZE"
    using assms by (simp add: cons_ok_def)
  then have lt: "unat (cons_w co - cons_r co) + unat (cons_e co - cons_w co) < 2 ^ LENGTH(32)"
    using input_dvd(2) by simp
  show u: "unat (cons_e co - cons_r co) = unat (cons_w co - cons_r co) + unat (cons_e co - cons_w co)"
    by (rule unat_split [OF lt])
  show "unat (cons_e co - cons_r co) \<le> INPUT_BUF_SIZE" using u le by simp
  show "ring_list (cons_buf co) (cons_r co) (cons_e co) = fst (cons_abs co) @ snd (cons_abs co)"
    unfolding cons_abs_def fst_conv snd_conv by (rule ring_list_split [OF _ lt]) (use l input_dvd in simp)
qed

text \<open>Going back by one character.\<close>

lemma cons_back:
  assumes "cons_ok co" and "cons_e co \<noteq> cons_w co"
  shows "cons_ok (co\<lparr>cons_e := cons_e co - 1\<rparr>)"
    and "cons_abs (co\<lparr>cons_e := cons_e co - 1\<rparr>) = (fst (cons_abs co), butlast (snd (cons_abs co)))"
proof -
  note p = ring_list_pred [OF assms(2)]
  show a: "cons_abs (co\<lparr>cons_e := cons_e co - 1\<rparr>) = (fst (cons_abs co), butlast (snd (cons_abs co)))"
    by (simp add: cons_abs_def p)
  show "cons_ok (co\<lparr>cons_e := cons_e co - 1\<rparr>)"
    using assms(1) unfolding cons_ok_def a by (auto simp: p dest: in_set_butlastD)
qed

lemma kill_line_abs:
  assumes "kill_line k co u = Inr (co', u')" and "cons_ok co" and "k = unat (cons_e co - cons_w co)"
  shows "cons_ok co' \<and> cons_abs co' = (fst (cons_abs co), []) \<and> cons_r co' = cons_r co"
  using assms
proof (induction k arbitrary: co u)
  case 0
  then have "cons_e co = cons_w co" by (metis unat_0_iff right_minus_eq)
  then have "snd (cons_abs co) = []" by (simp add: cons_abs_def)
  then show ?case using 0 by (metis kill_line.simps(1) Inr_inject Pair_inject prod.collapse)
next
  case (Suc k)
  have ne: "cons_e co \<noteq> cons_w co" using Suc.prems(3) by auto
  have l: "snd (cons_abs co) \<noteq> []" and last: "last (snd (cons_abs co)) = cons_buf co ! (unat (cons_e co - 1) mod INPUT_BUF_SIZE)"
  proof -
    show l: "snd (cons_abs co) \<noteq> []" using ne by (simp add: cons_abs_def)
    have len: "length (cons_buf co) = INPUT_BUF_SIZE" using Suc.prems(2) by (rule cons_ok_D)
    have "unat (cons_e co - 1 - cons_w co) = k" using ring_list_pred(2) [OF ne] Suc.prems(3) by simp
    then have "(unat (cons_e co - 1) + 0) mod INPUT_BUF_SIZE = (unat (cons_w co) + (k + 0)) mod INPUT_BUF_SIZE"
      using unat_add_mod [OF input_dvd(1), of "cons_e co - 1" 0 "cons_w co"] by simp
    then show "last (snd (cons_abs co)) = cons_buf co ! (unat (cons_e co - 1) mod INPUT_BUF_SIZE)"
      using l len by (simp add: last_conv_nth cons_abs_def ring_list_def Suc.prems(3) [symmetric])
  qed
  have "last (snd (cons_abs co)) \<noteq> 10" using Suc.prems(2) l last_in_set by (metis cons_ok_def)
  then obtain u1 where r: "kill_line k (co\<lparr>cons_e := cons_e co - 1\<rparr>) u1 = Inr (co', u')"
    using Suc.prems(1) ne last by auto
  have "k = unat (cons_e (co\<lparr>cons_e := cons_e co - 1\<rparr>) - cons_w (co\<lparr>cons_e := cons_e co - 1\<rparr>))"
    using ring_list_pred(2) [OF ne] Suc.prems(3) by simp
  from Suc.IH [OF r cons_back(1) [OF Suc.prems(2) ne] this] show ?case
    using cons_back(2) [OF Suc.prems(2) ne] by simp
qed

text \<open>Storing a character at \<open>e\<close>, and committing.\<close>

lemma cons_store:
  assumes "cons_ok co" and "length (fst (cons_abs co)) + length (snd (cons_abs co)) < INPUT_BUF_SIZE"
    and co1: "co1 = co\<lparr>cons_buf := (cons_buf co)[unat (cons_e co) mod INPUT_BUF_SIZE := x], cons_e := cons_e co + 1\<rparr>"
  shows "cons_abs co1 = (fst (cons_abs co), snd (cons_abs co) @ [x])"
    and "cons_abs (co1\<lparr>cons_w := cons_e co1\<rparr>) = (fst (cons_abs co) @ snd (cons_abs co) @ [x], [])"
    and "x \<noteq> 10 \<Longrightarrow> cons_ok co1" and "cons_ok (co1\<lparr>cons_w := cons_e co1\<rparr>)"
    and "unat (cons_e co1 - cons_r co1) = length (fst (cons_abs co)) + Suc (length (snd (cons_abs co)))"
proof -
  note D = cons_ok_D [OF assms(1)]
  have room: "unat (cons_e co - cons_r co) < INPUT_BUF_SIZE" using D(2) assms(2) by (simp add: cons_abs_def)
  have app: "ring_list (cons_buf co1) (cons_r co1) (cons_e co1) = fst (cons_abs co) @ snd (cons_abs co) @ [x]"
    using cq.put_appends [OF D(1) room, of x] D(4) by (simp add: co1)
  have len1: "length (cons_buf co1) = INPUT_BUF_SIZE" and w1: "cons_w co1 = cons_w co" and r1: "cons_r co1 = cons_r co"
    using D(1) by (simp_all add: co1)
  show n: "unat (cons_e co1 - cons_r co1) = length (fst (cons_abs co)) + Suc (length (snd (cons_abs co)))"
    using arg_cong [OF app, of length] by simp
  have wr: "unat (cons_w co - cons_r co) = length (fst (cons_abs co))" and ew: "unat (cons_e co - cons_w co) = length (snd (cons_abs co))"
    by (simp_all add: cons_abs_def)
  have "unat (cons_e co - cons_w co) + 1 < 2 ^ LENGTH(32)" using assms(2) ew input_dvd(2) by simp
  then have "unat (cons_e co - cons_w co + 1) = unat (cons_e co - cons_w co) + 1" by (rule unat_add_1)
  moreover have "cons_e co1 - cons_w co1 = cons_e co - cons_w co + 1" by (simp add: co1)
  ultimately have ew1: "unat (cons_e co1 - cons_w co1) = Suc (length (snd (cons_abs co)))" using ew by simp
  have lt: "unat (cons_w co1 - cons_r co1) + unat (cons_e co1 - cons_w co1) < 2 ^ LENGTH(32)"
    using wr ew1 assms(2) input_dvd(2) unfolding w1 r1 by linarith
  have "ring_list (cons_buf co1) (cons_r co1) (cons_e co1) = fst (cons_abs co1) @ snd (cons_abs co1)"
    unfolding cons_abs_def fst_conv snd_conv by (rule ring_list_split [OF _ lt]) (use len1 input_dvd in simp)
  moreover have "length (fst (cons_abs co1)) = length (fst (cons_abs co))"
    using wr by (simp add: cons_abs_def w1 r1)
  ultimately show a: "cons_abs co1 = (fst (cons_abs co), snd (cons_abs co) @ [x])"
    using app by (auto simp: prod_eq_iff)
  show b: "cons_abs (co1\<lparr>cons_w := cons_e co1\<rparr>) = (fst (cons_abs co) @ snd (cons_abs co) @ [x], [])"
    using app by (simp add: cons_abs_def)
  show "cons_ok co1" if "x \<noteq> 10"
    using assms(1,2) that ew1 wr len1 unfolding cons_ok_def a by (simp add: w1 r1)
  show "cons_ok (co1\<lparr>cons_w := cons_e co1\<rparr>)"
    unfolding cons_ok_def b using len1 n assms(2) by simp
qed

lemma cons_room:
  assumes "cons_ok co"
  shows "cons_e co - cons_r co < of_nat INPUT_BUF_SIZE \<longleftrightarrow> length (fst (cons_abs co)) + length (snd (cons_abs co)) < INPUT_BUF_SIZE"
proof -
  have "unat (of_nat INPUT_BUF_SIZE :: uint32) = INPUT_BUF_SIZE" by (simp add: INPUT_BUF_SIZE_def)
  then show ?thesis using cons_ok_D(2) [OF assms] by (simp add: word_less_nat_alt cons_abs_def)
qed

lemma CTRL_simps [simp]: "CTRL 80 = 16" "CTRL 85 = 21" "CTRL 72 = 8" "CTRL 68 = 4"
  by (simp_all add: CTRL_def)

lemma byte_of_int: "0 \<le> c \<Longrightarrow> c < 256 \<Longrightarrow> (word_of_int c :: uint8) = 10 \<longleftrightarrow> c = 10"
  by (auto simp: word_uint_eq_iff uint_word_of_int take_bit_int_eq_self)

lemma consoleintr_char:
  assumes "c \<noteq> CTRL 80" "c \<noteq> CTRL 85" "c \<noteq> CTRL 72" "c \<noteq> 0x7f" "0 \<le> c" "c < 256"
    and "consoleintr me c co u s = Inr (co', u', s')" and ok: "cons_ok co"
  shows "cons_ok co' \<and> cons_r co' = cons_r co \<and> cons_abs co' = line_edit c (cons_abs co)"
proof (cases "c \<noteq> 0 \<and> length (fst (cons_abs co)) + length (snd (cons_abs co)) < INPUT_BUF_SIZE")
  case False
  then have "co' = co" using assms(1-4,7) by (auto simp: consoleintr_def cons_room [OF ok] split: if_splits)
  then show ?thesis using ok False assms(1-4) by (auto simp: line_edit_def split: prod.splits)
next
  case True
  define d where "d = (if c = 13 then 10 else c)"
  define co1 where "co1 = co\<lparr>cons_buf := (cons_buf co)[unat (cons_e co) mod INPUT_BUF_SIZE := word_of_int d], cons_e := cons_e co + 1\<rparr>"
  have d: "0 \<le> d" "d < 256" using assms(5,6) by (auto simp: d_def)
  note st = cons_store [OF ok conjunct2 [OF True] co1_def]
  have "unat (of_nat INPUT_BUF_SIZE :: uint32) = INPUT_BUF_SIZE" by (simp add: INPUT_BUF_SIZE_def)
  then have full: "cons_e co1 - cons_r co1 = of_nat INPUT_BUF_SIZE \<longleftrightarrow>
      length (fst (cons_abs co)) + Suc (length (snd (cons_abs co))) = INPUT_BUF_SIZE"
    using st(5) by (metis word_unat_eq_iff)
  have co': "co' = (if d = 10 \<or> d = CTRL 68 \<or> cons_e co1 - cons_r co1 = of_nat INPUT_BUF_SIZE
      then co1\<lparr>cons_w := cons_e co1\<rparr> else co1)"
    using assms(1-4,7) True
    by (auto simp: consoleintr_def cons_room [OF ok] Let_def d_def co1_def split: if_splits)
  have r: "cons_r co1 = cons_r co" by (simp add: co1_def)
  have le: "line_edit c (cons_abs co) = (if d = 10 \<or> d = CTRL 68 \<or> cons_e co1 - cons_r co1 = of_nat INPUT_BUF_SIZE
      then (fst (cons_abs co) @ snd (cons_abs co) @ [word_of_int d], []) else (fst (cons_abs co), snd (cons_abs co) @ [word_of_int d]))"
    using assms(1-4) True unfolding full by (cases "cons_abs co") (simp add: line_edit_def d_def Let_def)
  show ?thesis
  proof (cases "d = 10 \<or> d = CTRL 68 \<or> cons_e co1 - cons_r co1 = of_nat INPUT_BUF_SIZE")
    case cm: True
    then show ?thesis using co' st(2,4) le r by simp
  next
    case kp: False
    then have "(word_of_int d :: uint8) \<noteq> 10" using byte_of_int [OF d] by simp
    then show ?thesis using co' st(1,3) le r kp by simp
  qed
qed

lemma line_edit_keys:
  "line_edit 16 x = x" "line_edit 21 x = (fst x, [])" "line_edit 8 x = (fst x, butlast (snd x))"
  "line_edit 127 x = (fst x, butlast (snd x))"
  by (cases x, simp add: line_edit_def)+

section \<open>Properties\<close>

text \<open>C25: The console input interrupt implements the line editor: on every character the ring buffer
  with its three wrapping indices does exactly what the editor does on the committed input and the
  line under construction.  In particular nothing that was committed is ever erased, overwritten or
  reordered, and the buffer never holds more than \<open>INPUT_BUF_SIZE\<close> characters.\<close>

theorem console_refines_line_editor:
  assumes "cons_ok co" and "0 \<le> c" and "c < 256" and "consoleintr me c co u s = Inr (co', u', s')"
  shows "cons_ok co' \<and> cons_r co' = cons_r co \<and> cons_abs co' = line_edit c (cons_abs co)"
proof -
  have bk: "cons_ok co' \<and> cons_r co' = cons_r co \<and> cons_abs co' = (fst (cons_abs co), butlast (snd (cons_abs co)))"
    if "c = 8 \<or> c = 127"
  proof (cases "cons_e co = cons_w co")
    case True
    then have "co' = co" "snd (cons_abs co) = []" using that assms(4) by (auto simp: consoleintr_def cons_abs_def split: if_splits)
    then show ?thesis using assms(1) by (metis butlast.simps(1) prod.collapse)
  next
    case False
    then have "co' = co\<lparr>cons_e := cons_e co - 1\<rparr>" using that assms(4) by (auto simp: consoleintr_def split: if_splits)
    then show ?thesis using cons_back [OF assms(1) False] by simp
  qed
  consider "c = 16" | "c = 21" | "c = 8 \<or> c = 127" | "c \<noteq> CTRL 80" "c \<noteq> CTRL 85" "c \<noteq> CTRL 72" "c \<noteq> 0x7f" by fastforce
  then show ?thesis
  proof cases
    case 1
    then have "co' = co" using assms(4) by (auto simp: consoleintr_def)
    then show ?thesis using 1 assms(1) by (simp add: line_edit_keys)
  next
    case 2
    then obtain u1 where "kill_line (unat (cons_e co - cons_w co)) co u = Inr (co', u1)"
      using assms(4) by (auto simp: consoleintr_def)
    then show ?thesis using kill_line_abs assms(1) 2 by (simp add: line_edit_keys)
  next
    case 3
    then show ?thesis using bk by (auto simp: line_edit_keys)
  next
    case 4
    then show ?thesis using consoleintr_char [OF 4 assms(2,3,4,1)] by simp
  qed
qed

definition demo_cons :: cons where
  "demo_cons = \<lparr>cons_buf = replicate INPUT_BUF_SIZE 0, cons_r = 0, cons_w = 0, cons_e = 0\<rparr>"

definition demo_uart :: uart where
  "demo_uart = \<lparr>hw_lsr = [32], hw_rhr = [], hw_writes = [], uart_tx_buf = replicate UART_TX_BUF_SIZE 0,
     uart_tx_w = 0, uart_tx_r = 0, panicked = False\<rparr>"

theorem console_refines_line_editor_witness:
  "\<exists>co' u' s'. consoleintr None 13 demo_cons demo_uart demo_pstate = Inr (co', u', s') \<and> cons_abs co' = ([10], [])"
proof -
  have ok: "cons_ok demo_cons" "cons_abs demo_cons = ([], [])"
    by (simp_all add: cons_ok_def cons_abs_def demo_cons_def ring_list_def)
  obtain co' u' s' where r: "consoleintr None 13 demo_cons demo_uart demo_pstate = Inr (co', u', s')"
    by (simp add: consoleintr_def demo_cons_def demo_uart_def INPUT_BUF_SIZE_def consputc_def BACKSPACE_def
        uartputc_sync_def LSR_TX_IDLE_def Let_def)
  from console_refines_line_editor [OF ok(1) _ _ r] show ?thesis
    using r ok(2) by (auto simp: line_edit_def INPUT_BUF_SIZE_def)
qed



end
