(* ===== verification/File.thy ===== *)
theory File
  imports Pipe
begin

text \<open>
  The table of open files (\<open>kernel/file.c\<close>), with the creation and the closing of pipes
  (\<open>kernel/pipe.c\<close>).  Files are entries of the table, named by their index.  A pipe lives in the page
  that \<open>kalloc\<close> gave for it and is kept in a map from those pages.  The state also holds the console,
  the UART and the device switch, whose only entry is the console's.
\<close>

definition CONSOLE :: nat where "CONSOLE = 1"

datatype filetype = FD_NONE | FD_PIPE | FD_INODE | FD_DEVICE

record kfile =
  f_type :: filetype
  f_ref :: int
  f_readable :: bool
  f_writable :: bool
  f_pipe :: uint64
  f_ip :: nat
  f_off :: uint32
  f_major :: int

datatype devsw = No_device | Console_device

record fstate = istate +
  ftable :: "kfile list"
  pipes :: "uint64 \<rightharpoonup> pipe"
  cons :: cons
  uart :: uart
  devsw :: "devsw list"

definition upd_file :: "nat \<Rightarrow> (kfile \<Rightarrow> kfile) \<Rightarrow> 'a fstate_scheme \<Rightarrow> 'a fstate_scheme" where
  "upd_file f g s = s\<lparr>ftable := (ftable s)[f := g (ftable s ! f)]\<rparr>"

definition consoleinit :: "'a fstate_scheme \<Rightarrow> 'a fstate_scheme" where
  "consoleinit s =
     s\<lparr>uart := uartinit (uart s), devsw := (devsw s)[CONSOLE := Console_device]\<rparr>"

section \<open>Allocation and references\<close>

definition filealloc :: "'a fstate_scheme \<Rightarrow> nat option \<times> 'a fstate_scheme" where
  "filealloc s =
     (case first_index (\<lambda>f. f_ref f = 0) (ftable s) of
        Some f \<Rightarrow> (Some f, upd_file f (\<lambda>x. x\<lparr>f_ref := 1\<rparr>) s)
      | None \<Rightarrow> (None, s))"

definition filedup :: "nat \<Rightarrow> 'a fstate_scheme \<Rightarrow> 'a fstate_scheme res" where
  "filedup f s =
     (if f_ref (ftable s ! f) < 1 then Inl (Panic ''filedup'')
      else Inr (upd_file f (\<lambda>x. x\<lparr>f_ref := f_ref x + 1\<rparr>) s))"

definition pipeclose :: "nat \<Rightarrow> uint64 \<Rightarrow> bool \<Rightarrow> 'a fstate_scheme \<Rightarrow> 'a fstate_scheme res" where
  "pipeclose me a writable s =
     (case pipes s a of
        None \<Rightarrow> Inl (Fault ''pipe'')
      | Some pi \<Rightarrow>
          let (pi, s) =
            (if writable then (pi\<lparr>writeopen := False\<rparr>, wakeup (Some me) (Chan_pipe_read a) s)
             else (pi\<lparr>readopen := False\<rparr>, wakeup (Some me) (Chan_pipe_write a) s)) in
          if \<not> readopen pi \<and> \<not> writeopen pi
          then kfree a (s\<lparr>pipes := (pipes s)(a := None)\<rparr>)
          else Inr (s\<lparr>pipes := (pipes s)(a \<mapsto> pi)\<rparr>))"

definition fileclose :: "nat \<Rightarrow> nat \<Rightarrow> 'a fstate_scheme \<Rightarrow> 'a fstate_scheme res" where
  "fileclose me f s =
     (if f_ref (ftable s ! f) < 1 then Inl (Panic ''fileclose'')
      else
        let s = upd_file f (\<lambda>x. x\<lparr>f_ref := f_ref x - 1\<rparr>) s in
        if f_ref (ftable s ! f) > 0 then Inr s
        else
          let ff = ftable s ! f;
              s = upd_file f (\<lambda>x. x\<lparr>f_ref := 0, f_type := FD_NONE\<rparr>) s in
          if f_type ff = FD_PIPE then pipeclose me (f_pipe ff) (f_writable ff) s
          else if f_type ff = FD_INODE \<or> f_type ff = FD_DEVICE
          then rbind (begin_op s) (\<lambda>s. rbind (iput me (f_ip ff) s) (\<lambda>s. end_op me s))
          else Inr s)"

text \<open>\<open>pipealloc\<close> and its error exit; the new page is full of fives (\<open>kalloc\<close>).\<close>

definition pipealloc_bad :: "nat \<Rightarrow> nat option \<Rightarrow> nat option \<Rightarrow> 'a fstate_scheme \<Rightarrow> 'a fstate_scheme res" where
  "pipealloc_bad me f0 f1 s =
     rbind (case f0 of Some f \<Rightarrow> fileclose me f s | None \<Rightarrow> Inr s) (\<lambda>s.
     case f1 of Some f \<Rightarrow> fileclose me f s | None \<Rightarrow> Inr s)"

definition pipealloc :: "nat \<Rightarrow> 'a fstate_scheme \<Rightarrow> ((nat \<times> nat) option \<times> 'a fstate_scheme) res" where
  "pipealloc me s =
     (case filealloc s of
        (None, s) \<Rightarrow> rbind (pipealloc_bad me None None s) (\<lambda>s. Inr (None, s))
      | (Some f0, s) \<Rightarrow>
          (case filealloc s of
             (None, s) \<Rightarrow> rbind (pipealloc_bad me (Some f0) None s) (\<lambda>s. Inr (None, s))
           | (Some f1, s) \<Rightarrow>
               let (a, s) = kalloc s in
               if a = 0 then rbind (pipealloc_bad me (Some f0) (Some f1) s) (\<lambda>s. Inr (None, s))
               else
                 let s = s\<lparr>pipes := (pipes s)(a \<mapsto>
                       \<lparr>pipe_data = replicate PIPESIZE 5, nread = 0, nwrite = 0, readopen = True, writeopen = True\<rparr>)\<rparr>;
                     s = upd_file f0 (\<lambda>x. x\<lparr>f_type := FD_PIPE, f_readable := True, f_writable := False, f_pipe := a\<rparr>) s;
                     s = upd_file f1 (\<lambda>x. x\<lparr>f_type := FD_PIPE, f_readable := False, f_writable := True, f_pipe := a\<rparr>) s in
                 Inr (Some (f0, f1), s)))"

section \<open>Reading and writing\<close>

text \<open>\<open>struct stat\<close> as the user program sees it.\<close>

definition stat_bytes :: "stat \<Rightarrow> bytes" where
  "stat_bytes st = word_bytes 4 (st_dev st) @ word_bytes 4 (st_ino st) @ word_bytes 2 (st_type st) @
     word_bytes 2 (st_nlink st) @ word_bytes 4 (0 :: uint32) @ word_bytes 8 (st_size st)"

definition filestat :: "nat \<Rightarrow> nat \<Rightarrow> uint64 \<Rightarrow> 'a fstate_scheme \<Rightarrow> (int \<times> 'a fstate_scheme) res" where
  "filestat me f addr s =
     (let ff = ftable s ! f in
      if f_type ff = FD_INODE \<or> f_type ff = FD_DEVICE
      then
        rbind (ilock me (f_ip ff) s) (\<lambda>s.
        let st = stati (f_ip ff) s in
        rbind (iunlock me (f_ip ff) s) (\<lambda>s.
        rbind (copyout (p_pagetable (procs s ! me)) addr (stat_bytes st) s) (\<lambda>(r, s).
        Inr (if r < 0 then -1 else 0, s))))
      else Inr (-1, s))"

definition pipe_call ::
  "uint64 \<Rightarrow> (pipe \<Rightarrow> 'a fstate_scheme \<Rightarrow> (int blocked \<times> pipe \<times> 'a fstate_scheme) res) \<Rightarrow>
   'a fstate_scheme \<Rightarrow> (int blocked \<times> 'a fstate_scheme) res" where
  "pipe_call a op s =
     (case pipes s a of
        None \<Rightarrow> Inl (Fault ''pipe'')
      | Some pi \<Rightarrow> rbind (op pi s) (\<lambda>(r, pi, s). Inr (r, s\<lparr>pipes := (pipes s)(a \<mapsto> pi)\<rparr>)))"

definition device_ok :: "kfile \<Rightarrow> 'a fstate_scheme \<Rightarrow> bool" where
  "device_ok ff s \<longleftrightarrow> 0 \<le> f_major ff \<and> f_major ff < int NDEV \<and> devsw s ! nat (f_major ff) \<noteq> No_device"

definition fileread :: "nat \<Rightarrow> nat \<Rightarrow> uint64 \<Rightarrow> int \<Rightarrow> 'a fstate_scheme \<Rightarrow> (int blocked \<times> 'a fstate_scheme) res" where
  "fileread me f addr n s =
     (let ff = ftable s ! f in
      if \<not> f_readable ff then Inr (Done (-1), s)
      else case f_type ff of
        FD_PIPE \<Rightarrow> pipe_call (f_pipe ff) (piperead me (f_pipe ff) addr n) s
      | FD_DEVICE \<Rightarrow>
          if \<not> device_ok ff s then Inr (Done (-1), s)
          else rbind (consoleread me (To_user addr) n (cons s) s) (\<lambda>(r, co, s). Inr (r, s\<lparr>cons := co\<rparr>))
      | FD_INODE \<Rightarrow>
          rbind (ilock me (f_ip ff) s) (\<lambda>s.
          rbind (readi me (f_ip ff) (To_user addr) (f_off (ftable s ! f)) (word_of_int n) s) (\<lambda>(r, _, s).
          let s = (if r > 0 then upd_file f (\<lambda>x. x\<lparr>f_off := f_off x + word_of_int r\<rparr>) s else s) in
          rbind (iunlock me (f_ip ff) s) (\<lambda>s. Inr (Done r, s))))
      | FD_NONE \<Rightarrow> Inl (Panic ''fileread''))"

definition max_chunk :: int where "max_chunk = ((int MAXOPBLOCKS - 1 - 1 - 2) div 2) * int BSIZE"

text \<open>The chunks of a file write, each in a transaction of its own.\<close>

function filewrite_loop ::
  "nat \<Rightarrow> nat \<Rightarrow> uint64 \<Rightarrow> int \<Rightarrow> int \<Rightarrow> 'a fstate_scheme \<Rightarrow> (int \<times> 'a fstate_scheme) res" where
  "filewrite_loop me f addr n i s =
     (if i < n
      then
        let n1 = min (n - i) max_chunk; ip = f_ip (ftable s ! f) in
        rbind (begin_op s) (\<lambda>s.
        rbind (ilock me ip s) (\<lambda>s.
        rbind (writei me ip (From_user (addr + word_of_int i)) (f_off (ftable s ! f)) (word_of_int n1) s) (\<lambda>(r, s).
        let s = (if r > 0 then upd_file f (\<lambda>x. x\<lparr>f_off := f_off x + word_of_int r\<rparr>) s else s) in
        rbind (iunlock me ip s) (\<lambda>s.
        rbind (end_op me s) (\<lambda>s.
        if r \<noteq> n1 then Inr (i, s) else filewrite_loop me f addr n (i + r) s)))))
      else Inr (i, s))"
  by pat_completeness auto
termination
  by (relation "measure (\<lambda>(me, f, addr, n, i, s). nat (n - i))")
     (auto simp: max_chunk_def MAXOPBLOCKS_def BSIZE_def)

declare filewrite_loop.simps [simp del]

definition filewrite :: "nat \<Rightarrow> nat \<Rightarrow> uint64 \<Rightarrow> int \<Rightarrow> 'a fstate_scheme \<Rightarrow> (int blocked \<times> 'a fstate_scheme) res" where
  "filewrite me f addr n s =
     (let ff = ftable s ! f in
      if \<not> f_writable ff then Inr (Done (-1), s)
      else case f_type ff of
        FD_PIPE \<Rightarrow> pipe_call (f_pipe ff) (pipewrite me (f_pipe ff) addr n) s
      | FD_DEVICE \<Rightarrow>
          if \<not> device_ok ff s then Inr (Done (-1), s)
          else rbind (consolewrite me (From_user addr) n (uart s) s) (\<lambda>(r, u, s). Inr (r, s\<lparr>uart := u\<rparr>))
      | FD_INODE \<Rightarrow> rbind (filewrite_loop me f addr n 0 s) (\<lambda>(i, s). Inr (Done (if i = n then n else -1), s))
      | FD_NONE \<Rightarrow> Inl (Panic ''filewrite''))"

end
