(* ===== verification/Virtio.thy ===== *)
theory Virtio
  imports Bio
begin

text \<open>
  The driver of the virtio disk (\<open>kernel/virtio_disk.c\<close>, \<open>kernel/virtio.h\<close>).  The descriptor table and
  the two rings are records; a descriptor's address names the object it points to.  The registers of
  the device are read through a function given from outside, and the writes to them are recorded.
  \<open>virtio_disk_rw\<close> is split where it sleeps: submitting a request, waiting, and freeing its chain.
\<close>

section \<open>Registers and structures (kernel/virtio.h)\<close>

definition VIRTIO_MMIO_MAGIC_VALUE :: nat where "VIRTIO_MMIO_MAGIC_VALUE = 0x000"
definition VIRTIO_MMIO_VERSION :: nat where "VIRTIO_MMIO_VERSION = 0x004"
definition VIRTIO_MMIO_DEVICE_ID :: nat where "VIRTIO_MMIO_DEVICE_ID = 0x008"
definition VIRTIO_MMIO_VENDOR_ID :: nat where "VIRTIO_MMIO_VENDOR_ID = 0x00c"
definition VIRTIO_MMIO_DEVICE_FEATURES :: nat where "VIRTIO_MMIO_DEVICE_FEATURES = 0x010"
definition VIRTIO_MMIO_DRIVER_FEATURES :: nat where "VIRTIO_MMIO_DRIVER_FEATURES = 0x020"
definition VIRTIO_MMIO_QUEUE_SEL :: nat where "VIRTIO_MMIO_QUEUE_SEL = 0x030"
definition VIRTIO_MMIO_QUEUE_NUM_MAX :: nat where "VIRTIO_MMIO_QUEUE_NUM_MAX = 0x034"
definition VIRTIO_MMIO_QUEUE_NUM :: nat where "VIRTIO_MMIO_QUEUE_NUM = 0x038"
definition VIRTIO_MMIO_QUEUE_READY :: nat where "VIRTIO_MMIO_QUEUE_READY = 0x044"
definition VIRTIO_MMIO_QUEUE_NOTIFY :: nat where "VIRTIO_MMIO_QUEUE_NOTIFY = 0x050"
definition VIRTIO_MMIO_INTERRUPT_STATUS :: nat where "VIRTIO_MMIO_INTERRUPT_STATUS = 0x060"
definition VIRTIO_MMIO_INTERRUPT_ACK :: nat where "VIRTIO_MMIO_INTERRUPT_ACK = 0x064"
definition VIRTIO_MMIO_STATUS :: nat where "VIRTIO_MMIO_STATUS = 0x070"
definition VIRTIO_MMIO_QUEUE_DESC_LOW :: nat where "VIRTIO_MMIO_QUEUE_DESC_LOW = 0x080"
definition VIRTIO_MMIO_QUEUE_DESC_HIGH :: nat where "VIRTIO_MMIO_QUEUE_DESC_HIGH = 0x084"
definition VIRTIO_MMIO_DRIVER_DESC_LOW :: nat where "VIRTIO_MMIO_DRIVER_DESC_LOW = 0x090"
definition VIRTIO_MMIO_DRIVER_DESC_HIGH :: nat where "VIRTIO_MMIO_DRIVER_DESC_HIGH = 0x094"
definition VIRTIO_MMIO_DEVICE_DESC_LOW :: nat where "VIRTIO_MMIO_DEVICE_DESC_LOW = 0x0a0"
definition VIRTIO_MMIO_DEVICE_DESC_HIGH :: nat where "VIRTIO_MMIO_DEVICE_DESC_HIGH = 0x0a4"
definition VIRTIO_CONFIG_S_ACKNOWLEDGE :: uint32 where "VIRTIO_CONFIG_S_ACKNOWLEDGE = 1"
definition VIRTIO_CONFIG_S_DRIVER :: uint32 where "VIRTIO_CONFIG_S_DRIVER = 2"
definition VIRTIO_CONFIG_S_DRIVER_OK :: uint32 where "VIRTIO_CONFIG_S_DRIVER_OK = 4"
definition VIRTIO_CONFIG_S_FEATURES_OK :: uint32 where "VIRTIO_CONFIG_S_FEATURES_OK = 8"
definition VIRTIO_BLK_F_RO :: nat where "VIRTIO_BLK_F_RO = 5"
definition VIRTIO_BLK_F_SCSI :: nat where "VIRTIO_BLK_F_SCSI = 7"
definition VIRTIO_BLK_F_CONFIG_WCE :: nat where "VIRTIO_BLK_F_CONFIG_WCE = 11"
definition VIRTIO_BLK_F_MQ :: nat where "VIRTIO_BLK_F_MQ = 12"
definition VIRTIO_F_ANY_LAYOUT :: nat where "VIRTIO_F_ANY_LAYOUT = 27"
definition VIRTIO_RING_F_INDIRECT_DESC :: nat where "VIRTIO_RING_F_INDIRECT_DESC = 28"
definition VIRTIO_RING_F_EVENT_IDX :: nat where "VIRTIO_RING_F_EVENT_IDX = 29"
definition NUM :: nat where "NUM = 8"
definition VRING_DESC_F_NEXT :: uint16 where "VRING_DESC_F_NEXT = 1"
definition VRING_DESC_F_WRITE :: uint16 where "VRING_DESC_F_WRITE = 2"
definition VIRTIO_BLK_T_IN :: uint32 where "VIRTIO_BLK_T_IN = 0"
definition VIRTIO_BLK_T_OUT :: uint32 where "VIRTIO_BLK_T_OUT = 1"

text \<open>What a descriptor points to: nothing, a request header, a buffer's data, a status byte.\<close>

datatype dma = Dma_null | Dma_op nat | Dma_data nat | Dma_status nat

record virtq_desc =
  d_addr :: dma
  d_len :: uint32
  d_flags :: uint16
  d_next :: uint16

record virtio_blk_req =
  req_type :: uint32
  req_reserved :: uint32
  req_sector :: uint64

record vdisk =
  vd_desc :: "virtq_desc list"
  avail_idx :: uint16
  avail_ring :: "uint16 list"
  used_ring_idx :: uint16
  used_ring :: "uint32 list"
  vd_free :: "bool list"
  used_idx :: uint16
  info_b :: "nat option list"
  info_status :: "uint8 list"
  vd_ops :: "virtio_blk_req list"
  vd_regs :: "(nat \<times> uint32) list"

definition write_mmio :: "nat \<Rightarrow> uint32 \<Rightarrow> vdisk \<Rightarrow> vdisk" where
  "write_mmio r v d = d\<lparr>vd_regs := vd_regs d @ [(r, v)]\<rparr>"

definition zero_desc :: virtq_desc where
  "zero_desc = \<lparr>d_addr = Dma_null, d_len = 0, d_flags = 0, d_next = 0\<rparr>"

definition upd_desc :: "nat \<Rightarrow> (virtq_desc \<Rightarrow> virtq_desc) \<Rightarrow> vdisk \<Rightarrow> vdisk" where
  "upd_desc i f d = d\<lparr>vd_desc := (vd_desc d)[i := f (vd_desc d ! i)]\<rparr>"

section \<open>Initialisation\<close>

definition negotiate :: "uint32 \<Rightarrow> uint32" where
  "negotiate features =
     (let features = ucast features :: uint64;
          features = features AND NOT (push_bit VIRTIO_BLK_F_RO 1);
          features = features AND NOT (push_bit VIRTIO_BLK_F_SCSI 1);
          features = features AND NOT (push_bit VIRTIO_BLK_F_CONFIG_WCE 1);
          features = features AND NOT (push_bit VIRTIO_BLK_F_MQ 1);
          features = features AND NOT (push_bit VIRTIO_F_ANY_LAYOUT 1);
          features = features AND NOT (push_bit VIRTIO_RING_F_EVENT_IDX 1);
          features = features AND NOT (push_bit VIRTIO_RING_F_INDIRECT_DESC 1)
      in ucast features)"

definition virtio_disk_init ::
  "(nat \<Rightarrow> uint32) \<Rightarrow> vdisk \<Rightarrow> 'a kmem_scheme \<Rightarrow> (vdisk \<times> 'a kmem_scheme) res" where
  "virtio_disk_init R d s =
     (if R VIRTIO_MMIO_MAGIC_VALUE \<noteq> 0x74726976 \<or> R VIRTIO_MMIO_VERSION \<noteq> 2 \<or>
         R VIRTIO_MMIO_DEVICE_ID \<noteq> 2 \<or> R VIRTIO_MMIO_VENDOR_ID \<noteq> 0x554d4551
      then Inl (Panic ''could not find virtio disk'')
      else
        let status = 0;
            d = write_mmio VIRTIO_MMIO_STATUS status d;
            status = status OR VIRTIO_CONFIG_S_ACKNOWLEDGE;
            d = write_mmio VIRTIO_MMIO_STATUS status d;
            status = status OR VIRTIO_CONFIG_S_DRIVER;
            d = write_mmio VIRTIO_MMIO_STATUS status d;
            d = write_mmio VIRTIO_MMIO_DRIVER_FEATURES (negotiate (R VIRTIO_MMIO_DEVICE_FEATURES)) d;
            status = status OR VIRTIO_CONFIG_S_FEATURES_OK;
            d = write_mmio VIRTIO_MMIO_STATUS status d;
            status = R VIRTIO_MMIO_STATUS in
        if status AND VIRTIO_CONFIG_S_FEATURES_OK = 0 then Inl (Panic ''virtio disk FEATURES_OK unset'')
        else
          let d = write_mmio VIRTIO_MMIO_QUEUE_SEL 0 d in
          if R VIRTIO_MMIO_QUEUE_READY \<noteq> 0 then Inl (Panic ''virtio disk should not be ready'')
          else if R VIRTIO_MMIO_QUEUE_NUM_MAX = 0 then Inl (Panic ''virtio disk has no queue 0'')
          else if R VIRTIO_MMIO_QUEUE_NUM_MAX < of_nat NUM then Inl (Panic ''virtio disk max queue too short'')
          else
            let (desc, s) = kalloc s; (avail, s) = kalloc s; (used, s) = kalloc s in
            if desc = 0 \<or> avail = 0 \<or> used = 0 then Inl (Panic ''virtio disk kalloc'')
            else
              let s = s\<lparr>pmem := memset (pmem s) desc 0 4096\<rparr>;
                  s = s\<lparr>pmem := memset (pmem s) avail 0 4096\<rparr>;
                  s = s\<lparr>pmem := memset (pmem s) used 0 4096\<rparr>;
                  d = d\<lparr>vd_desc := replicate NUM zero_desc, avail_idx := 0, avail_ring := replicate NUM 0,
                        used_ring_idx := 0, used_ring := replicate NUM 0\<rparr>;
                  d = write_mmio VIRTIO_MMIO_QUEUE_NUM (of_nat NUM) d;
                  d = write_mmio VIRTIO_MMIO_QUEUE_DESC_LOW (ucast desc) d;
                  d = write_mmio VIRTIO_MMIO_QUEUE_DESC_HIGH (ucast (drop_bit 32 desc)) d;
                  d = write_mmio VIRTIO_MMIO_DRIVER_DESC_LOW (ucast avail) d;
                  d = write_mmio VIRTIO_MMIO_DRIVER_DESC_HIGH (ucast (drop_bit 32 avail)) d;
                  d = write_mmio VIRTIO_MMIO_DEVICE_DESC_LOW (ucast used) d;
                  d = write_mmio VIRTIO_MMIO_DEVICE_DESC_HIGH (ucast (drop_bit 32 used)) d;
                  d = write_mmio VIRTIO_MMIO_QUEUE_READY 1 d;
                  d = d\<lparr>vd_free := replicate NUM True\<rparr>;
                  status = status OR VIRTIO_CONFIG_S_DRIVER_OK;
                  d = write_mmio VIRTIO_MMIO_STATUS status d in
              Inr (d, s))"

section \<open>Descriptors\<close>

definition alloc_desc :: "vdisk \<Rightarrow> nat option \<times> vdisk" where
  "alloc_desc d =
     (case first_index (\<lambda>x. x) (vd_free d) of
        Some i \<Rightarrow> (Some i, d\<lparr>vd_free := (vd_free d)[i := False]\<rparr>)
      | None \<Rightarrow> (None, d))"

definition free_desc :: "nat option \<Rightarrow> nat \<Rightarrow> vdisk \<Rightarrow> 'a pstate_scheme \<Rightarrow> (vdisk \<times> 'a pstate_scheme) res" where
  "free_desc me i d s =
     (if NUM \<le> i then Inl (Panic ''free_desc 1'')
      else if vd_free d ! i then Inl (Panic ''free_desc 2'')
      else
        let d = upd_desc i (\<lambda>_. zero_desc) d in
        Inr (d\<lparr>vd_free := (vd_free d)[i := True]\<rparr>, wakeup me Chan_disk_free s))"

text \<open>
  The loop of \<open>free_chain\<close>: each turn frees a descriptor that was in use and panics otherwise, so
  \<open>NUM + 1\<close> turns always suffice.
\<close>

fun free_chain_loop :: "nat \<Rightarrow> nat option \<Rightarrow> nat \<Rightarrow> vdisk \<Rightarrow> 'a pstate_scheme \<Rightarrow> (vdisk \<times> 'a pstate_scheme) res" where
  "free_chain_loop 0 me i d s = Inl (Fault ''free_chain'')"
| "free_chain_loop (Suc k) me i d s =
     (let flag = d_flags (vd_desc d ! i); nxt = d_next (vd_desc d ! i) in
      rbind (free_desc me i d s) (\<lambda>(d, s).
      if flag AND VRING_DESC_F_NEXT \<noteq> 0 then free_chain_loop k me (unat nxt) d s else Inr (d, s)))"

definition free_chain :: "nat option \<Rightarrow> nat \<Rightarrow> vdisk \<Rightarrow> 'a pstate_scheme \<Rightarrow> (vdisk \<times> 'a pstate_scheme) res" where
  "free_chain me i d s = free_chain_loop (NUM + 1) me i d s"

fun free_list :: "nat option \<Rightarrow> nat list \<Rightarrow> vdisk \<Rightarrow> 'a pstate_scheme \<Rightarrow> (vdisk \<times> 'a pstate_scheme) res" where
  "free_list me [] d s = Inr (d, s)"
| "free_list me (i # is) d s = rbind (free_desc me i d s) (\<lambda>(d, s). free_list me is d s)"

fun alloc_descs ::
  "nat option \<Rightarrow> nat \<Rightarrow> nat list \<Rightarrow> vdisk \<Rightarrow> 'a pstate_scheme \<Rightarrow> (nat list option \<times> vdisk \<times> 'a pstate_scheme) res" where
  "alloc_descs me 0 idx d s = Inr (Some idx, d, s)"
| "alloc_descs me (Suc k) idx d s =
     (case alloc_desc d of
        (Some i, d) \<Rightarrow> alloc_descs me k (idx @ [i]) d s
      | (None, d) \<Rightarrow> rbind (free_list me idx d s) (\<lambda>(d, s). Inr (None, d, s)))"

definition alloc3_desc ::
  "nat option \<Rightarrow> vdisk \<Rightarrow> 'a pstate_scheme \<Rightarrow> (nat list option \<times> vdisk \<times> 'a pstate_scheme) res" where
  "alloc3_desc me d s = alloc_descs me 3 [] d s"

section \<open>Requests\<close>

text \<open>Formatting the request of buffer \<open>b\<close> in the three descriptors \<open>i0\<close>, \<open>i1\<close> and \<open>i2\<close>.\<close>

definition format_request :: "nat \<Rightarrow> bool \<Rightarrow> uint64 \<Rightarrow> nat \<Rightarrow> nat \<Rightarrow> nat \<Rightarrow> vdisk \<Rightarrow> vdisk" where
  "format_request b write sector i0 i1 i2 d =
     (let d = d\<lparr>vd_ops := (vd_ops d)[i0 := \<lparr>req_type = (if write then VIRTIO_BLK_T_OUT else VIRTIO_BLK_T_IN),
                  req_reserved = 0, req_sector = sector\<rparr>]\<rparr>;
          d = upd_desc i0 (\<lambda>_. \<lparr>d_addr = Dma_op i0, d_len = 16, d_flags = VRING_DESC_F_NEXT, d_next = of_nat i1\<rparr>) d;
          d = upd_desc i1 (\<lambda>_. \<lparr>d_addr = Dma_data b, d_len = of_nat BSIZE,
                d_flags = (if write then 0 else VRING_DESC_F_WRITE) OR VRING_DESC_F_NEXT, d_next = of_nat i2\<rparr>) d;
          d = d\<lparr>info_status := (info_status d)[i0 := 0xff]\<rparr>
      in upd_desc i2 (\<lambda>_. \<lparr>d_addr = Dma_status i0, d_len = 1, d_flags = VRING_DESC_F_WRITE, d_next = 0\<rparr>) d)"

text \<open>Up to the notification: the head of the chain, or no free descriptors and the process asleep.\<close>

definition virtio_disk_submit ::
  "nat \<Rightarrow> nat \<Rightarrow> bool \<Rightarrow> vdisk \<Rightarrow> 'a bstate_scheme \<Rightarrow> (nat option \<times> vdisk \<times> 'a bstate_scheme) res" where
  "virtio_disk_submit me b write d s =
     (let sector = ucast (b_blockno (bufs s ! b) * of_nat (BSIZE div 512)) in
      rbind (alloc3_desc (Some me) d s) (\<lambda>(r, d, s).
      case r of
        Some [i0, i1, i2] \<Rightarrow>
          let d = format_request b write sector i0 i1 i2 d;
              s = upd_buf b (\<lambda>x. x\<lparr>b_disk := True\<rparr>) s;
              d = d\<lparr>info_b := (info_b d)[i0 := Some b]\<rparr>;
              d = d\<lparr>avail_ring := (avail_ring d)[unat (avail_idx d) mod NUM := of_nat i0]\<rparr>;
              d = d\<lparr>avail_idx := avail_idx d + 1\<rparr> in
          Inr (Some i0, write_mmio VIRTIO_MMIO_QUEUE_NOTIFY 0 d, s)
      | _ \<Rightarrow> Inr (None, d, sleep me Chan_disk_free s)))"

text \<open>The wait, and the end of the request whose chain starts at \<open>i0\<close>.\<close>

definition virtio_disk_wait :: "nat \<Rightarrow> nat \<Rightarrow> 'a bstate_scheme \<Rightarrow> bool \<times> 'a bstate_scheme" where
  "virtio_disk_wait me b s = (if b_disk (bufs s ! b) then (True, sleep me (Chan_disk b) s) else (False, s))"

definition virtio_disk_finish ::
  "nat \<Rightarrow> nat \<Rightarrow> vdisk \<Rightarrow> 'a pstate_scheme \<Rightarrow> (vdisk \<times> 'a pstate_scheme) res" where
  "virtio_disk_finish me i0 d s = free_chain (Some me) i0 (d\<lparr>info_b := (info_b d)[i0 := None]\<rparr>) s"

section \<open>The interrupt\<close>

fun virtio_intr_loop :: "nat \<Rightarrow> nat option \<Rightarrow> vdisk \<Rightarrow> 'a bstate_scheme \<Rightarrow> (vdisk \<times> 'a bstate_scheme) res" where
  "virtio_intr_loop 0 me d s = Inr (d, s)"
| "virtio_intr_loop (Suc k) me d s =
     (let id = unat (used_ring d ! (unat (used_idx d) mod NUM)) in
      if NUM \<le> id then Inl (Fault ''virtio_disk_intr'')
      else if info_status d ! id \<noteq> 0 then Inl (Panic ''virtio_disk_intr status'')
      else case info_b d ! id of
        None \<Rightarrow> Inl (Fault ''virtio_disk_intr'')
      | Some b \<Rightarrow>
          virtio_intr_loop k me (d\<lparr>used_idx := used_idx d + 1\<rparr>)
            (wakeup me (Chan_disk b) (upd_buf b (\<lambda>x. x\<lparr>b_disk := False\<rparr>) s)))"

text \<open>The loop runs until its index meets the device's, \<open>used_ring_idx - used_idx\<close> turns away.\<close>

definition virtio_disk_intr ::
  "nat option \<Rightarrow> (nat \<Rightarrow> uint32) \<Rightarrow> vdisk \<Rightarrow> 'a bstate_scheme \<Rightarrow> (vdisk \<times> 'a bstate_scheme) res" where
  "virtio_disk_intr me R d s =
     (let d = write_mmio VIRTIO_MMIO_INTERRUPT_ACK (R VIRTIO_MMIO_INTERRUPT_STATUS AND 3) d in
      virtio_intr_loop (unat (used_ring_idx d - used_idx d)) me d s)"

end
