(* ===== verification/Proc.thy ===== *)
theory Proc
  imports File Virtio
begin

text \<open>
  The rest of \<open>kernel/proc.c\<close>: creating and freeing processes, \<open>fork\<close>, \<open>exit\<close> and \<open>wait\<close>, the
  scheduler and the switch between kernel threads.  The addresses that the linker gives to code are
  an argument of the operations that store them.  The machine state adds the array of CPUs and the disk driver.
\<close>

section \<open>Linker symbols\<close>

record symbols =
  sym_trampoline :: uint64
  sym_uservec :: uint64
  sym_userret :: uint64
  sym_usertrap :: uint64
  sym_kernelvec :: uint64
  sym_forkret :: uint64
  sym_etext :: uint64

section \<open>Page tables of processes\<close>

definition proc_pagetable :: "symbols \<Rightarrow> nat \<Rightarrow> 'a pstate_scheme \<Rightarrow> (uint64 \<times> 'a pstate_scheme) res" where
  "proc_pagetable K p s =
     (let (pagetable, s) = uvmcreate s in
      if pagetable = 0 then Inr (0, s)
      else
        rbind (mappages pagetable TRAMPOLINE PGSIZE (sym_trampoline K) (PTE_R OR PTE_X) s) (\<lambda>(r, s).
        if r < 0 then rbind (uvmfree pagetable 0 s) (\<lambda>s. Inr (0, s))
        else
          rbind (mappages pagetable TRAPFRAME PGSIZE (p_trapframe (procs s ! p)) (PTE_R OR PTE_W) s) (\<lambda>(r, s).
          if r < 0
          then rbind (uvmunmap pagetable TRAMPOLINE 1 False s) (\<lambda>s. rbind (uvmfree pagetable 0 s) (\<lambda>s. Inr (0, s)))
          else Inr (pagetable, s))))"

definition proc_freepagetable :: "uint64 \<Rightarrow> uint64 \<Rightarrow> 'a kmem_scheme \<Rightarrow> 'a kmem_scheme res" where
  "proc_freepagetable pagetable sz s =
     rbind (uvmunmap pagetable TRAMPOLINE 1 False s) (\<lambda>s.
     rbind (uvmunmap pagetable TRAPFRAME 1 False s) (\<lambda>s.
     uvmfree pagetable sz s))"

section \<open>Allocating and freeing a process\<close>

definition freeproc :: "nat \<Rightarrow> 'a pstate_scheme \<Rightarrow> 'a pstate_scheme res" where
  "freeproc p s =
     rbind (if p_trapframe (procs s ! p) \<noteq> 0 then kfree (p_trapframe (procs s ! p)) s else Inr s) (\<lambda>s.
     let s = upd_proc p (\<lambda>x. x\<lparr>p_trapframe := 0\<rparr>) s in
     rbind (if p_pagetable (procs s ! p) \<noteq> 0
            then proc_freepagetable (p_pagetable (procs s ! p)) (p_sz (procs s ! p)) s else Inr s) (\<lambda>s.
     Inr (upd_proc p (\<lambda>x. x\<lparr>p_pagetable := 0, p_sz := 0, p_pid := 0, p_parent := None,
        p_name := (p_name x)(0 := 0), p_chan := None, p_killed := 0, p_xstate := 0, p_state := UNUSED\<rparr>) s)))"

definition zero_kcontext :: kcontext where
  "zero_kcontext = \<lparr>ctx_ra = 0, ctx_sp = 0, ctx_s0 = 0, ctx_s1 = 0, ctx_s2 = 0, ctx_s3 = 0, ctx_s4 = 0,
     ctx_s5 = 0, ctx_s6 = 0, ctx_s7 = 0, ctx_s8 = 0, ctx_s9 = 0, ctx_s10 = 0, ctx_s11 = 0\<rparr>"

definition allocproc :: "symbols \<Rightarrow> 'a pstate_scheme \<Rightarrow> (nat option \<times> 'a pstate_scheme) res" where
  "allocproc K s =
     (case first_index (\<lambda>x. p_state x = UNUSED) (procs s) of
        None \<Rightarrow> Inr (None, s)
      | Some p \<Rightarrow>
          let (pid, s) = allocpid s;
              s = upd_proc p (\<lambda>x. x\<lparr>p_pid := pid, p_state := USED\<rparr>) s;
              (tf, s) = kalloc s;
              s = upd_proc p (\<lambda>x. x\<lparr>p_trapframe := tf\<rparr>) s in
          if tf = 0 then rbind (freeproc p s) (\<lambda>s. Inr (None, s))
          else
            rbind (proc_pagetable K p s) (\<lambda>(pt, s).
            let s = upd_proc p (\<lambda>x. x\<lparr>p_pagetable := pt\<rparr>) s in
            if pt = 0 then rbind (freeproc p s) (\<lambda>s. Inr (None, s))
            else
              Inr (Some p, upd_proc p (\<lambda>x. x\<lparr>p_context :=
                zero_kcontext\<lparr>ctx_ra := sym_forkret K, ctx_sp := p_kstack x + PGSIZE\<rparr>\<rparr>) s)))"

definition initcode :: bytes where
  "initcode =
   [0x17, 0x05, 0x00, 0x00, 0x13, 0x05, 0x45, 0x02,
    0x97, 0x05, 0x00, 0x00, 0x93, 0x85, 0x35, 0x02,
    0x93, 0x08, 0x70, 0x00, 0x73, 0x00, 0x00, 0x00,
    0x93, 0x08, 0x20, 0x00, 0x73, 0x00, 0x00, 0x00,
    0xef, 0xf0, 0x9f, 0xff, 0x2f, 0x69, 0x6e, 0x69,
    0x74, 0x00, 0x00, 0x24, 0x00, 0x00, 0x00, 0x00,
    0x00, 0x00, 0x00, 0x00]"

text \<open>A failed \<open>allocproc\<close> leaves a null pointer, which the next line reads.\<close>

definition userinit :: "symbols \<Rightarrow> 'a istate_scheme \<Rightarrow> 'a istate_scheme res" where
  "userinit K s =
     rbind (allocproc K s) (\<lambda>(r, s).
     case r of
       None \<Rightarrow> Inl (Fault ''userinit'')
     | Some p \<Rightarrow>
         let s = s\<lparr>initproc := Some p\<rparr> in
         rbind (uvmfirst (p_pagetable (procs s ! p)) initcode s) (\<lambda>s.
         let s = upd_proc p (\<lambda>x. x\<lparr>p_sz := PGSIZE\<rparr>) s;
             tf = p_trapframe (procs s ! p);
             s = tf_set tf Epc 0 s;
             s = tf_set tf Sp PGSIZE s;
             s = upd_proc p (\<lambda>x. x\<lparr>p_name := safestrcpy (p_name x) (cstr (str ''initcode'')) 16\<rparr>) s in
         rbind (namei p (str ''/'') s) (\<lambda>(cwd, s).
         Inr (upd_proc p (\<lambda>x. x\<lparr>p_cwd := cwd, p_state := RUNNABLE\<rparr>) s))))"

definition growproc :: "nat \<Rightarrow> int \<Rightarrow> 'a pstate_scheme \<Rightarrow> (int \<times> 'a pstate_scheme) res" where
  "growproc me n s =
     (let sz = p_sz (procs s ! me); pt = p_pagetable (procs s ! me) in
      if 0 < n
      then
        rbind (uvmalloc pt sz (sz + word_of_int n) PTE_W s) (\<lambda>(sz, s).
        if sz = 0 then Inr (-1, s) else Inr (0, upd_proc me (\<lambda>x. x\<lparr>p_sz := sz\<rparr>) s))
      else if n < 0
      then
        rbind (uvmdealloc pt sz (sz + word_of_int n) s) (\<lambda>(sz, s).
        Inr (0, upd_proc me (\<lambda>x. x\<lparr>p_sz := sz\<rparr>) s))
      else Inr (0, s))"

section \<open>Fork\<close>

fun fork_files :: "nat \<Rightarrow> nat \<Rightarrow> nat list \<Rightarrow> 'a fstate_scheme \<Rightarrow> 'a fstate_scheme res" where
  "fork_files p np [] s = Inr s"
| "fork_files p np (i # is) s =
     (case p_ofile (procs s ! p) ! i of
        None \<Rightarrow> fork_files p np is s
      | Some f \<Rightarrow>
          rbind (filedup f s) (\<lambda>s.
          fork_files p np is (upd_proc np (\<lambda>x. x\<lparr>p_ofile := (p_ofile x)[i := Some f]\<rparr>) s)))"

definition fork :: "symbols \<Rightarrow> nat \<Rightarrow> 'a fstate_scheme \<Rightarrow> (int \<times> 'a fstate_scheme) res" where
  "fork K me s =
     rbind (allocproc K s) (\<lambda>(r, s).
     case r of
       None \<Rightarrow> Inr (-1, s)
     | Some np \<Rightarrow>
         rbind (uvmcopy (p_pagetable (procs s ! me)) (p_pagetable (procs s ! np)) (p_sz (procs s ! me)) s) (\<lambda>(r, s).
         if r < 0 then rbind (freeproc np s) (\<lambda>s. Inr (-1, s))
         else
           let s = upd_proc np (\<lambda>x. x\<lparr>p_sz := p_sz (procs s ! me)\<rparr>) s;
               tf = p_trapframe (procs s ! np);
               s = s\<lparr>pmem := mem_write (pmem s) tf (mem_read (pmem s) (p_trapframe (procs s ! me)) tf_size)\<rparr>;
               s = tf_set tf A0 0 s in
           rbind (fork_files me np [0..<NOFILE] s) (\<lambda>s.
           case p_cwd (procs s ! me) of
             None \<Rightarrow> Inl (Fault ''idup'')
           | Some cwd \<Rightarrow>
               let (ip, s) = idup cwd s;
                   s = upd_proc np (\<lambda>x. x\<lparr>p_cwd := Some ip\<rparr>) s;
                   s = upd_proc np (\<lambda>x. x\<lparr>p_name := safestrcpy (p_name x) (p_name (procs s ! me)) 16\<rparr>) s;
                   pid = p_pid (procs s ! np);
                   s = upd_proc np (\<lambda>x. x\<lparr>p_parent := Some me\<rparr>) s;
                   s = upd_proc np (\<lambda>x. x\<lparr>p_state := RUNNABLE\<rparr>) s in
               Inr (pid, s))))"

section \<open>Exit and wait\<close>

fun exit_files :: "nat \<Rightarrow> nat list \<Rightarrow> 'a fstate_scheme \<Rightarrow> 'a fstate_scheme res" where
  "exit_files me [] s = Inr s"
| "exit_files me (fd # fds) s =
     (case p_ofile (procs s ! me) ! fd of
        None \<Rightarrow> exit_files me fds s
      | Some f \<Rightarrow>
          rbind (fileclose me f s) (\<lambda>s.
          exit_files me fds (upd_proc me (\<lambda>x. x\<lparr>p_ofile := (p_ofile x)[fd := None]\<rparr>) s)))"

text \<open>\<open>exit\<close> up to its call of \<open>sched\<close>, from which a zombie does not come back.\<close>

definition exit :: "nat \<Rightarrow> int \<Rightarrow> 'a fstate_scheme \<Rightarrow> 'a fstate_scheme res" where
  "exit me status s =
     (if Some me = initproc s then Inl (Panic ''init exiting'')
      else
        rbind (exit_files me [0..<NOFILE] s) (\<lambda>s.
        rbind (begin_op s) (\<lambda>s.
        case p_cwd (procs s ! me) of
          None \<Rightarrow> Inl (Fault ''iput'')
        | Some cwd \<Rightarrow>
            rbind (iput me cwd s) (\<lambda>s.
            rbind (end_op me s) (\<lambda>s.
            let s = upd_proc me (\<lambda>x. x\<lparr>p_cwd := None\<rparr>) s;
                s = reparent me s;
                s = (case p_parent (procs s ! me) of
                       Some pa \<Rightarrow> wakeup (Some me) (Chan_proc pa) s | None \<Rightarrow> s);
                s = upd_proc me (\<lambda>x. x\<lparr>p_xstate := status, p_state := ZOMBIE\<rparr>) s in
            Inr s)))))"

text \<open>The scan of \<open>wait\<close>: whether there is a child, and the first child that is a zombie.\<close>

fun wait_scan :: "nat \<Rightarrow> nat list \<Rightarrow> proc list \<Rightarrow> bool \<Rightarrow> bool \<times> nat option" where
  "wait_scan p [] ps havekids = (havekids, None)"
| "wait_scan p (pp # pps) ps havekids =
     (if p_parent (ps ! pp) = Some p
      then if p_state (ps ! pp) = ZOMBIE then (True, Some pp) else wait_scan p pps ps True
      else wait_scan p pps ps havekids)"

definition wait :: "nat \<Rightarrow> uint64 \<Rightarrow> 'a pstate_scheme \<Rightarrow> (int blocked \<times> 'a pstate_scheme) res" where
  "wait me addr s =
     (case wait_scan me [0..<length (procs s)] (procs s) False of
        (_, Some pp) \<Rightarrow>
          let pid = p_pid (procs s ! pp) in
          rbind (if addr \<noteq> 0
                 then copyout (p_pagetable (procs s ! me)) addr
                        (word_bytes 4 (word_of_int (p_xstate (procs s ! pp)) :: uint32)) s
                 else Inr (0, s)) (\<lambda>(r, s).
          if r < 0 then Inr (Done (-1), s)
          else rbind (freeproc pp s) (\<lambda>s. Inr (Done pid, s)))
      | (havekids, None) \<Rightarrow>
          if \<not> havekids \<or> killed me s \<noteq> 0 then Inr (Done (-1), s)
          else Inr (Sleeping 0, sleep me (Chan_proc me) s))"

section \<open>The scheduler\<close>

text \<open>\<open>swtch\<close> (\<open>kernel/swtch.S\<close>) saves the registers into the old context and loads them from the new one.\<close>

definition swtch :: "kcontext \<Rightarrow> kcontext \<Rightarrow> kcontext \<times> kcontext" where
  "swtch regs new = (regs, new)"

record mstate = fstate +
  cpus :: "cpu list"
  vdisk :: vdisk

definition upd_cpu :: "nat \<Rightarrow> (cpu \<Rightarrow> cpu) \<Rightarrow> 'a mstate_scheme \<Rightarrow> 'a mstate_scheme" where
  "upd_cpu c f s = s\<lparr>cpus := (cpus s)[c := f (cpus s ! c)]\<rparr>"

text \<open>
  One turn of the inner loop of \<open>scheduler\<close> on CPU \<open>c\<close>, whose registers are \<open>regs\<close>, up to the switch
  into the chosen process (the new registers), and the rest of the turn when the process comes back.
\<close>

definition scheduler_pick :: "nat \<Rightarrow> nat \<Rightarrow> kcontext \<Rightarrow> 'a mstate_scheme \<Rightarrow> (kcontext \<times> 'a mstate_scheme) option" where
  "scheduler_pick c p regs s =
     (if p_state (procs s ! p) = RUNNABLE
      then
        let s = upd_proc p (\<lambda>x. x\<lparr>p_state := RUNNING\<rparr>) s;
            s = upd_cpu c (\<lambda>x. x\<lparr>c_proc := Some p\<rparr>) s;
            (saved, regs) = swtch regs (p_context (procs s ! p)) in
        Some (regs, upd_cpu c (\<lambda>x. x\<lparr>c_context := saved\<rparr>) s)
      else None)"

definition scheduler_back :: "nat \<Rightarrow> 'a mstate_scheme \<Rightarrow> 'a mstate_scheme" where
  "scheduler_back c s = upd_cpu c (\<lambda>x. x\<lparr>c_proc := None\<rparr>) s"

text \<open>\<open>sched\<close> on CPU \<open>c\<close>, with the lock of the process and the interrupt flag: the checks, the saved
  \<open>intena\<close> and the switch to the scheduler; and what it does when the process runs again.\<close>

definition sched_enter ::
  "nat \<Rightarrow> nat \<Rightarrow> spinlock \<Rightarrow> bool \<Rightarrow> kcontext \<Rightarrow> 'a mstate_scheme \<Rightarrow> (bool \<times> kcontext \<times> 'a mstate_scheme) res" where
  "sched_enter c p lk intr regs s =
     (if \<not> holding c lk then Inl (Panic ''sched p->lock'')
      else if c_noff (cpus s ! c) \<noteq> 1 then Inl (Panic ''sched locks'')
      else if p_state (procs s ! p) = RUNNING then Inl (Panic ''sched running'')
      else if intr then Inl (Panic ''sched interruptible'')
      else
        let intena = c_intena (cpus s ! c);
            (saved, regs) = swtch regs (c_context (cpus s ! c)) in
        Inr (intena, regs, upd_proc p (\<lambda>x. x\<lparr>p_context := saved\<rparr>) s))"

definition sched_leave :: "nat \<Rightarrow> bool \<Rightarrow> 'a mstate_scheme \<Rightarrow> 'a mstate_scheme" where
  "sched_leave c intena s = upd_cpu c (\<lambda>x. x\<lparr>c_intena := intena\<rparr>) s"

text \<open>\<open>yield\<close> up to its call of \<open>sched\<close>.\<close>

definition yield :: "nat \<Rightarrow> 'a pstate_scheme \<Rightarrow> 'a pstate_scheme" where
  "yield me s = upd_proc me (\<lambda>x. x\<lparr>p_state := RUNNABLE\<rparr>) s"

end
