(* ===== verification/Exec.thy ===== *)
theory Exec
  imports Proc
begin

text \<open>
  \<open>kernel/exec.c\<close> and the ELF structures of \<open>kernel/elf.h\<close>.  The argument strings are given by their
  bytes; the kernel pages that hold them belong to \<open>sys_exec\<close>.
\<close>

section \<open>ELF headers (kernel/elf.h)\<close>

definition ELF_MAGIC :: uint32 where "ELF_MAGIC = 0x464C457F"
definition ELF_PROG_LOAD :: uint32 where "ELF_PROG_LOAD = 1"

definition get64 :: "nat \<Rightarrow> bytes \<Rightarrow> uint64" where
  "get64 off d = ucast (get32 off d) OR push_bit 32 (ucast (get32 (off + 4) d))"

record elfhdr =
  elf_magic :: uint32
  elf_entry :: uint64
  elf_phoff :: uint64
  elf_phnum :: uint16

definition elfhdr_size :: nat where "elfhdr_size = 64"

definition elfhdr_get :: "bytes \<Rightarrow> elfhdr" where
  "elfhdr_get d = \<lparr>elf_magic = get32 0 d, elf_entry = get64 24 d, elf_phoff = get64 32 d, elf_phnum = get16 56 d\<rparr>"

record proghdr =
  ph_type :: uint32
  ph_flags :: uint32
  ph_off :: uint64
  ph_vaddr :: uint64
  ph_filesz :: uint64
  ph_memsz :: uint64

definition proghdr_size :: nat where "proghdr_size = 56"

definition proghdr_get :: "bytes \<Rightarrow> proghdr" where
  "proghdr_get d = \<lparr>ph_type = get32 0 d, ph_flags = get32 4 d, ph_off = get64 8 d, ph_vaddr = get64 16 d,
     ph_filesz = get64 32 d, ph_memsz = get64 40 d\<rparr>"

definition flags2perm :: "uint32 \<Rightarrow> uint64" where
  "flags2perm flags =
     (let perm = (if flags AND 1 \<noteq> 0 then PTE_X else 0) in
      if flags AND 2 \<noteq> 0 then perm OR PTE_W else perm)"

section \<open>Loading\<close>

text \<open>
  The counter of \<open>loadseg\<close> is a \<open>uint\<close>; it cannot wrap before a read beyond the largest file has failed,
  so it is a number here.
\<close>

function loadseg_loop ::
  "nat \<Rightarrow> uint64 \<Rightarrow> uint64 \<Rightarrow> nat \<Rightarrow> uint32 \<Rightarrow> nat \<Rightarrow> nat \<Rightarrow> 'a istate_scheme \<Rightarrow> (int \<times> 'a istate_scheme) res" where
  "loadseg_loop me pagetable va ip offset sz i s =
     (if i < sz
      then
        rbind (walkaddr pagetable (va + of_nat i) s) (\<lambda>pa.
        if pa = 0 then Inl (Panic ''loadseg: address should exist'')
        else
          let n = min (sz - i) 4096 in
          rbind (readi me ip (To_kernel pa) (offset + of_nat i) (of_nat n) s) (\<lambda>(r, _, s).
          if r \<noteq> int n then Inr (-1, s) else loadseg_loop me pagetable va ip offset sz (i + 4096) s))
      else Inr (0, s))"
  by pat_completeness auto
termination
  by (relation "measure (\<lambda>(me, pagetable, va, ip, offset, sz, i, s). sz - i)") auto

declare loadseg_loop.simps [simp del]

definition loadseg ::
  "nat \<Rightarrow> uint64 \<Rightarrow> uint64 \<Rightarrow> nat \<Rightarrow> uint32 \<Rightarrow> uint32 \<Rightarrow> 'a istate_scheme \<Rightarrow> (int \<times> 'a istate_scheme) res" where
  "loadseg me pagetable va ip offset sz s = loadseg_loop me pagetable va ip offset (unat sz) 0 s"

text \<open>The loop over the program headers: success, the size reached and the state.\<close>

fun exec_load ::
  "nat \<Rightarrow> nat \<Rightarrow> uint64 \<Rightarrow> nat \<Rightarrow> uint32 \<Rightarrow> uint64 \<Rightarrow> 'a istate_scheme \<Rightarrow> (bool \<times> uint64 \<times> 'a istate_scheme) res" where
  "exec_load me ip pagetable 0 off sz s = Inr (True, sz, s)"
| "exec_load me ip pagetable (Suc k) off sz s =
     rbind (readi me ip To_local off (of_nat proghdr_size) s) (\<lambda>(r, d, s).
     if r \<noteq> int proghdr_size then Inr (False, sz, s)
     else
       let ph = proghdr_get d; off' = off + of_nat proghdr_size in
       if ph_type ph \<noteq> ELF_PROG_LOAD then exec_load me ip pagetable k off' sz s
       else if ph_memsz ph < ph_filesz ph then Inr (False, sz, s)
       else if ph_vaddr ph + ph_memsz ph < ph_vaddr ph then Inr (False, sz, s)
       else if ph_vaddr ph mod PGSIZE \<noteq> 0 then Inr (False, sz, s)
       else
         rbind (uvmalloc pagetable sz (ph_vaddr ph + ph_memsz ph) (flags2perm (ph_flags ph)) s) (\<lambda>(sz1, s).
         if sz1 = 0 then Inr (False, sz, s)
         else
           rbind (loadseg me pagetable (ph_vaddr ph) ip (ucast (ph_off ph)) (ucast (ph_filesz ph)) s) (\<lambda>(r, s).
           if r < 0 then Inr (False, sz1, s) else exec_load me ip pagetable k off' sz1 s)))"

section \<open>The user stack\<close>

text \<open>Pushing the argument strings: the stack pointer and the array of pointers, or failure.\<close>

fun exec_args ::
  "uint64 \<Rightarrow> uint64 \<Rightarrow> bytes list \<Rightarrow> uint64 list \<Rightarrow> uint64 \<Rightarrow> 'a kmem_scheme \<Rightarrow> ((uint64 \<times> uint64 list) option \<times> 'a kmem_scheme) res" where
  "exec_args pagetable stackbase [] ustack sp s = Inr (Some (sp, ustack @ [0]), s)"
| "exec_args pagetable stackbase (arg # argv) ustack sp s =
     (if MAXARG \<le> length ustack then Inr (None, s)
      else
        let sp = sp - (of_nat (length arg) + 1);
            sp = sp - sp mod 16 in
        if sp < stackbase then Inr (None, s)
        else
          rbind (copyout pagetable sp (arg @ [0]) s) (\<lambda>(r, s).
          if r < 0 then Inr (None, s) else exec_args pagetable stackbase argv (ustack @ [sp]) sp s))"

text \<open>The pointers go below the strings.\<close>

definition exec_stack ::
  "uint64 \<Rightarrow> uint64 \<Rightarrow> bytes list \<Rightarrow> uint64 \<Rightarrow> 'a kmem_scheme \<Rightarrow> (uint64 option \<times> 'a kmem_scheme) res" where
  "exec_stack pagetable stackbase argv sp s =
     rbind (exec_args pagetable stackbase argv [] sp s) (\<lambda>(r, s).
     case r of
       None \<Rightarrow> Inr (None, s)
     | Some (sp, ustack) \<Rightarrow>
         let sp = sp - of_nat (length argv + 1) * 8;
             sp = sp - sp mod 16 in
         if sp < stackbase then Inr (None, s)
         else
           rbind (copyout pagetable sp (concat (map (word_bytes 8) ustack)) s) (\<lambda>(r, s).
           Inr (if r < 0 then None else Some sp, s)))"

text \<open>The name after the last slash.\<close>

fun last_elem :: "bytes \<Rightarrow> bytes \<Rightarrow> bytes" where
  "last_elem l [] = l"
| "last_elem l (c # cs) = (if c = slash then last_elem cs cs else last_elem l cs)"

section \<open>exec\<close>

definition exec_bad :: "nat \<Rightarrow> uint64 \<Rightarrow> uint64 \<Rightarrow> nat option \<Rightarrow> 'a istate_scheme \<Rightarrow> (int \<times> 'a istate_scheme) res" where
  "exec_bad me pagetable sz ip s =
     rbind (if pagetable \<noteq> 0 then proc_freepagetable pagetable sz s else Inr s) (\<lambda>s.
     rbind (case ip of Some ip \<Rightarrow> rbind (iunlockput me ip s) (\<lambda>s. end_op me s) | None \<Rightarrow> Inr s) (\<lambda>s.
     Inr (-1, s)))"

text \<open>The part after the program is in memory: the stack, and the commitment to the new image.\<close>

definition exec_commit ::
  "nat \<Rightarrow> bytes \<Rightarrow> bytes list \<Rightarrow> uint64 \<Rightarrow> uint64 \<Rightarrow> uint64 \<Rightarrow> 'a istate_scheme \<Rightarrow> (int \<times> 'a istate_scheme) res" where
  "exec_commit me path argv pagetable sz entry s =
     (let oldsz = p_sz (procs s ! me); sz = PGROUNDUP sz in
      rbind (uvmalloc pagetable sz (sz + 2 * PGSIZE) PTE_W s) (\<lambda>(sz1, s).
      if sz1 = 0 then exec_bad me pagetable sz None s
      else
        let sz = sz1 in
        rbind (uvmclear pagetable (sz - 2 * PGSIZE) s) (\<lambda>s.
        rbind (exec_stack pagetable (sz - PGSIZE) argv sz s) (\<lambda>(r, s).
        case r of
          None \<Rightarrow> exec_bad me pagetable sz None s
        | Some sp \<Rightarrow>
            let tf = p_trapframe (procs s ! me);
                s = tf_set tf A1 sp s;
                s = upd_proc me (\<lambda>x. x\<lparr>p_name := safestrcpy (p_name x) (cstr (last_elem path path)) 16\<rparr>) s;
                oldpagetable = p_pagetable (procs s ! me);
                s = upd_proc me (\<lambda>x. x\<lparr>p_pagetable := pagetable, p_sz := sz\<rparr>) s;
                s = tf_set tf Epc entry s;
                s = tf_set tf Sp sp s in
            rbind (proc_freepagetable oldpagetable oldsz s) (\<lambda>s.
            Inr (int (length argv), s))))))"

definition exec :: "symbols \<Rightarrow> nat \<Rightarrow> bytes \<Rightarrow> bytes list \<Rightarrow> 'a istate_scheme \<Rightarrow> (int \<times> 'a istate_scheme) res" where
  "exec K me path argv s =
     rbind (begin_op s) (\<lambda>s.
     rbind (namei me path s) (\<lambda>(r, s).
     case r of
       None \<Rightarrow> rbind (end_op me s) (\<lambda>s. Inr (-1, s))
     | Some ip \<Rightarrow>
         rbind (ilock me ip s) (\<lambda>s.
         rbind (readi me ip To_local 0 (of_nat elfhdr_size) s) (\<lambda>(r, d, s).
         let elf = elfhdr_get d in
         if r \<noteq> int elfhdr_size then exec_bad me 0 0 (Some ip) s
         else if elf_magic elf \<noteq> ELF_MAGIC then exec_bad me 0 0 (Some ip) s
         else
           rbind (proc_pagetable K me s) (\<lambda>(pagetable, s).
           if pagetable = 0 then exec_bad me 0 0 (Some ip) s
           else
             rbind (exec_load me ip pagetable (unat (elf_phnum elf)) (ucast (elf_phoff elf)) 0 s) (\<lambda>(ok, sz, s).
             if \<not> ok then exec_bad me pagetable sz (Some ip) s
             else
               rbind (iunlockput me ip s) (\<lambda>s.
               rbind (end_op me s) (\<lambda>s.
               exec_commit me path argv pagetable sz (elf_entry elf) s))))))))"

end
