(* ===== verification/Syscall.thy ===== *)
theory Syscall
  imports Exec
begin

text \<open>
  System call arguments (\<open>kernel/syscall.c\<close>) and the calls of \<open>kernel/sysproc.c\<close>.  A call returns the
  value for \<open>a0\<close>, puts the process to sleep, or ends it.
\<close>

section \<open>Fetching arguments\<close>

definition fetchaddr :: "nat \<Rightarrow> uint64 \<Rightarrow> 'a pstate_scheme \<Rightarrow> (int \<times> uint64) res" where
  "fetchaddr me addr s =
     (let p = procs s ! me in
      if p_sz p \<le> addr \<or> p_sz p < addr + 8 then Inr (-1, 0)
      else
        rbind (copyin (p_pagetable p) addr 8 s) (\<lambda>(r, xs).
        if r \<noteq> 0 then Inr (-1, 0) else Inr (0, get64 0 xs)))"

text \<open>The string without its terminator comes with its length.\<close>

definition fetchstr :: "nat \<Rightarrow> uint64 \<Rightarrow> int \<Rightarrow> 'a pstate_scheme \<Rightarrow> (int \<times> bytes) res" where
  "fetchstr me addr mx s =
     rbind (copyinstr (p_pagetable (procs s ! me)) addr (nat mx) s) (\<lambda>(r, xs).
     if r < 0 then Inr (-1, []) else Inr (int (length (butlast xs)), butlast xs))"

definition argraw :: "nat \<Rightarrow> nat \<Rightarrow> 'a pstate_scheme \<Rightarrow> uint64 res" where
  "argraw me n s =
     (let tf = p_trapframe (procs s ! me) in
      if n = 0 then Inr (tf_get s tf A0)
      else if n = 1 then Inr (tf_get s tf A1)
      else if n = 2 then Inr (tf_get s tf A2)
      else if n = 3 then Inr (tf_get s tf A3)
      else if n = 4 then Inr (tf_get s tf A4)
      else if n = 5 then Inr (tf_get s tf A5)
      else Inl (Panic ''argraw''))"

definition argint :: "nat \<Rightarrow> nat \<Rightarrow> 'a pstate_scheme \<Rightarrow> int res" where
  "argint me n s = rbind (argraw me n s) (\<lambda>x. Inr (sint (ucast x :: uint32)))"

definition argaddr :: "nat \<Rightarrow> nat \<Rightarrow> 'a pstate_scheme \<Rightarrow> uint64 res" where
  "argaddr me n s = argraw me n s"

definition argstr :: "nat \<Rightarrow> nat \<Rightarrow> int \<Rightarrow> 'a pstate_scheme \<Rightarrow> (int \<times> bytes) res" where
  "argstr me n mx s = rbind (argaddr me n s) (\<lambda>addr. fetchstr me addr mx s)"

section \<open>Outcomes\<close>

datatype sysret = Ret uint64 | Sleeps | Exits

fun sysret_of :: "int blocked \<Rightarrow> sysret" where
  "sysret_of (Done r) = Ret (word_of_int r)"
| "sysret_of (Sleeping _) = Sleeps"

section \<open>Process calls (kernel/sysproc.c)\<close>

definition sys_exit :: "nat \<Rightarrow> 'a fstate_scheme \<Rightarrow> (sysret \<times> 'a fstate_scheme) res" where
  "sys_exit me s = rbind (argint me 0 s) (\<lambda>n. rbind (exit me n s) (\<lambda>s. Inr (Exits, s)))"

definition sys_getpid :: "nat \<Rightarrow> 'a pstate_scheme \<Rightarrow> (sysret \<times> 'a pstate_scheme) res" where
  "sys_getpid me s = Inr (Ret (word_of_int (p_pid (procs s ! me))), s)"

definition sys_fork :: "symbols \<Rightarrow> nat \<Rightarrow> 'a fstate_scheme \<Rightarrow> (sysret \<times> 'a fstate_scheme) res" where
  "sys_fork K me s = rbind (fork K me s) (\<lambda>(r, s). Inr (Ret (word_of_int r), s))"

definition sys_wait :: "nat \<Rightarrow> 'a pstate_scheme \<Rightarrow> (sysret \<times> 'a pstate_scheme) res" where
  "sys_wait me s = rbind (argaddr me 0 s) (\<lambda>p. rbind (wait me p s) (\<lambda>(r, s). Inr (sysret_of r, s)))"

definition sys_sbrk :: "nat \<Rightarrow> 'a pstate_scheme \<Rightarrow> (sysret \<times> 'a pstate_scheme) res" where
  "sys_sbrk me s =
     rbind (argint me 0 s) (\<lambda>n.
     let addr = p_sz (procs s ! me) in
     rbind (growproc me n s) (\<lambda>(r, s). Inr (Ret (if r < 0 then -1 else addr), s)))"

text \<open>The loop of \<open>sys_sleep\<close> at a time when the call began at tick \<open>ticks0\<close>.\<close>

definition sys_sleep_loop :: "nat \<Rightarrow> uint32 \<Rightarrow> uint32 \<Rightarrow> 'a pstate_scheme \<Rightarrow> sysret \<times> 'a pstate_scheme" where
  "sys_sleep_loop me ticks0 n s =
     (if ticks s - ticks0 < n
      then if killed me s \<noteq> 0 then (Ret (-1), s) else (Sleeps, sleep me Chan_ticks s)
      else (Ret 0, s))"

definition sys_sleep :: "nat \<Rightarrow> 'a pstate_scheme \<Rightarrow> (sysret \<times> 'a pstate_scheme) res" where
  "sys_sleep me s =
     rbind (argint me 0 s) (\<lambda>n.
     let n = (if n < 0 then 0 else n) in
     Inr (sys_sleep_loop me (ticks s) (word_of_int n) s))"

definition sys_kill :: "nat \<Rightarrow> 'a pstate_scheme \<Rightarrow> (sysret \<times> 'a pstate_scheme) res" where
  "sys_kill me s = rbind (argint me 0 s) (\<lambda>pid. let (r, s) = kill pid s in Inr (Ret (word_of_int r), s))"

definition sys_uptime :: "nat \<Rightarrow> 'a pstate_scheme \<Rightarrow> (sysret \<times> 'a pstate_scheme) res" where
  "sys_uptime me s = Inr (Ret (ucast (ticks s)), s)"

end
