(* ===== verification/Sysfile.thy ===== *)
theory Sysfile
  imports Syscall
begin

text \<open>
  The file system calls (\<open>kernel/sysfile.c\<close>): every call with its argument checks and its error exits,
  and the dispatch of \<open>kernel/syscall.c\<close>.
\<close>

definition O_RDONLY :: uint32 where "O_RDONLY = 0x000"
definition O_WRONLY :: uint32 where "O_WRONLY = 0x001"
definition O_RDWR :: uint32 where "O_RDWR = 0x002"
definition O_CREATE :: uint32 where "O_CREATE = 0x200"
definition O_TRUNC :: uint32 where "O_TRUNC = 0x400"

section \<open>Descriptors\<close>

definition argfd :: "nat \<Rightarrow> nat \<Rightarrow> 'a pstate_scheme \<Rightarrow> (nat \<times> nat) option res" where
  "argfd me n s =
     rbind (argint me n s) (\<lambda>fd.
     Inr (if fd < 0 \<or> int NOFILE \<le> fd then None
          else case p_ofile (procs s ! me) ! nat fd of None \<Rightarrow> None | Some f \<Rightarrow> Some (nat fd, f)))"

definition fdalloc :: "nat \<Rightarrow> nat \<Rightarrow> 'a pstate_scheme \<Rightarrow> nat option \<times> 'a pstate_scheme" where
  "fdalloc me f s =
     (case first_index (\<lambda>x. x = None) (take NOFILE (p_ofile (procs s ! me))) of
        Some fd \<Rightarrow> (Some fd, upd_proc me (\<lambda>x. x\<lparr>p_ofile := (p_ofile x)[fd := Some f]\<rparr>) s)
      | None \<Rightarrow> (None, s))"

definition clear_fd :: "nat \<Rightarrow> nat \<Rightarrow> 'a pstate_scheme \<Rightarrow> 'a pstate_scheme" where
  "clear_fd me fd s = upd_proc me (\<lambda>x. x\<lparr>p_ofile := (p_ofile x)[fd := None]\<rparr>) s"

definition sys_dup :: "nat \<Rightarrow> 'a fstate_scheme \<Rightarrow> (sysret \<times> 'a fstate_scheme) res" where
  "sys_dup me s =
     rbind (argfd me 0 s) (\<lambda>r.
     case r of
       None \<Rightarrow> Inr (Ret (-1), s)
     | Some (_, f) \<Rightarrow>
         (case fdalloc me f s of
            (None, s) \<Rightarrow> Inr (Ret (-1), s)
          | (Some fd, s) \<Rightarrow> rbind (filedup f s) (\<lambda>s. Inr (Ret (of_nat fd), s))))"

definition sys_read :: "nat \<Rightarrow> 'a fstate_scheme \<Rightarrow> (sysret \<times> 'a fstate_scheme) res" where
  "sys_read me s =
     rbind (argaddr me 1 s) (\<lambda>p.
     rbind (argint me 2 s) (\<lambda>n.
     rbind (argfd me 0 s) (\<lambda>r.
     case r of
       None \<Rightarrow> Inr (Ret (-1), s)
     | Some (_, f) \<Rightarrow> rbind (fileread me f p n s) (\<lambda>(r, s). Inr (sysret_of r, s)))))"

definition sys_write :: "nat \<Rightarrow> 'a fstate_scheme \<Rightarrow> (sysret \<times> 'a fstate_scheme) res" where
  "sys_write me s =
     rbind (argaddr me 1 s) (\<lambda>p.
     rbind (argint me 2 s) (\<lambda>n.
     rbind (argfd me 0 s) (\<lambda>r.
     case r of
       None \<Rightarrow> Inr (Ret (-1), s)
     | Some (_, f) \<Rightarrow> rbind (filewrite me f p n s) (\<lambda>(r, s). Inr (sysret_of r, s)))))"

definition sys_close :: "nat \<Rightarrow> 'a fstate_scheme \<Rightarrow> (sysret \<times> 'a fstate_scheme) res" where
  "sys_close me s =
     rbind (argfd me 0 s) (\<lambda>r.
     case r of
       None \<Rightarrow> Inr (Ret (-1), s)
     | Some (fd, f) \<Rightarrow> rbind (fileclose me f (clear_fd me fd s)) (\<lambda>s. Inr (Ret 0, s)))"

definition sys_fstat :: "nat \<Rightarrow> 'a fstate_scheme \<Rightarrow> (sysret \<times> 'a fstate_scheme) res" where
  "sys_fstat me s =
     rbind (argaddr me 1 s) (\<lambda>st.
     rbind (argfd me 0 s) (\<lambda>r.
     case r of
       None \<Rightarrow> Inr (Ret (-1), s)
     | Some (_, f) \<Rightarrow> rbind (filestat me f st s) (\<lambda>(r, s). Inr (Ret (word_of_int r), s))))"

section \<open>Links\<close>

definition link_bad :: "nat \<Rightarrow> nat \<Rightarrow> 'a istate_scheme \<Rightarrow> (sysret \<times> 'a istate_scheme) res" where
  "link_bad me ip s =
     rbind (ilock me ip s) (\<lambda>s.
     rbind (iupdate me ip (upd_inode ip (\<lambda>i. i\<lparr>i_nlink := i_nlink i - 1\<rparr>) s)) (\<lambda>s.
     rbind (iunlockput me ip s) (\<lambda>s.
     rbind (end_op me s) (\<lambda>s. Inr (Ret (-1), s)))))"

definition sys_link :: "nat \<Rightarrow> 'a istate_scheme \<Rightarrow> (sysret \<times> 'a istate_scheme) res" where
  "sys_link me s =
     rbind (argstr me 0 (int MAXPATH) s) (\<lambda>(r, old).
     if r < 0 then Inr (Ret (-1), s)
     else
       rbind (argstr me 1 (int MAXPATH) s) (\<lambda>(r, new).
       if r < 0 then Inr (Ret (-1), s)
       else
         rbind (begin_op s) (\<lambda>s.
         rbind (namei me old s) (\<lambda>(r, s).
         case r of
           None \<Rightarrow> rbind (end_op me s) (\<lambda>s. Inr (Ret (-1), s))
         | Some ip \<Rightarrow>
             rbind (ilock me ip s) (\<lambda>s.
             if i_type (ino s ip) = T_DIR
             then rbind (iunlockput me ip s) (\<lambda>s. rbind (end_op me s) (\<lambda>s. Inr (Ret (-1), s)))
             else
               rbind (iupdate me ip (upd_inode ip (\<lambda>i. i\<lparr>i_nlink := i_nlink i + 1\<rparr>) s)) (\<lambda>s.
               rbind (iunlock me ip s) (\<lambda>s.
               rbind (nameiparent me new s) (\<lambda>(r, nm, s).
               case r of
                 None \<Rightarrow> link_bad me ip s
               | Some dp \<Rightarrow>
                   rbind (ilock me dp s) (\<lambda>s.
                   if i_dev (ino s dp) \<noteq> i_dev (ino s ip)
                   then rbind (iunlockput me dp s) (\<lambda>s. link_bad me ip s)
                   else
                     rbind (dirlink me dp nm (i_inum (ino s ip)) s) (\<lambda>(r, s).
                     if r < 0 then rbind (iunlockput me dp s) (\<lambda>s. link_bad me ip s)
                     else
                       rbind (iunlockput me dp s) (\<lambda>s.
                       rbind (iput me ip s) (\<lambda>s.
                       rbind (end_op me s) (\<lambda>s. Inr (Ret 0, s))))))))))))))"

text \<open>The scan of \<open>isdirempty\<close>, from the third entry on.\<close>

function isdirempty_loop :: "nat \<Rightarrow> nat \<Rightarrow> nat \<Rightarrow> nat \<Rightarrow> 'a istate_scheme \<Rightarrow> (bool \<times> 'a istate_scheme) res" where
  "isdirempty_loop me dp sz off s =
     (if off < sz
      then
        rbind (readi me dp To_local (of_nat off) 16 s) (\<lambda>(r, de, s).
        if r \<noteq> 16 then Inl (Panic ''isdirempty: readi'')
        else if de_inum de \<noteq> 0 then Inr (False, s)
        else isdirempty_loop me dp sz (off + 16) s)
      else Inr (True, s))"
  by pat_completeness auto
termination
  by (relation "measure (\<lambda>(me, dp, sz, off, s). sz - off)") auto

declare isdirempty_loop.simps [simp del]

definition isdirempty :: "nat \<Rightarrow> nat \<Rightarrow> 'a istate_scheme \<Rightarrow> (bool \<times> 'a istate_scheme) res" where
  "isdirempty me dp s = isdirempty_loop me dp (unat (i_size (ino s dp))) 32 s"

definition unlink_bad :: "nat \<Rightarrow> nat \<Rightarrow> 'a istate_scheme \<Rightarrow> (sysret \<times> 'a istate_scheme) res" where
  "unlink_bad me dp s =
     rbind (iunlockput me dp s) (\<lambda>s. rbind (end_op me s) (\<lambda>s. Inr (Ret (-1), s)))"

text \<open>Removing the entry at \<open>off\<close> of \<open>dp\<close>, whose inode \<open>ip\<close> is locked.\<close>

definition unlink_entry :: "nat \<Rightarrow> nat \<Rightarrow> nat \<Rightarrow> uint32 \<Rightarrow> 'a istate_scheme \<Rightarrow> (sysret \<times> 'a istate_scheme) res" where
  "unlink_entry me dp ip off s =
     rbind (writei me dp (From_local (replicate 16 0)) off 16 s) (\<lambda>(r, s).
     if r \<noteq> 16 then Inl (Panic ''unlink: writei'')
     else
       rbind (if i_type (ino s ip) = T_DIR
              then iupdate me dp (upd_inode dp (\<lambda>i. i\<lparr>i_nlink := i_nlink i - 1\<rparr>) s) else Inr s) (\<lambda>s.
       rbind (iunlockput me dp s) (\<lambda>s.
       rbind (iupdate me ip (upd_inode ip (\<lambda>i. i\<lparr>i_nlink := i_nlink i - 1\<rparr>) s)) (\<lambda>s.
       rbind (iunlockput me ip s) (\<lambda>s.
       rbind (end_op me s) (\<lambda>s. Inr (Ret 0, s)))))))"

definition sys_unlink :: "nat \<Rightarrow> 'a istate_scheme \<Rightarrow> (sysret \<times> 'a istate_scheme) res" where
  "sys_unlink me s =
     rbind (argstr me 0 (int MAXPATH) s) (\<lambda>(r, path).
     if r < 0 then Inr (Ret (-1), s)
     else
       rbind (begin_op s) (\<lambda>s.
       rbind (nameiparent me path s) (\<lambda>(r, nm, s).
       case r of
         None \<Rightarrow> rbind (end_op me s) (\<lambda>s. Inr (Ret (-1), s))
       | Some dp \<Rightarrow>
           rbind (ilock me dp s) (\<lambda>s.
           if namecmp (cstr nm) (cstr (str ''.'')) = 0 \<or> namecmp (cstr nm) (cstr (str ''..'')) = 0
           then unlink_bad me dp s
           else
             rbind (dirlookup me dp nm s) (\<lambda>(r, s).
             case r of
               None \<Rightarrow> unlink_bad me dp s
             | Some (ip, off) \<Rightarrow>
                 rbind (ilock me ip s) (\<lambda>s.
                 if sint (i_nlink (ino s ip)) < 1 then Inl (Panic ''unlink: nlink < 1'')
                 else
                   rbind (if i_type (ino s ip) = T_DIR then isdirempty me ip s else Inr (True, s)) (\<lambda>(e, s).
                   if i_type (ino s ip) = T_DIR \<and> \<not> e
                   then rbind (iunlockput me ip s) (\<lambda>s. unlink_bad me dp s)
                   else unlink_entry me dp ip off s)))))))"

section \<open>Creating\<close>

definition create_fail :: "nat \<Rightarrow> nat \<Rightarrow> nat \<Rightarrow> 'a istate_scheme \<Rightarrow> (nat option \<times> 'a istate_scheme) res" where
  "create_fail me dp ip s =
     rbind (iupdate me ip (upd_inode ip (\<lambda>i. i\<lparr>i_nlink := 0\<rparr>) s)) (\<lambda>s.
     rbind (iunlockput me ip s) (\<lambda>s.
     rbind (iunlockput me dp s) (\<lambda>s. Inr (None, s))))"

text \<open>The entries \<open>.\<close> and \<open>..\<close> of a new directory.\<close>

definition create_dots :: "nat \<Rightarrow> nat \<Rightarrow> nat \<Rightarrow> 'a istate_scheme \<Rightarrow> (int \<times> 'a istate_scheme) res" where
  "create_dots me dp ip s =
     rbind (dirlink me ip (str ''.'') (i_inum (ino s ip)) s) (\<lambda>(r, s).
     if r < 0 then Inr (r, s) else dirlink me ip (str ''..'') (i_inum (ino s dp)) s)"

text \<open>Filling in the new inode \<open>ip\<close> and entering it in \<open>dp\<close>.\<close>

definition create_new ::
  "nat \<Rightarrow> nat \<Rightarrow> bytes \<Rightarrow> nat \<Rightarrow> uint16 \<Rightarrow> uint16 \<Rightarrow> uint16 \<Rightarrow> 'a istate_scheme \<Rightarrow> (nat option \<times> 'a istate_scheme) res" where
  "create_new me dp nm ip typ major minor s =
     rbind (ilock me ip s) (\<lambda>s.
     let s = upd_inode ip (\<lambda>i. i\<lparr>i_major := major, i_minor := minor, i_nlink := 1\<rparr>) s in
     rbind (iupdate me ip s) (\<lambda>s.
     rbind (if typ = T_DIR then create_dots me dp ip s else Inr (0, s)) (\<lambda>(r, s).
     if r < 0 then create_fail me dp ip s
     else
       rbind (dirlink me dp nm (i_inum (ino s ip)) s) (\<lambda>(r, s).
       if r < 0 then create_fail me dp ip s
       else
         rbind (if typ = T_DIR
                then iupdate me dp (upd_inode dp (\<lambda>i. i\<lparr>i_nlink := i_nlink i + 1\<rparr>) s) else Inr s) (\<lambda>s.
         rbind (iunlockput me dp s) (\<lambda>s. Inr (Some ip, s)))))))"

definition create ::
  "nat \<Rightarrow> bytes \<Rightarrow> uint16 \<Rightarrow> uint16 \<Rightarrow> uint16 \<Rightarrow> 'a istate_scheme \<Rightarrow> (nat option \<times> 'a istate_scheme) res" where
  "create me path typ major minor s =
     rbind (nameiparent me path s) (\<lambda>(r, nm, s).
     case r of
       None \<Rightarrow> Inr (None, s)
     | Some dp \<Rightarrow>
         rbind (ilock me dp s) (\<lambda>s.
         rbind (dirlookup me dp nm s) (\<lambda>(r, s).
         case r of
           Some (ip, _) \<Rightarrow>
             rbind (iunlockput me dp s) (\<lambda>s.
             rbind (ilock me ip s) (\<lambda>s.
             if typ = T_FILE \<and> (i_type (ino s ip) = T_FILE \<or> i_type (ino s ip) = T_DEVICE)
             then Inr (Some ip, s)
             else rbind (iunlockput me ip s) (\<lambda>s. Inr (None, s))))
         | None \<Rightarrow>
             rbind (ialloc me (i_dev (ino s dp)) typ s) (\<lambda>(r, s).
             case r of
               None \<Rightarrow> rbind (iunlockput me dp s) (\<lambda>s. Inr (None, s))
             | Some ip \<Rightarrow> create_new me dp nm ip typ major minor s))))"

section \<open>Opening\<close>

definition open_bad :: "nat \<Rightarrow> nat \<Rightarrow> 'a istate_scheme \<Rightarrow> (sysret \<times> 'a istate_scheme) res" where
  "open_bad me ip s = rbind (iunlockput me ip s) (\<lambda>s. rbind (end_op me s) (\<lambda>s. Inr (Ret (-1), s)))"

text \<open>The inode that \<open>open\<close> works on, locked; or the call has failed and its transaction is over.\<close>

definition open_inode :: "nat \<Rightarrow> bytes \<Rightarrow> uint32 \<Rightarrow> 'a istate_scheme \<Rightarrow> (nat option \<times> 'a istate_scheme) res" where
  "open_inode me path omode s =
     (if omode AND O_CREATE \<noteq> 0
      then
        rbind (create me path T_FILE 0 0 s) (\<lambda>(r, s).
        case r of None \<Rightarrow> rbind (end_op me s) (\<lambda>s. Inr (None, s)) | Some ip \<Rightarrow> Inr (Some ip, s))
      else
        rbind (namei me path s) (\<lambda>(r, s).
        case r of
          None \<Rightarrow> rbind (end_op me s) (\<lambda>s. Inr (None, s))
        | Some ip \<Rightarrow>
            rbind (ilock me ip s) (\<lambda>s.
            if i_type (ino s ip) = T_DIR \<and> omode \<noteq> O_RDONLY
            then rbind (iunlockput me ip s) (\<lambda>s. rbind (end_op me s) (\<lambda>s. Inr (None, s)))
            else Inr (Some ip, s))))"

text \<open>Setting up file \<open>f\<close> for inode \<open>ip\<close>.\<close>

definition open_file :: "nat \<Rightarrow> nat \<Rightarrow> uint32 \<Rightarrow> 'a fstate_scheme \<Rightarrow> 'a fstate_scheme" where
  "open_file f ip omode s =
     (let s = (if i_type (ino s ip) = T_DEVICE
               then upd_file f (\<lambda>x. x\<lparr>f_type := FD_DEVICE, f_major := sint (i_major (ino s ip))\<rparr>) s
               else upd_file f (\<lambda>x. x\<lparr>f_type := FD_INODE, f_off := 0\<rparr>) s)
      in upd_file f (\<lambda>x. x\<lparr>f_ip := ip, f_readable := (omode AND O_WRONLY = 0),
           f_writable := (omode AND O_WRONLY \<noteq> 0 \<or> omode AND O_RDWR \<noteq> 0)\<rparr>) s)"

definition sys_open :: "nat \<Rightarrow> 'a fstate_scheme \<Rightarrow> (sysret \<times> 'a fstate_scheme) res" where
  "sys_open me s =
     rbind (argint me 1 s) (\<lambda>mode.
     let omode = word_of_int mode in
     rbind (argstr me 0 (int MAXPATH) s) (\<lambda>(n, path).
     if n < 0 then Inr (Ret (-1), s)
     else
       rbind (begin_op s) (\<lambda>s.
       rbind (open_inode me path omode s) (\<lambda>(r, s).
       case r of
         None \<Rightarrow> Inr (Ret (-1), s)
       | Some ip \<Rightarrow>
           if i_type (ino s ip) = T_DEVICE \<and>
              (sint (i_major (ino s ip)) < 0 \<or> int NDEV \<le> sint (i_major (ino s ip)))
           then open_bad me ip s
           else case filealloc s of
             (None, s) \<Rightarrow> open_bad me ip s
           | (Some f, s) \<Rightarrow>
               (case fdalloc me f s of
                  (None, s) \<Rightarrow> rbind (fileclose me f s) (\<lambda>s. open_bad me ip s)
                | (Some fd, s) \<Rightarrow>
                    let s = open_file f ip omode s in
                    rbind (if omode AND O_TRUNC \<noteq> 0 \<and> i_type (ino s ip) = T_FILE
                           then itrunc me ip s else Inr s) (\<lambda>s.
                    rbind (iunlock me ip s) (\<lambda>s.
                    rbind (end_op me s) (\<lambda>s. Inr (Ret (of_nat fd), s)))))))))"

section \<open>Directories and devices\<close>

text \<open>The end that \<open>sys_mkdir\<close> and \<open>sys_mknod\<close> share.\<close>

definition create_done :: "nat \<Rightarrow> nat option \<Rightarrow> 'a istate_scheme \<Rightarrow> (sysret \<times> 'a istate_scheme) res" where
  "create_done me r s =
     (case r of
        None \<Rightarrow> rbind (end_op me s) (\<lambda>s. Inr (Ret (-1), s))
      | Some ip \<Rightarrow> rbind (iunlockput me ip s) (\<lambda>s. rbind (end_op me s) (\<lambda>s. Inr (Ret 0, s))))"

definition sys_mkdir :: "nat \<Rightarrow> 'a istate_scheme \<Rightarrow> (sysret \<times> 'a istate_scheme) res" where
  "sys_mkdir me s =
     rbind (begin_op s) (\<lambda>s.
     rbind (argstr me 0 (int MAXPATH) s) (\<lambda>(r, path).
     if r < 0 then create_done me None s
     else rbind (create me path T_DIR 0 0 s) (\<lambda>(r, s). create_done me r s)))"

definition sys_mknod :: "nat \<Rightarrow> 'a istate_scheme \<Rightarrow> (sysret \<times> 'a istate_scheme) res" where
  "sys_mknod me s =
     rbind (begin_op s) (\<lambda>s.
     rbind (argint me 1 s) (\<lambda>major.
     rbind (argint me 2 s) (\<lambda>minor.
     rbind (argstr me 0 (int MAXPATH) s) (\<lambda>(r, path).
     if r < 0 then create_done me None s
     else
       rbind (create me path T_DEVICE (word_of_int major) (word_of_int minor) s) (\<lambda>(r, s).
       create_done me r s)))))"

definition sys_chdir :: "nat \<Rightarrow> 'a istate_scheme \<Rightarrow> (sysret \<times> 'a istate_scheme) res" where
  "sys_chdir me s =
     rbind (begin_op s) (\<lambda>s.
     rbind (argstr me 0 (int MAXPATH) s) (\<lambda>(n, path).
     rbind (if n < 0 then Inr (None, s) else namei me path s) (\<lambda>(r, s).
     case r of
       None \<Rightarrow> rbind (end_op me s) (\<lambda>s. Inr (Ret (-1), s))
     | Some ip \<Rightarrow>
         rbind (ilock me ip s) (\<lambda>s.
         if i_type (ino s ip) \<noteq> T_DIR then open_bad me ip s
         else
           rbind (iunlock me ip s) (\<lambda>s.
           case p_cwd (procs s ! me) of
             None \<Rightarrow> Inl (Fault ''iput'')
           | Some cwd \<Rightarrow>
               rbind (iput me cwd s) (\<lambda>s.
               rbind (end_op me s) (\<lambda>s.
               Inr (Ret 0, upd_proc me (\<lambda>x. x\<lparr>p_cwd := Some ip\<rparr>) s))))))))"

section \<open>exec and pipe\<close>

fun kfree_list :: "uint64 list \<Rightarrow> 'a kmem_scheme \<Rightarrow> 'a kmem_scheme res" where
  "kfree_list [] s = Inr s"
| "kfree_list (a # as) s = rbind (kfree a s) (\<lambda>s. kfree_list as s)"

text \<open>
  Reading the arguments of \<open>exec\<close>, each into a page of its own: success, the pages taken, the strings.
  \<open>k\<close> entries of \<open>argv\<close> are left.
\<close>

fun fetch_argv ::
  "nat \<Rightarrow> uint64 \<Rightarrow> nat \<Rightarrow> nat \<Rightarrow> 'a pstate_scheme \<Rightarrow> (bool \<times> uint64 list \<times> bytes list \<times> 'a pstate_scheme) res" where
  "fetch_argv me uargv i 0 s = Inr (False, [], [], s)"
| "fetch_argv me uargv i (Suc k) s =
     rbind (fetchaddr me (uargv + 8 * of_nat i) s) (\<lambda>(r, uarg).
     if r < 0 then Inr (False, [], [], s)
     else if uarg = 0 then Inr (True, [], [], s)
     else
       let (pg, s) = kalloc s in
       if pg = 0 then Inr (False, [], [], s)
       else
         rbind (fetchstr me uarg 4096 s) (\<lambda>(r, a).
         if r < 0 then Inr (False, [pg], [], s)
         else
           let s = s\<lparr>pmem := mem_write (pmem s) pg (a @ [0])\<rparr> in
           rbind (fetch_argv me uargv (Suc i) k s) (\<lambda>(ok, pgs, argv, s).
           Inr (ok, pg # pgs, a # argv, s))))"

definition sys_exec :: "symbols \<Rightarrow> nat \<Rightarrow> 'a istate_scheme \<Rightarrow> (sysret \<times> 'a istate_scheme) res" where
  "sys_exec K me s =
     rbind (argaddr me 1 s) (\<lambda>uargv.
     rbind (argstr me 0 (int MAXPATH) s) (\<lambda>(r, path).
     if r < 0 then Inr (Ret (-1), s)
     else
       rbind (fetch_argv me uargv 0 MAXARG s) (\<lambda>(ok, pgs, argv, s).
       if ok
       then rbind (exec K me path argv s) (\<lambda>(r, s). rbind (kfree_list pgs s) (\<lambda>s. Inr (Ret (word_of_int r), s)))
       else rbind (kfree_list pgs s) (\<lambda>s. Inr (Ret (-1), s)))))"

definition pipe_bad :: "nat \<Rightarrow> nat \<Rightarrow> nat \<Rightarrow> nat list \<Rightarrow> 'a fstate_scheme \<Rightarrow> (sysret \<times> 'a fstate_scheme) res" where
  "pipe_bad me rfile wfile fds s =
     (let s = fold (clear_fd me) fds s in
      rbind (fileclose me rfile s) (\<lambda>s. rbind (fileclose me wfile s) (\<lambda>s. Inr (Ret (-1), s))))"

definition fd_bytes :: "nat \<Rightarrow> bytes" where
  "fd_bytes fd = word_bytes 4 (of_nat fd :: uint32)"

definition sys_pipe :: "nat \<Rightarrow> 'a fstate_scheme \<Rightarrow> (sysret \<times> 'a fstate_scheme) res" where
  "sys_pipe me s =
     rbind (argaddr me 0 s) (\<lambda>fdarray.
     rbind (pipealloc me s) (\<lambda>(r, s).
     case r of
       None \<Rightarrow> Inr (Ret (-1), s)
     | Some (rfile, wfile) \<Rightarrow>
         (case fdalloc me rfile s of
            (None, s) \<Rightarrow> pipe_bad me rfile wfile [] s
          | (Some fd0, s) \<Rightarrow>
              (case fdalloc me wfile s of
                 (None, s) \<Rightarrow> pipe_bad me rfile wfile [fd0] s
               | (Some fd1, s) \<Rightarrow>
                   rbind (copyout (p_pagetable (procs s ! me)) fdarray (fd_bytes fd0) s) (\<lambda>(r, s).
                   if r < 0 then pipe_bad me rfile wfile [fd0, fd1] s
                   else
                     rbind (copyout (p_pagetable (procs s ! me)) (fdarray + 4) (fd_bytes fd1) s) (\<lambda>(r, s).
                     if r < 0 then pipe_bad me rfile wfile [fd0, fd1] s
                     else Inr (Ret 0, s)))))))"

section \<open>Dispatch (kernel/syscall.c)\<close>

text \<open>The numbers of \<open>kernel/syscall.h\<close> and the table of handlers.\<close>

datatype syscall_no =
    SYS_fork | SYS_exit | SYS_wait | SYS_pipe | SYS_read | SYS_kill | SYS_exec | SYS_fstat | SYS_chdir
  | SYS_dup | SYS_getpid | SYS_sbrk | SYS_sleep | SYS_uptime | SYS_open | SYS_write | SYS_mknod
  | SYS_unlink | SYS_link | SYS_mkdir | SYS_close

definition syscall_nos :: "syscall_no list" where
  "syscall_nos = [SYS_fork, SYS_exit, SYS_wait, SYS_pipe, SYS_read, SYS_kill, SYS_exec, SYS_fstat, SYS_chdir,
     SYS_dup, SYS_getpid, SYS_sbrk, SYS_sleep, SYS_uptime, SYS_open, SYS_write, SYS_mknod, SYS_unlink,
     SYS_link, SYS_mkdir, SYS_close]"

fun syscalls :: "symbols \<Rightarrow> nat \<Rightarrow> syscall_no \<Rightarrow> 'a fstate_scheme \<Rightarrow> (sysret \<times> 'a fstate_scheme) res" where
  "syscalls K me SYS_fork s = sys_fork K me s"
| "syscalls K me SYS_exit s = sys_exit me s"
| "syscalls K me SYS_wait s = sys_wait me s"
| "syscalls K me SYS_pipe s = sys_pipe me s"
| "syscalls K me SYS_read s = sys_read me s"
| "syscalls K me SYS_kill s = sys_kill me s"
| "syscalls K me SYS_exec s = sys_exec K me s"
| "syscalls K me SYS_fstat s = sys_fstat me s"
| "syscalls K me SYS_chdir s = sys_chdir me s"
| "syscalls K me SYS_dup s = sys_dup me s"
| "syscalls K me SYS_getpid s = sys_getpid me s"
| "syscalls K me SYS_sbrk s = sys_sbrk me s"
| "syscalls K me SYS_sleep s = sys_sleep me s"
| "syscalls K me SYS_uptime s = sys_uptime me s"
| "syscalls K me SYS_open s = sys_open me s"
| "syscalls K me SYS_write s = sys_write me s"
| "syscalls K me SYS_mknod s = sys_mknod me s"
| "syscalls K me SYS_unlink s = sys_unlink me s"
| "syscalls K me SYS_link s = sys_link me s"
| "syscalls K me SYS_mkdir s = sys_mkdir me s"
| "syscalls K me SYS_close s = sys_close me s"

text \<open>
  Handler numbers start at 1.  The value goes to \<open>a0\<close> of the trap frame of the process; an unknown
  number gives -1.
\<close>

definition syscall :: "symbols \<Rightarrow> nat \<Rightarrow> 'a fstate_scheme \<Rightarrow> (sysret \<times> 'a fstate_scheme) res" where
  "syscall K me s =
     (let num = sint (ucast (tf_get s (p_trapframe (procs s ! me)) A7) :: uint32) in
      if 0 < num \<and> num < int (length syscall_nos) + 1
      then
        rbind (syscalls K me (syscall_nos ! (nat num - 1)) s) (\<lambda>(r, s).
        case r of
          Ret v \<Rightarrow> Inr (Ret v, tf_set (p_trapframe (procs s ! me)) A0 v s)
        | _ \<Rightarrow> Inr (r, s))
      else Inr (Ret (-1), tf_set (p_trapframe (procs s ! me)) A0 (-1) s))"

end
