(* ===== verification/Trap.thy ===== *)
theory Trap
  imports Sysfile
begin

text \<open>
  Traps (\<open>kernel/trap.c\<close>): system calls, device and timer interrupts, the copy-on-write page fault, and
  the way back to user space.  The interrupt number that \<open>plic_claim\<close> reads, and the registers of the
  disk, are given from outside.
\<close>

definition UART0_IRQ :: int where "UART0_IRQ = 10"
definition VIRTIO0_IRQ :: int where "VIRTIO0_IRQ = 1"

definition trapinithart :: "symbols \<Rightarrow> 'a hart_scheme \<Rightarrow> 'a hart_scheme" where
  "trapinithart K h = h\<lparr>stvec := sym_kernelvec K\<rparr>"

section \<open>Interrupts\<close>

definition clockintr :: "nat option \<Rightarrow> 'a pstate_scheme \<Rightarrow> 'a pstate_scheme" where
  "clockintr me s = wakeup me Chan_ticks (s\<lparr>ticks := ticks s + 1\<rparr>)"

text \<open>The device part: which device, and what its driver does.\<close>

definition extintr :: "nat option \<Rightarrow> int \<Rightarrow> (nat \<Rightarrow> uint32) \<Rightarrow> 'a mstate_scheme \<Rightarrow> 'a mstate_scheme res" where
  "extintr me irq R s =
     (if irq = UART0_IRQ
      then rbind (uartintr me (cons s) (uart s) s) (\<lambda>(co, u, s). Inr (s\<lparr>cons := co, uart := u\<rparr>))
      else if irq = VIRTIO0_IRQ
      then rbind (virtio_disk_intr me R (vdisk s) s) (\<lambda>(d, s). Inr (s\<lparr>vdisk := d\<rparr>))
      else Inr s)"

definition devintr ::
  "nat option \<Rightarrow> int \<Rightarrow> (nat \<Rightarrow> uint32) \<Rightarrow> 'h hart_scheme \<Rightarrow> 'a mstate_scheme \<Rightarrow> (int \<times> 'h hart_scheme \<times> 'a mstate_scheme) res" where
  "devintr me irq R h s =
     (if scause h AND 0x8000000000000000 \<noteq> 0 \<and> scause h AND 0xff = 9
      then rbind (extintr me irq R s) (\<lambda>s. Inr (1, h, s))
      else if scause h = 0x8000000000000001
      then
        let s = (if cpuid h = 0 then clockintr me s else s) in
        Inr (2, h\<lparr>sip := sip h AND NOT 2\<rparr>, s)
      else Inr (0, h, s))"

section \<open>The copy-on-write fault\<close>

text \<open>
  A store fault at \<open>va\<close>: whether it was on a copy-on-write page.  \<open>walk\<close> may return a null pointer,
  which the next line reads.  Without a free page the process is marked as killed, and the copy that
  follows goes to address 0.  When \<open>mappages\<close> fails the code jumps back to the copy, whose source is
  then address 0, because \<open>uvmunmap\<close> has cleared the entry.
\<close>

definition cow_fault :: "nat \<Rightarrow> uint64 \<Rightarrow> 'a pstate_scheme \<Rightarrow> (bool \<times> 'a pstate_scheme) res" where
  "cow_fault me va s =
     (let pagetable = p_pagetable (procs s ! me) in
      rbind (walk pagetable va False s) (\<lambda>(pte, s).
      if pte = 0 then Inl (Fault ''usertrap: null pte'')
      else if load64 (pmem s) pte AND PTE_COW = 0 then Inr (False, s)
      else
        let (mem, s) = kalloc s in
        if mem = 0 then Inl (Fault ''usertrap: memmove to 0'')
        else
          let s = s\<lparr>pmem := memmove (pmem s) mem (PTE2PA (load64 (pmem s) pte)) 4096\<rparr>;
              flags = PTE_FLAGS (load64 (pmem s) pte);
              flags = (flags AND NOT PTE_COW) OR PTE_W in
          rbind (uvmunmap pagetable (PGROUNDDOWN va) 1 True s) (\<lambda>s.
          rbind (mappages pagetable (PGROUNDDOWN va) PGSIZE mem flags s) (\<lambda>(r, s).
          if r \<noteq> 0 then rbind (kfree mem s) (\<lambda>s. Inl (Fault ''usertrap: memmove from 0''))
          else Inr (True, s)))))"

text \<open>The last branch of \<open>usertrap\<close>; any other fault kills the process.\<close>

definition fault :: "nat \<Rightarrow> 'h hart_scheme \<Rightarrow> 'a pstate_scheme \<Rightarrow> 'a pstate_scheme res" where
  "fault me h s =
     (if scause h = 15
      then
        if MAXVA \<le> stval h then Inr (setkilled me s)
        else rbind (cow_fault me (stval h) s) (\<lambda>(cow, s). Inr (if cow then s else setkilled me s))
      else Inr (setkilled me s))"

section \<open>Back to user space\<close>

text \<open>Returns the argument of \<open>userret\<close>, the user page table.\<close>

definition usertrapret ::
  "symbols \<Rightarrow> nat \<Rightarrow> 'h hart_scheme \<Rightarrow> 'a pstate_scheme \<Rightarrow> uint64 \<times> 'h hart_scheme \<times> 'a pstate_scheme" where
  "usertrapret K me h s =
     (let p = procs s ! me;
          tf = p_trapframe p;
          h = intr_off h;
          h = h\<lparr>stvec := TRAMPOLINE + (sym_uservec K - sym_trampoline K)\<rparr>;
          s = tf_set tf Kernel_satp (satp h) s;
          s = tf_set tf Kernel_sp (p_kstack p + PGSIZE) s;
          s = tf_set tf Kernel_trap (sym_usertrap K) s;
          s = tf_set tf Kernel_hartid (r_tp h) s;
          x = sstatus h;
          x = x AND NOT SSTATUS_SPP;
          x = x OR SSTATUS_SPIE;
          h = h\<lparr>sstatus := x\<rparr>;
          h = h\<lparr>sepc := tf_get s tf Epc\<rparr>
      in (MAKE_SATP (p_pagetable p), h, s))"

definition forkret ::
  "symbols \<Rightarrow> bool \<Rightarrow> nat \<Rightarrow> 'h hart_scheme \<Rightarrow> 'a istate_scheme \<Rightarrow> (uint64 \<times> 'h hart_scheme \<times> 'a istate_scheme) res" where
  "forkret K first me h s =
     rbind (if first then fsinit me ROOTDEV s else Inr s) (\<lambda>s. Inr (usertrapret K me h s))"

section \<open>usertrap and kerneltrap\<close>

text \<open>How a trap ends: in user space with that page table, asleep, preempted or as a zombie.\<close>

datatype trapret = User uint64 | Blocked | Yielded | Zombie

definition usertrap_end ::
  "symbols \<Rightarrow> nat \<Rightarrow> int \<Rightarrow> 'h hart_scheme \<Rightarrow> 'a mstate_scheme \<Rightarrow> (trapret \<times> 'h hart_scheme \<times> 'a mstate_scheme) res" where
  "usertrap_end K me which_dev h s =
     (if killed me s \<noteq> 0 then rbind (exit me (-1) s) (\<lambda>s. Inr (Zombie, h, s))
      else if which_dev = 2 then Inr (Yielded, h, yield me s)
      else let (satp, h, s) = usertrapret K me h s in Inr (User satp, h, s))"

definition usertrap ::
  "symbols \<Rightarrow> nat \<Rightarrow> int \<Rightarrow> (nat \<Rightarrow> uint32) \<Rightarrow> 'h hart_scheme \<Rightarrow> 'a mstate_scheme \<Rightarrow> (trapret \<times> 'h hart_scheme \<times> 'a mstate_scheme) res" where
  "usertrap K me irq R h s =
     (if sstatus h AND SSTATUS_SPP \<noteq> 0 then Inl (Panic ''usertrap: not from user mode'')
      else
        let h = h\<lparr>stvec := sym_kernelvec K\<rparr>;
            tf = p_trapframe (procs s ! me);
            s = tf_set tf Epc (sepc h) s in
        if scause h = 8
        then
          if killed me s \<noteq> 0 then rbind (exit me (-1) s) (\<lambda>s. Inr (Zombie, h, s))
          else
            let s = tf_set tf Epc (tf_get s tf Epc + 4) s;
                h = intr_on h in
            rbind (syscall K me s) (\<lambda>(r, s).
            case r of
              Ret _ \<Rightarrow> usertrap_end K me 0 h s
            | Sleeps \<Rightarrow> Inr (Blocked, h, s)
            | Exits \<Rightarrow> Inr (Zombie, h, s))
        else
          rbind (devintr (Some me) irq R h s) (\<lambda>(which_dev, h, s).
          if which_dev \<noteq> 0 then usertrap_end K me which_dev h s
          else rbind (fault me h s) (\<lambda>s. usertrap_end K me 0 h s)))"

text \<open>The flag says that the interrupted process gives up the CPU; the trap registers are restored.\<close>

definition kerneltrap ::
  "nat option \<Rightarrow> int \<Rightarrow> (nat \<Rightarrow> uint32) \<Rightarrow> 'h hart_scheme \<Rightarrow> 'a mstate_scheme \<Rightarrow> (bool \<times> 'h hart_scheme \<times> 'a mstate_scheme) res" where
  "kerneltrap me irq R h s =
     (let sepc0 = sepc h; sstatus0 = sstatus h in
      if sstatus0 AND SSTATUS_SPP = 0 then Inl (Panic ''kerneltrap: not from supervisor mode'')
      else if intr_get h then Inl (Panic ''kerneltrap: interrupts enabled'')
      else
        rbind (devintr me irq R h s) (\<lambda>(which_dev, h, s).
        if which_dev = 0 then Inl (Panic ''kerneltrap'')
        else
          let (y, s) =
            (case me of
               Some p \<Rightarrow> if which_dev = 2 \<and> p_state (procs s ! p) = RUNNING then (True, yield p s) else (False, s)
             | None \<Rightarrow> (False, s)) in
          Inr (y, h\<lparr>sepc := sepc0, sstatus := sstatus0\<rparr>, s)))"

end
