(* ===== verification/TrapProps.thy ===== *)
theory TrapProps
  imports Trap PipeProps
begin

text \<open>
  The copy-on-write page fault: it gives the faulting process a private copy of the page and changes
  nothing that any process reads; it does the same as the copy-on-write step of \<open>copyout\<close>; and it brings
  the kernel down where the page table has no entry or no page is left.
\<close>

section \<open>A forked machine\<close>

text \<open>The small machine of the memory properties after \<open>uvmcopy\<close>: two address spaces share two pages.\<close>

definition demo_forked :: kmem where
  "demo_forked = (case uvmcopy demo_old demo_new 8192 demo_user of Inr (r, s) \<Rightarrow> s | Inl _ \<Rightarrow> demo_user)"

definition demo_fork_state :: pstate where
  "demo_fork_state = \<lparr>pmem = pmem demo_forked, freelist = freelist demo_forked, page_refcnt = page_refcnt demo_forked,
     kern_end = kern_end demo_forked, procs = [demo_proc, demo_proc\<lparr>p_pagetable := demo_new\<rparr>], nextpid = 3,
     initproc = None, ticks = 0\<rparr>"

lemma demo_fork_vm:
  obtains tp fr where "vm_inv tp {} demo_fork_state fr" "fr \<noteq> []" "is_root tp demo_old" "is_root tp demo_new"
    "\<And>va r. va < 8192 \<Longrightarrow> r = demo_old \<or> r = demo_new \<Longrightarrow>
       pte_of (pmem demo_fork_state) r va AND PTE_W = 0 \<and> writable (pte_of (pmem demo_fork_state) r va)"
    "\<And>va. va < 8192 \<Longrightarrow> user_byte (pmem demo_fork_state) demo_new va = Some 0"
proof -
  obtain tp fr where d: "vm_inv tp {} demo_user fr" "is_root tp demo_old" "is_root tp demo_new" "demo_old \<noteq> demo_new"
    "16 \<le> length fr" "\<forall>va < 8192. pte_of (pmem demo_user) demo_old va AND PTE_V \<noteq> 0 \<and>
      user_byte (pmem demo_user) demo_old va = Some 0 \<and> writable (pte_of (pmem demo_user) demo_old va)"
    "\<forall>va < 8192. pte_of (pmem demo_user) demo_new va AND PTE_V = 0" using demo_space by blast
  have up: "PGROUNDUP 8192 = 8192" and small: "(8192 :: uint64) \<le> TRAPFRAME" by (simp_all add: PGROUNDUP_def TRAPFRAME_eq)
  have al: "page_aligned 0" by (simp add: page_aligned_def)
  from uvmcopy_loop_spec [OF d(1-4) al small] d(5-7) obtain s' tp' fr' where
    c: "uvmcopy_loop demo_old demo_new 0 8192 demo_user = Inr (0, s')" "vm_inv tp' {} s' fr'"
      "\<And>r. is_root tp' r \<longleftrightarrow> is_root tp r" "shared tp demo_old demo_new 0 8192 (pmem demo_user) (pmem s')"
      "4096 * length fr \<le> 4096 * length fr' + 2 * 8192" unfolding up by fastforce
  have s': "demo_forked = s'" using c(1) by (simp add: demo_forked_def uvmcopy_def)
  show ?thesis
  proof (rule that [of tp' fr'])
    show "vm_inv tp' {} demo_fork_state fr'"
      by (rule vm_inv_ext [OF _ _ _ _ c(2)]) (simp_all add: demo_fork_state_def s')
    show "fr' \<noteq> []" using c(5) d(5) by auto
    show "is_root tp' demo_old" "is_root tp' demo_new" using c(3) d(2,3) by auto
    fix va :: uint64 assume va: "va < 8192"
    show "pte_of (pmem demo_fork_state) r va AND PTE_W = 0 \<and> writable (pte_of (pmem demo_fork_state) r va)"
      if "r = demo_old \<or> r = demo_new" for r
      using that c(4) va d(6) by (auto simp: demo_fork_state_def s' shared_def)
    show "user_byte (pmem demo_fork_state) demo_new va = Some 0"
      using c(4) va d(3,6) by (simp add: demo_fork_state_def s' shared_def)
  qed
qed

lemma demo_fork_4100:
  obtains tp fr where "vm_inv tp {} demo_fork_state fr" "fr \<noteq> []" "is_root tp demo_old" "is_root tp demo_new"
    "pte_of (pmem demo_fork_state) demo_old 4100 AND PTE_W = 0" "writable (pte_of (pmem demo_fork_state) demo_old 4100)"
    "user_byte (pmem demo_fork_state) demo_new 4100 = Some 0"
proof (rule demo_fork_vm)
  fix tp fr assume h: "vm_inv tp {} demo_fork_state fr" "fr \<noteq> []" "is_root tp demo_old" "is_root tp demo_new"
    "\<And>va r. va < 8192 \<Longrightarrow> r = demo_old \<or> r = demo_new \<Longrightarrow>
       pte_of (pmem demo_fork_state) r va AND PTE_W = 0 \<and> writable (pte_of (pmem demo_fork_state) r va)"
    "\<And>va. va < 8192 \<Longrightarrow> user_byte (pmem demo_fork_state) demo_new va = Some 0"
  have "(4100 :: uint64) < 8192" by simp
  then show thesis using h(5) [of 4100 demo_old] h(6) [of 4100] by (intro that [OF h(1-4)]) auto
qed

text \<open>And a process whose address space is empty.\<close>

definition demo_empty_state :: pstate where
  "demo_empty_state = \<lparr>pmem = pmem demo_kmem1, freelist = freelist demo_kmem1, page_refcnt = page_refcnt demo_kmem1,
     kern_end = kern_end demo_kmem1, procs = [demo_proc], nextpid = 3, initproc = None, ticks = 0\<rparr>"

lemma demo_empty:
  obtains tp fr where "vm_inv tp {} demo_empty_state fr" "is_root tp demo_old" "pt_leaf (pmem demo_empty_state) 2 demo_old va = None"
proof -
  obtain fl where fl: "vm_inv Map.empty {} demo_kmem fl" "24 \<le> length fl" using demo_pages by blast
  then obtain p ps where ps: "fl = p # ps" by (cases fl) auto
  obtain s1 where s1: "uvmcreate demo_kmem = (p, s1)" "vm_inv [p \<mapsto> (p, 2, 0)] {} s1 ps" "is_root [p \<mapsto> (p, 2, 0)] p"
    using uvmcreate_spec [OF fl(1) [unfolded ps]] by blast
  obtain k where k: "kalloc demo_kmem = (p, k)" "p \<noteq> 0" "ram_page demo_kmem p"
    using vm_inv_kalloc [OF fl(1) [unfolded ps]] by blast
  have m: "pmem s1 = memset (pmem k) p 0 4096" using s1(1) k(1,2) by (auto simp: uvmcreate_def)
  have al: "page_aligned p" using k(3) by (simp add: ram_page_def)
  have "load64 (pmem s1) (slot p (px 2 va)) = 0"
    by (rule slot_zero [OF al px_less]) (simp add: m memset_page_inside)
  then have n: "pt_leaf (pmem s1) 2 p va = None" by (simp add: eval_nat_numeral)
  have e: "demo_kmem1 = s1" "demo_old = p" using s1(1) by (simp_all add: demo_kmem1_def demo_old_def)
  have "vm_inv [p \<mapsto> (p, 2, 0)] {} demo_empty_state ps"
    by (rule vm_inv_ext [OF _ _ _ _ s1(2)]) (simp_all add: demo_empty_state_def e)
  then show ?thesis by (rule that) (use s1(3) n in \<open>simp_all add: e demo_empty_state_def\<close>)
qed

section \<open>The fault handler and copyout_cow\<close>

lemma rbind_if: "rbind (if c then a else b) f = (if c then rbind a f else rbind b f)"
  by simp

lemma cow_fault_eq:
  assumes "walk (p_pagetable (procs s ! me)) va False s = Inr (pte, s)" and "pte \<noteq> 0"
    and "load64 (pmem s) pte AND PTE_COW \<noteq> 0" and "fst (kalloc s) \<noteq> 0"
  shows "cow_fault me va s = rbind (copyout_cow (p_pagetable (procs s ! me)) (PGROUNDDOWN va) pte s) (\<lambda>(r, s').
    if r = 0 then Inr (True, s') else Inl (Fault ''usertrap: memmove from 0''))"
proof -
  obtain mem s1 where k: "kalloc s = (mem, s1)" "mem \<noteq> 0" using assms(4) by (cases "kalloc s") auto
  show ?thesis
    unfolding cow_fault_def copyout_cow_def Let_def assms(1) rbind_Inr prod.case k(1)
    using assms(2,3) k(2) by (simp add: rbind_assoc rbind_if split_def cong: rbind_cong if_cong)
qed

text \<open>The entry of a copy-on-write page, found by the walk of the handler.\<close>

lemma cow_walk:
  assumes "vm_inv tp held s fr" and "is_root tp r" and "va < MAXVA" and "pte_of (pmem s) r va AND PTE_COW \<noteq> 0"
  obtains q where "pt_leaf (pmem s) 2 r (PGROUNDDOWN va) = Some q" "walk r va False s = Inr (slot q (px 0 va), s)"
    "slot q (px 0 va) \<noteq> 0" "load64 (pmem s) (slot q (px 0 va)) = pte_of (pmem s) r va"
proof (cases rule: walk_lookup [OF vm_invD(1) [OF assms(1)] assms(2,3)])
  case 1
  then show ?thesis using assms(4) by simp
next
  case (2 q)
  then show ?thesis using that by (simp add: pt_leaf_pg)
qed

lemma kalloc_free:
  assumes "vm_inv tp held s fr"
  shows "fst (kalloc s) \<noteq> 0 \<longleftrightarrow> fr \<noteq> []"
proof (cases fr)
  case Nil
  then obtain s' where "kalloc s = (0, s')" using kalloc_none vm_invD(1) assms by blast
  then show ?thesis using Nil by simp
next
  case (Cons p ps)
  then obtain s' where "kalloc s = (p, s')" "p \<noteq> 0" using vm_inv_kalloc assms by blast
  then show ?thesis using Cons by simp
qed

section \<open>Properties\<close>

text \<open>C27: A store to a copy-on-write page gives the process its own copy.  With a free page left, the fault
  handler succeeds: the page is then mapped writable for the process, hence shared with no one (the
  invariant \<open>vm_inv\<close> holds again, and with it the reference counts); no byte that any process reads has
  changed, and no other translation of any process either.\<close>

theorem cow_fault_breaks_sharing:
  assumes "vm_inv tp held s fr" and "is_root tp (p_pagetable (procs s ! me))" and "va < MAXVA" and "fr \<noteq> []"
    and "pte_of (pmem s) (p_pagetable (procs s ! me)) va AND PTE_V \<noteq> 0"
    and "pte_of (pmem s) (p_pagetable (procs s ! me)) va AND PTE_U \<noteq> 0"
    and "pte_of (pmem s) (p_pagetable (procs s ! me)) va AND PTE_COW \<noteq> 0"
  shows "\<exists>s' fr'. cow_fault me va s = Inr (True, s') \<and> vm_inv tp held s' fr' \<and> procs s' = procs s \<and>
    (let e = pte_of (pmem s') (p_pagetable (procs s ! me)) va in
      e AND PTE_V \<noteq> 0 \<and> e AND PTE_U \<noteq> 0 \<and> e AND PTE_W \<noteq> 0 \<and> refcnt s' (PTE2PA e) = 1) \<and>
    (\<forall>r a. is_root tp r \<longrightarrow> user_byte (pmem s') r a = user_byte (pmem s) r a) \<and>
    (\<forall>r a. is_root tp r \<longrightarrow> a < MAXVA \<longrightarrow> \<not> (r = p_pagetable (procs s ! me) \<and> PGROUNDDOWN a = PGROUNDDOWN va) \<longrightarrow>
       pte_of (pmem s') r a = pte_of (pmem s) r a)"
proof -
  let ?r = "p_pagetable (procs s ! me)" and ?va = "PGROUNDDOWN va"
  obtain q where q: "pt_leaf (pmem s) 2 ?r ?va = Some q" "walk ?r va False s = Inr (slot q (px 0 va), s)"
    "slot q (px 0 va) \<noteq> 0" "load64 (pmem s) (slot q (px 0 va)) = pte_of (pmem s) ?r va"
    using cow_walk [OF assms(1-3,7)] by blast
  have u: "user_va tp ?r ?va" using user_page [OF assms(1-3,6)] .
  have e: "pte_of (pmem s) ?r ?va AND PTE_V \<noteq> 0" using assms(5) by simp
  obtain s' fr' where c: "copyout_cow ?r ?va (slot q (px 0 ?va)) s = Inr (0, s')" "vm_inv tp held s' fr'"
    "kmem.more s' = kmem.more s"
    "\<forall>r' va'. is_root tp r' \<longrightarrow> user_byte (pmem s') r' va' = user_byte (pmem s) r' va'"
    "\<forall>r' va'. is_root tp r' \<longrightarrow> va' < MAXVA \<longrightarrow> \<not> (r' = ?r \<and> PGROUNDDOWN va' = ?va) \<longrightarrow>
       pte_of (pmem s') r' va' = pte_of (pmem s) r' va'"
    "pte_of (pmem s') ?r ?va AND PTE_V \<noteq> 0 \<and> pte_of (pmem s') ?r ?va AND PTE_W \<noteq> 0 \<and>
       (pte_of (pmem s') ?r ?va AND PTE_U = 0 \<longleftrightarrow> pte_of (pmem s) ?r ?va AND PTE_U = 0)"
    using copyout_cow_view [OF assms(1) u q(1) e] assms(4) by auto
  have "cow_fault me va s = Inr (True, s')"
    using cow_fault_eq [OF q(2,3)] q(4) assms(7) kalloc_free [OF assms(1)] assms(4) c(1) by simp
  moreover have "procs s' = procs s" using c(3) by (rule more_procs)
  moreover have "refcnt s' (PTE2PA (pte_of (pmem s') ?r va)) = 1"
    using vm_invD(6) [OF c(2) u] c(6) by (simp add: leaf_ok_def)
  ultimately show ?thesis using c(2,4-6) assms(6) unfolding Let_def by auto
qed

theorem cow_fault_breaks_sharing_witness:
  "\<exists>s'. cow_fault 0 4100 demo_fork_state = Inr (True, s') \<and> user_byte (pmem s') demo_new 4100 = Some 0 \<and>
     pte_of (pmem s') demo_old 4100 AND PTE_W \<noteq> 0"
proof -
  obtain tp fr where d: "vm_inv tp {} demo_fork_state fr" "fr \<noteq> []" "is_root tp demo_old" "is_root tp demo_new"
    "pte_of (pmem demo_fork_state) demo_old 4100 AND PTE_W = 0" "writable (pte_of (pmem demo_fork_state) demo_old 4100)"
    "user_byte (pmem demo_fork_state) demo_new 4100 = Some 0"
    using demo_fork_4100 by blast
  have p: "p_pagetable (procs demo_fork_state ! 0) = demo_old" by (simp add: demo_fork_state_def demo_proc_def)
  have "(4100 :: uint64) < MAXVA" by (simp add: MAXVA_eq)
  from cow_fault_breaks_sharing [where me = 0 and s = demo_fork_state, unfolded p, OF d(1,3) this d(2)] d(4-7) show ?thesis
    by (auto simp: writable_def Let_def)
qed

text \<open>C28: The page fault handler and \<open>copyout\<close> break copy-on-write sharing in the same way: on a copy-on-write
  page, with a page left, the handler ends in the very state in which the copy-on-write step of \<open>copyout\<close>
  ends.\<close>

theorem cow_fault_same_as_copyout:
  assumes "vm_inv tp held s fr" and "is_root tp (p_pagetable (procs s ! me))" and "va < MAXVA" and "fr \<noteq> []"
    and "pte_of (pmem s) (p_pagetable (procs s ! me)) va AND PTE_COW \<noteq> 0"
  shows "\<exists>pte. walk (p_pagetable (procs s ! me)) va False s = Inr (pte, s) \<and>
    (cow_fault me va s = Inr (True, s') \<longleftrightarrow>
     copyout_cow (p_pagetable (procs s ! me)) (PGROUNDDOWN va) pte s = Inr (0, s'))"
proof -
  let ?r = "p_pagetable (procs s ! me)"
  obtain q where q: "walk ?r va False s = Inr (slot q (px 0 va), s)" "slot q (px 0 va) \<noteq> 0"
    "load64 (pmem s) (slot q (px 0 va)) = pte_of (pmem s) ?r va"
    using cow_walk [OF assms(1-3,5)] by blast
  have "cow_fault me va s = rbind (copyout_cow ?r (PGROUNDDOWN va) (slot q (px 0 va)) s) (\<lambda>(r, s').
    if r = 0 then Inr (True, s') else Inl (Fault ''usertrap: memmove from 0''))"
    by (rule cow_fault_eq) (use q assms(4,5) kalloc_free [OF assms(1)] in simp_all)
  then show ?thesis using q(1)
    by (intro exI [of _ "slot q (px 0 va)"]) (auto split: if_splits)
qed

theorem cow_fault_same_as_copyout_witness:
  "\<exists>pte. walk demo_old 4100 False demo_fork_state = Inr (pte, demo_fork_state) \<and>
     (\<forall>s'. cow_fault 0 4100 demo_fork_state = Inr (True, s') \<longleftrightarrow>
       copyout_cow demo_old (PGROUNDDOWN 4100) pte demo_fork_state = Inr (0, s'))"
proof -
  obtain tp fr where d: "vm_inv tp {} demo_fork_state fr" "fr \<noteq> []" "is_root tp demo_old"
    "pte_of (pmem demo_fork_state) demo_old 4100 AND PTE_W = 0" "writable (pte_of (pmem demo_fork_state) demo_old 4100)"
    using demo_fork_4100 by blast
  have p: "p_pagetable (procs demo_fork_state ! 0) = demo_old" by (simp add: demo_fork_state_def demo_proc_def)
  have c: "pte_of (pmem demo_fork_state) demo_old 4100 AND PTE_COW \<noteq> 0" and m: "(4100 :: uint64) < MAXVA"
    using d(4,5) by (auto simp: writable_def MAXVA_eq)
  obtain pte where w: "walk demo_old 4100 False demo_fork_state = Inr (pte, demo_fork_state)"
    using cow_walk [OF d(1,3) m c] by blast
  show ?thesis
    using w cow_fault_same_as_copyout [where me = 0 and s = demo_fork_state, unfolded p, OF d(1,3) m d(2) c] by auto
qed

text \<open>C29: Where the fault handler brings the kernel down instead of killing the process: a store fault below
  \<open>MAXVA\<close> at an address for which the page table has no page of entries reads the entry through a null
  pointer; and a store fault on a copy-on-write page with no page left marks the process as killed and
  then copies the page to address 0.\<close>

theorem cow_fault_crashes:
  assumes "vm_inv tp held s fr" and "is_root tp (p_pagetable (procs s ! me))" and "va < MAXVA"
    and "pt_leaf (pmem s) 2 (p_pagetable (procs s ! me)) va = None \<or>
      fr = [] \<and> pte_of (pmem s) (p_pagetable (procs s ! me)) va AND PTE_COW \<noteq> 0"
  shows "\<exists>m. cow_fault me va s = Inl (Fault m)"
  using assms(4)
proof
  assume "pt_leaf (pmem s) 2 (p_pagetable (procs s ! me)) va = None"
  then have "walk (p_pagetable (procs s ! me)) va False s = Inr (0, s)"
    by (cases rule: walk_lookup [OF vm_invD(1) [OF assms(1)] assms(2,3)]) auto
  then show ?thesis by (simp add: cow_fault_def)
next
  assume h: "fr = [] \<and> pte_of (pmem s) (p_pagetable (procs s ! me)) va AND PTE_COW \<noteq> 0"
  obtain q where q: "walk (p_pagetable (procs s ! me)) va False s = Inr (slot q (px 0 va), s)" "slot q (px 0 va) \<noteq> 0"
    "load64 (pmem s) (slot q (px 0 va)) = pte_of (pmem s) (p_pagetable (procs s ! me)) va"
    using cow_walk [OF assms(1-3)] h by blast
  obtain s1 where "kalloc s = (0, s1)" using kalloc_free [OF assms(1)] h by (cases "kalloc s") auto
  then show ?thesis using q h by (simp add: cow_fault_def Let_def)
qed

theorem cow_fault_crashes_witness:
  "\<exists>m. cow_fault 0 0x40000000 demo_empty_state = Inl (Fault m)"
proof -
  obtain tp fr where d: "vm_inv tp {} demo_empty_state fr" "is_root tp demo_old" "pt_leaf (pmem demo_empty_state) 2 demo_old 0x40000000 = None"
    using demo_empty by blast
  have p: "p_pagetable (procs demo_empty_state ! 0) = demo_old" by (simp add: demo_empty_state_def demo_proc_def)
  have "(0x40000000 :: uint64) < MAXVA" by (simp add: MAXVA_eq)
  from cow_fault_crashes [where me = 0 and s = demo_empty_state, unfolded p, OF d(1,2) this] d(3) show ?thesis by blast
qed

end
