(* ===== verification/ForkProps.thy ===== *)
theory ForkProps
  imports TrapProps ConsoleProps LogAtomic
begin

text \<open>
  \<open>fork\<close> from end to end (\<open>kernel/proc.c\<close> over \<open>kernel/vm.c\<close>, \<open>kernel/kalloc.c\<close> and \<open>kernel/file.c\<close>): the child
  is a copy of the parent in its memory, its registers and its files, and no other process notices.
\<close>

section \<open>Entries above the user's memory\<close>

text \<open>What a step leaves alone: the user's view of every address space, the entries below the trap
  frame, and the pages that the kernel holds.\<close>

definition same_view :: "roles \<Rightarrow> uint64 set \<Rightarrow> memory \<Rightarrow> memory \<Rightarrow> bool" where
  "same_view tp held m m' \<longleftrightarrow>
     (\<forall>r va. is_root tp r \<longrightarrow> user_byte m' r va = user_byte m r va) \<and>
     (\<forall>r va. is_root tp r \<longrightarrow> va < TRAPFRAME \<longrightarrow> pte_of m' r va = pte_of m r va) \<and>
     (\<forall>x. PGROUNDDOWN x \<in> held \<longrightarrow> m' x = m x)"

lemma same_view_trans:
  "same_view tp held m m1 \<Longrightarrow> same_view tp1 held m1 m2 \<Longrightarrow> (\<And>r. is_root tp r \<Longrightarrow> is_root tp1 r) \<Longrightarrow>
   same_view tp held m m2"
  by (simp add: same_view_def)

lemma user_below: "user_va tp r va \<Longrightarrow> TRAPFRAME \<le> va' \<Longrightarrow> va \<noteq> va'"
  by (auto simp: user_va_def)

lemma kernel_entry:
  assumes inv: "vm_inv tp held s fr" and r: "is_root tp r" and va: "TRAPFRAME \<le> va" "va < MAXVA" "page_aligned va"
    and q: "pt_leaf (pmem s) 2 r va = Some q" and v: "v AND PTE_U = 0"
  shows "vm_inv tp held (set_pte q va v s) fr" and "same_view tp held (pmem s) (pmem (set_pte q va v s))"
    and "is_root tp r' \<Longrightarrow> va' < MAXVA \<Longrightarrow> pte_of (pmem (set_pte q va v s)) r' va' =
      (if r' = r \<and> PGROUNDDOWN va' = va then v else pte_of (pmem s) r' va')"
proof -
  note P = vm_invD(1) [OF inv]
  note S = set_pte_inv [OF P r va(2) q, where v = v]
  let ?s = "set_pte q va v s"
  show pte: "pte_of (pmem ?s) r' va' = (if r' = r \<and> PGROUNDDOWN va' = va then v else pte_of (pmem s) r' va')"
    if "is_root tp r'" "va' < MAXVA" for r' va' using S(3) [OF that] va(3) by simp
  have low: "PGROUNDDOWN va' \<noteq> va" if "va' < TRAPFRAME" for va'
  proof -
    have "PGROUNDDOWN va' < TRAPFRAME" using that by (simp add: word_less_nat_alt unat_PGROUNDDOWN)
    then show ?thesis using va(1) by auto
  qed
  have below: "pte_of (pmem ?s) r' va' = pte_of (pmem s) r' va'" if "is_root tp r'" "va' < TRAPFRAME" for r' va'
  proof -
    have "va' < MAXVA" using that(2) by (simp add: TRAPFRAME_eq MAXVA_eq word_less_nat_alt)
    then show ?thesis using pte [OF that(1)] low [OF that(2)] by simp
  qed
  have u: "pte_of (pmem ?s) r' va' = pte_of (pmem s) r' va'" if "user_va tp r' va'" for r' va'
    using that below by (simp add: user_va_def)
  have maps: "mappings tp (pmem ?s) p = mappings tp (pmem s) p" for p
    using u by (intro mappings_cong) auto
  show "vm_inv tp held ?s fr"
    unfolding vm_inv_def set_pte_simps maps
  proof (intro conjI allI impI ballI)
    show "pt_inv tp ?s fr" by (rule S(1))
    show "leaf_ok tp held ?s (pte_of (pmem ?s) r' va')"
      if "user_va tp r' va'" "pte_of (pmem ?s) r' va' AND PTE_V \<noteq> 0" for r' va'
      using that u [OF that(1)] vm_invD(6) [OF inv that(1)] by (simp add: leaf_ok_def)
    show "pte_of (pmem ?s) r' va' AND PTE_U = 0" if "is_root tp r'" "TRAPFRAME \<le> va'" "va' < MAXVA" for r' va'
      using that pte [OF that(1,3)] v vm_invD(7) [OF inv] by simp
  qed (use vm_invD(2-5) [OF inv] in auto)
  have view: "user_byte (pmem ?s) r' va' = user_byte (pmem s) r' va'" if r': "is_root tp r'" for r' va'
  proof (cases "va' < TRAPFRAME")
    case True
    show ?thesis
      by (rule user_byte_frame [OF inv r' below [OF r' True]])
        (use S(2) in \<open>auto simp: mappings_iff leaf_ok_def\<close>)
  next
    case False
    then have "user_byte m r' va' = None" if "va' < MAXVA \<Longrightarrow> pte_of m r' va' AND PTE_U = 0" for m
      using that by (auto simp: user_byte_def Let_def)
    moreover have "va' < MAXVA \<Longrightarrow> pte_of (pmem s) r' va' AND PTE_U = 0"
      using vm_invD(7) [OF inv r'] False by simp
    moreover have "va' < MAXVA \<Longrightarrow> pte_of (pmem ?s) r' va' AND PTE_U = 0"
      using pte [OF r'] v calculation(2) by simp
    ultimately show ?thesis by metis
  qed
  have "pmem ?s x = pmem s x" if "PGROUNDDOWN x \<in> held" for x
    using S(2) that vm_invD(2) [OF inv] by auto
  then show "same_view tp held (pmem s) (pmem ?s)" using view below by (simp add: same_view_def)
qed

lemma grow_same_view:
  assumes "vm_inv tp held s fr" and g: "tables_grow tp fr s tp' fr' s'"
  shows "same_view tp held (pmem s) (pmem s')"
proof -
  have "pmem s' x = pmem s x" if "PGROUNDDOWN x \<in> held" for x
    using tables_growD(3) [OF g] that vm_invD(2) [OF assms(1)] free_unmapped(4) [OF assms(1)] by auto
  then show ?thesis
    using user_byte_grow [OF assms] tables_grow_pte [OF g] by (simp add: same_view_def)
qed

lemma map_kernel_page:
  assumes inv: "vm_inv tp held s fr" and r: "is_root tp r" and va: "TRAPFRAME \<le> va" "va < MAXVA" "page_aligned va"
    and e: "pte_of (pmem s) r va AND PTE_V = 0" and perm: "perm AND PTE_U = 0" and room: "2 < length fr"
  obtains s' tp' fr' where "mappages r va PGSIZE pa perm s = Inr (0, s')" and "vm_inv tp' held s' fr'"
    and "\<And>x. is_root tp' x \<longleftrightarrow> is_root tp x" and "kern_end s' = kern_end s" and "kmem.more s' = kmem.more s"
    and "length fr \<le> length fr' + 2" and "same_view tp held (pmem s) (pmem s')"
    and "\<And>r' va'. is_root tp r' \<Longrightarrow> va' < MAXVA \<Longrightarrow> \<not> (r' = r \<and> PGROUNDDOWN va' = va) \<Longrightarrow>
      pte_of (pmem s') r' va' = pte_of (pmem s) r' va'"
proof -
  from vm_invD(1) [OF inv] r va(2,3) e show ?thesis
  proof (cases rule: mappages_one [where pa = pa and perm = perm])
    case 1
    then show ?thesis using room by simp
  next
    case (2 tp' fr' s1 q)
    let ?v = "PA2PTE pa OR perm OR PTE_V"
    have v: "?v AND PTE_U = 0" using perm unfolding flag_bits by (simp add: bit_or_iff bit_PA2PTE)
    have root: "is_root tp' x \<longleftrightarrow> is_root tp x" for x using pt_frame_root [OF tables_grow_frame [OF 2(2)]] .
    have inv1: "vm_inv tp' held s1 fr'" using vm_inv_grow [OF inv 2(2,1)] .
    note K = kernel_entry [OF inv1 2(3) va 2(4) v]
    show ?thesis
    proof (rule that [OF 2(5) K(1) root _ _ 2(6)])
      show "same_view tp held (pmem s) (pmem (set_pte q va ?v s1))"
        using same_view_trans [OF grow_same_view [OF inv 2(2)] K(2)] root by blast
      show "pte_of (pmem (set_pte q va ?v s1)) r' va' = pte_of (pmem s) r' va'"
        if "is_root tp r'" "va' < MAXVA" "\<not> (r' = r \<and> PGROUNDDOWN va' = va)" for r' va'
        using K(3) [of r' va'] that root tables_grow_pte [OF 2(2) that(1)] by auto
    qed (use tables_growD(5,6) [OF 2(2)] in simp_all)
  qed
qed

lemma pte_of_keep:
  assumes "vm_inv tp held s fr" and "is_root tp r" and m: "\<forall>x. PGROUNDDOWN x \<in> dom tp \<longrightarrow> m' x = pmem s x"
  shows "pte_of m' r va = pte_of (pmem s) r va"
proof (unfold pte_of_def, rule pte_at_cong [OF pt_invD(2) [OF vm_invD(1) [OF assms(1)]] assms(2) [unfolded is_root_def]])
  fix q x assume q: "q \<in> dom tp" "x \<in> region q 4096"
  then have "PGROUNDDOWN x = q"
    using pt_typed_aligned [OF pt_invD(2) [OF vm_invD(1) [OF assms(1)]]] by (simp add: page_member)
  then show "m' x = pmem s x" using m q(1) by blast
qed

text \<open>What a free page holds is nobody's view.\<close>

lemma free_page_view:
  assumes inv: "vm_inv tp held s (p # fr)" and m: "\<forall>x. PGROUNDDOWN x \<noteq> p \<longrightarrow> m' x = pmem s x"
  shows "same_view tp held (pmem s) m'"
proof -
  have F: "p \<notin> dom tp" "p \<notin> held" using free_unmapped(4) [OF inv, of p] by simp_all
  have pte: "pte_of m' r va = pte_of (pmem s) r va" if "is_root tp r" for r va
    using F m by (intro pte_of_keep [OF inv that]) auto
  have "user_byte m' r va = user_byte (pmem s) r va" if r: "is_root tp r" for r va
    by (rule user_byte_frame [OF inv r pte [OF r]]) (use m in auto)
  moreover have "m' x = pmem s x" if "PGROUNDDOWN x \<in> held" for x using that F m by auto
  ultimately show ?thesis using pte by (simp add: same_view_def)
qed

section \<open>A new process\<close>

lemma uvmcreate_mem: "uvmcreate s = (p, s') \<Longrightarrow> x \<notin> region p 4096 \<Longrightarrow> pmem s' x = pmem s x"
  by (auto simp: uvmcreate_def kalloc_def Let_def memset_page_outside split: if_splits)

lemma kernel_pages:
  "TRAPFRAME \<le> TRAMPOLINE" "TRAMPOLINE < MAXVA" "page_aligned TRAMPOLINE" "TRAPFRAME < MAXVA"
  "page_aligned TRAPFRAME" "PGROUNDDOWN TRAPFRAME \<noteq> TRAMPOLINE"
  by (simp_all add: TRAPFRAME_def TRAMPOLINE_def MAXVA_eq page_aligned_def)

lemma proc_pagetable_spec:
  fixes s :: "'a pstate_scheme"
  assumes inv: "vm_inv tp held s (p # fr)" and room: "4 < length fr"
  shows "\<exists>s' tp' fr'. proc_pagetable K np s = Inr (p, s') \<and> vm_inv tp' held s' fr' \<and>
    (\<forall>r. is_root tp' r \<longleftrightarrow> is_root tp r \<or> r = p) \<and> \<not> is_root tp p \<and> p \<noteq> 0 \<and>
    kern_end s' = kern_end s \<and> kmem.more s' = kmem.more s \<and> length fr \<le> length fr' + 4 \<and>
    same_view tp held (pmem s) (pmem s') \<and> (\<forall>va < TRAPFRAME. pte_of (pmem s') p va = 0)"
proof -
  let ?tp = "tp(p \<mapsto> (p, 2, 0))"
  note F = free_unmapped [OF inv, of p, simplified]
  have al: "page_aligned p" using F(1) by (simp add: ram_page_def)
  have nz: "p \<noteq> 0" using F(1) pt_invD(1) [OF vm_invD(1) [OF inv]] ram_page_nonzero [of s p] by (simp add: kmem_inv_def)
  obtain s1 where s1: "uvmcreate s = (p, s1)" "vm_inv ?tp held s1 fr" "tp p = None" "is_root ?tp p"
      "kern_end s1 = kern_end s" "kmem.more s1 = kmem.more s" "\<And>va. pte_of (pmem s1) p va = 0"
      "\<And>r va. is_root tp r \<Longrightarrow> pte_of (pmem s1) r va = pte_of (pmem s) r va \<and>
         user_byte (pmem s1) r va = user_byte (pmem s) r va"
    using uvmcreate_spec [OF inv] by blast
  have r1: "is_root ?tp r \<longleftrightarrow> is_root tp r \<or> r = p" for r using s1(3) by (auto simp: is_root_def)
  have view1: "same_view tp held (pmem s) (pmem s1)"
  proof -
    have "pmem s1 x = pmem s x" if "PGROUNDDOWN x \<in> held" for x
    proof -
      have "PGROUNDDOWN x \<noteq> p" using that F(4) by auto
      then show ?thesis using uvmcreate_mem [OF s1(1), of x] al by (simp add: page_member)
    qed
    then show ?thesis using s1(8) by (simp add: same_view_def)
  qed
  have u: "(PTE_R OR PTE_X) AND PTE_U = 0" "(PTE_R OR PTE_W) AND PTE_U = 0"
    unfolding flag_bits by (simp_all add: bit_or_iff)
  have e1: "pte_of (pmem s1) p TRAMPOLINE AND PTE_V = 0" using s1(7) by simp
  have room1: "2 < length fr" using room by simp
  obtain s2 tp2 fr2 where s2: "mappages p TRAMPOLINE PGSIZE (sym_trampoline K) (PTE_R OR PTE_X) s1 = Inr (0, s2)"
      "vm_inv tp2 held s2 fr2" "\<And>x. is_root tp2 x \<longleftrightarrow> is_root ?tp x" "kern_end s2 = kern_end s1"
      "kmem.more s2 = kmem.more s1" "length fr \<le> length fr2 + 2" "same_view ?tp held (pmem s1) (pmem s2)"
      "\<And>r' va'. is_root ?tp r' \<Longrightarrow> va' < MAXVA \<Longrightarrow> \<not> (r' = p \<and> PGROUNDDOWN va' = TRAMPOLINE) \<Longrightarrow>
        pte_of (pmem s2) r' va' = pte_of (pmem s1) r' va'"
    by (rule map_kernel_page [where pa = "sym_trampoline K", OF s1(2,4) kernel_pages(1-3) e1 u(1) room1])
      (rule that; assumption)
  have r2: "is_root tp2 r \<longleftrightarrow> is_root tp r \<or> r = p" for r using s2(3) r1 by simp
  have p2: "is_root tp2 p" using r2 by simp
  have e2: "pte_of (pmem s2) p TRAPFRAME AND PTE_V = 0"
    using s2(8) [OF s1(4) kernel_pages(4)] kernel_pages(6) s1(7) by simp
  have room2: "2 < length fr2" using s2(6) room by simp
  obtain s3 tp3 fr3 where s3: "mappages p TRAPFRAME PGSIZE (p_trapframe (procs s ! np)) (PTE_R OR PTE_W) s2 = Inr (0, s3)"
      "vm_inv tp3 held s3 fr3" "\<And>x. is_root tp3 x \<longleftrightarrow> is_root tp2 x" "kern_end s3 = kern_end s2"
      "kmem.more s3 = kmem.more s2" "length fr2 \<le> length fr3 + 2" "same_view tp2 held (pmem s2) (pmem s3)"
      "\<And>r' va'. is_root tp2 r' \<Longrightarrow> va' < MAXVA \<Longrightarrow> \<not> (r' = p \<and> PGROUNDDOWN va' = TRAPFRAME) \<Longrightarrow>
        pte_of (pmem s3) r' va' = pte_of (pmem s2) r' va'"
    by (rule map_kernel_page [where pa = "p_trapframe (procs s ! np)",
          OF s2(2) p2 order_refl kernel_pages(4,5) e2 u(2) room2])
      (rule that; assumption)
  have pr: "procs s2 = procs s" using more_procs [of s2 s] s2(5) s1(6) by simp
  have run: "proc_pagetable K np s = Inr (p, s3)"
    using s1(1) s2(1) s3(1) nz pr by (simp add: proc_pagetable_def)
  have view: "same_view tp held (pmem s) (pmem s3)"
    using same_view_trans [OF same_view_trans [OF view1 s2(7)] s3(7)] r1 r2 by blast
  have "pte_of (pmem s3) p va = 0" if "va < TRAPFRAME" for va
  proof -
    have "pte_of (pmem s3) p va = pte_of (pmem s2) p va" using s3(7) p2 that unfolding same_view_def by blast
    also have "\<dots> = pte_of (pmem s1) p va" using s2(7) s1(4) that unfolding same_view_def by blast
    finally show ?thesis using s1(7) by simp
  qed
  moreover have "\<not> is_root tp p" using s1(3) by (simp add: is_root_def)
  moreover have "is_root tp3 r \<longleftrightarrow> is_root tp r \<or> r = p" for r using s3(3) r2 by simp
  moreover have "length fr \<le> length fr3 + 4" using s2(6) s3(6) by simp
  moreover have "kern_end s3 = kern_end s" "kmem.more s3 = kmem.more s" using s1(5,6) s2(4,5) s3(4,5) by simp_all
  ultimately show ?thesis using run s3(2) view nz by blast
qed

lemma more_pstate:
  "kmem.more s' = kmem.more s \<Longrightarrow> procs s' = procs s \<and> nextpid s' = nextpid s \<and> initproc s' = initproc s \<and>
     ticks s' = ticks s \<and> pstate.more s' = pstate.more s"
  by (cases s; cases s') simp

lemma upd_proc_frame [simp]:
  "pmem (upd_proc i f s) = pmem s" "freelist (upd_proc i f s) = freelist s"
  "page_refcnt (upd_proc i f s) = page_refcnt s" "kern_end (upd_proc i f s) = kern_end s"
  "nextpid (upd_proc i f s) = nextpid s" "initproc (upd_proc i f s) = initproc s" "ticks (upd_proc i f s) = ticks s"
  "pstate.more (upd_proc i f s) = pstate.more s" "procs (upd_proc i f s) = (procs s)[i := f (procs s ! i)]"
  by (simp_all add: upd_proc_def)

definition new_proc :: "symbols \<Rightarrow> int \<Rightarrow> uint64 \<Rightarrow> uint64 \<Rightarrow> proc \<Rightarrow> proc" where
  "new_proc K pid tf pt x = x\<lparr>p_pid := pid, p_state := USED, p_trapframe := tf, p_pagetable := pt,
     p_context := zero_kcontext\<lparr>ctx_ra := sym_forkret K, ctx_sp := p_kstack x + PGSIZE\<rparr>\<rparr>"

lemma allocproc_spec:
  fixes s :: "'a pstate_scheme"
  assumes inv: "vm_inv tp held s (tf # p # fr)" and room: "4 < length fr"
    and np: "first_index (\<lambda>x. p_state x = UNUSED) (procs s) = Some np"
  shows "\<exists>s' tp' fr'. allocproc K s = Inr (Some np, s') \<and> vm_inv tp' (insert tf held) s' fr' \<and>
    (\<forall>r. is_root tp' r \<longleftrightarrow> is_root tp r \<or> r = p) \<and> \<not> is_root tp p \<and> length fr \<le> length fr' + 4 \<and>
    same_view tp held (pmem s) (pmem s') \<and> (\<forall>va < TRAPFRAME. pte_of (pmem s') p va = 0) \<and>
    procs s' = (procs s)[np := new_proc K (nextpid s) tf p (procs s ! np)] \<and> nextpid s' = nextpid s + 1 \<and>
    initproc s' = initproc s \<and> pstate.more s' = pstate.more s \<and> kern_end s' = kern_end s"
proof -
  have l: "np < length (procs s)" using np by (simp add: first_index_Some)
  define s1 where "s1 = upd_proc np (\<lambda>x. x\<lparr>p_pid := nextpid s, p_state := USED\<rparr>) (s\<lparr>nextpid := nextpid s + 1\<rparr>)"
  have k1: "pmem s1 = pmem s" "freelist s1 = freelist s" "page_refcnt s1 = page_refcnt s" "kern_end s1 = kern_end s"
      "procs s1 = (procs s)[np := (procs s ! np)\<lparr>p_pid := nextpid s, p_state := USED\<rparr>]" "nextpid s1 = nextpid s + 1"
      "initproc s1 = initproc s" "pstate.more s1 = pstate.more s"
    by (simp_all add: s1_def)
  have inv1: "vm_inv tp held s1 (tf # p # fr)" by (rule vm_inv_ext [OF k1(1-4) inv])
  obtain s2 where s2: "kalloc s1 = (tf, s2)" "tf \<noteq> 0" "vm_inv tp (insert tf held) s2 (p # fr)"
      "\<And>x. PGROUNDDOWN x \<noteq> tf \<Longrightarrow> pmem s2 x = pmem s1 x" "kern_end s2 = kern_end s1" "kmem.more s2 = kmem.more s1"
    using vm_inv_kalloc [OF inv1] by blast
  have "\<forall>x. PGROUNDDOWN x \<noteq> tf \<longrightarrow> pmem s2 x = pmem s1 x" using s2(4) by blast
  then have view1: "same_view tp held (pmem s) (pmem s2)" using free_page_view [OF inv1] k1(1) by simp
  define s3 where "s3 = upd_proc np (\<lambda>x. x\<lparr>p_trapframe := tf\<rparr>) s2"
  have k3: "pmem s3 = pmem s2" "freelist s3 = freelist s2" "page_refcnt s3 = page_refcnt s2" "kern_end s3 = kern_end s2"
    by (simp_all add: s3_def)
  have inv3: "vm_inv tp (insert tf held) s3 (p # fr)" by (rule vm_inv_ext [OF k3 s2(3)])
  obtain s4 tp4 fr4 where s4: "proc_pagetable K np s3 = Inr (p, s4)" "vm_inv tp4 (insert tf held) s4 fr4"
      "\<forall>r. is_root tp4 r \<longleftrightarrow> is_root tp r \<or> r = p" "\<not> is_root tp p" "p \<noteq> 0" "kern_end s4 = kern_end s3"
      "kmem.more s4 = kmem.more s3" "length fr \<le> length fr4 + 4" "same_view tp (insert tf held) (pmem s3) (pmem s4)"
      "\<forall>va < TRAPFRAME. pte_of (pmem s4) p va = 0"
    using proc_pagetable_spec [OF inv3 room, of K np] by blast
  define s5 where "s5 = upd_proc np (\<lambda>x. x\<lparr>p_context :=
      zero_kcontext\<lparr>ctx_ra := sym_forkret K, ctx_sp := p_kstack x + PGSIZE\<rparr>\<rparr>) (upd_proc np (\<lambda>x. x\<lparr>p_pagetable := p\<rparr>) s4)"
  have k5: "pmem s5 = pmem s4" "freelist s5 = freelist s4" "page_refcnt s5 = page_refcnt s4" "kern_end s5 = kern_end s4"
    by (simp_all add: s5_def)
  note m2 = more_pstate [OF s2(6)] and m4 = more_pstate [OF s4(7)]
  have pr: "procs s5 = (procs s)[np := new_proc K (nextpid s) tf p (procs s ! np)]"
    using m2 m4 k1(5) l by (simp add: s5_def s3_def new_proc_def)
  have run: "allocproc K s = Inr (Some np, s5)"
    using np s2(1,2) s4(1,5)
    by (simp add: allocproc_def allocpid_def s1_def [symmetric] s3_def [symmetric] s5_def)
  have "same_view tp held (pmem s) (pmem s5)"
    using view1 s4(9) k3(1) k5(1) by (simp add: same_view_def)
  moreover have "nextpid s5 = nextpid s + 1" "initproc s5 = initproc s" "pstate.more s5 = pstate.more s"
    using m2 m4 k1 by (simp_all add: s5_def s3_def)
  moreover have "kern_end s5 = kern_end s" using k5 s4(6) k3 s2(5) k1 by simp
  ultimately show ?thesis
    using run vm_inv_ext [OF k5 s4(2)] s4(3,4,8,10) pr k5(1) by auto
qed

section \<open>Copying the registers\<close>

abbreviation tf_index :: "trapframe \<Rightarrow> nat" where
  "tf_index r \<equiv> unat (tf_offset r) div 8"

lemma tf_slot: "a + tf_offset r = slot a (tf_index r)" "tf_index r < 36" "r \<noteq> A0 \<Longrightarrow> tf_index r \<noteq> 14"
  by (cases r; simp add: slot_def)+

lemma load64_copied:
  assumes "k < 36"
  shows "load64 (mem_write m a (mem_read m b 288)) (slot a k) = load64 m (slot b k)"
proof -
  have off: "slot c k + of_nat i = c + of_nat (8 * k + i)" for c i by (simp add: slot_def)
  have "mem_write m a (mem_read m b 288) (slot a k + of_nat i) = m (slot b k + of_nat i)" if "i < 8" for i
  proof -
    have j: "8 * k + i < 288" using assms that by simp
    then have u: "unat (of_nat (8 * k + i) :: uint64) = 8 * k + i" by (intro unat_of_nat64) simp
    have "slot a k + of_nat i - a = of_nat (8 * k + i)" unfolding off by simp
    then have "unat (slot a k + of_nat i - a) = 8 * k + i" using u by (simp only:)
    then have "mem_write m a (mem_read m b 288) (slot a k + of_nat i) = mem_read m b 288 ! (8 * k + i)"
      using j by (simp add: mem_write_def)
    then show ?thesis using j unfolding off by (simp del: of_nat_add of_nat_mult)
  qed
  then have "mem_read (mem_write m a (mem_read m b 288)) (slot a k) 8 = mem_read m (slot b k) 8"
    by (intro nth_equalityI) simp_all
  then show ?thesis by (simp add: load64_def)
qed

definition copy_tf :: "uint64 \<Rightarrow> uint64 \<Rightarrow> memory \<Rightarrow> memory" where
  "copy_tf tf ptf m = store64 (mem_write m tf (mem_read m ptf tf_size)) (tf + tf_offset A0) 0"

lemma copy_tf_load:
  assumes "page_aligned tf"
  shows "load64 (copy_tf tf ptf m) (tf + tf_offset r) = (if r = A0 then 0 else load64 m (ptf + tf_offset r))"
proof (cases "r = A0")
  case True
  then show ?thesis by (simp add: copy_tf_def)
next
  case False
  have a0: "tf + tf_offset A0 = slot tf 14" by (simp add: slot_def)
  have "load64 (copy_tf tf ptf m) (slot tf (tf_index r)) =
      load64 (mem_write m tf (mem_read m ptf tf_size)) (slot tf (tf_index r))"
    unfolding copy_tf_def a0 using tf_slot(2) [of r] tf_slot(3) [OF False] assms by (intro slot_frame) auto
  then show ?thesis
    using False load64_copied [OF tf_slot(2) [of r]] unfolding tf_slot(1) tf_size_def by simp
qed

lemma copy_tf_outside:
  assumes "page_aligned tf" and "PGROUNDDOWN x \<noteq> tf"
  shows "copy_tf tf ptf m x = m x"
proof -
  have x: "x \<notin> region tf 4096" using assms by (simp add: page_member)
  have "x \<notin> region tf 288" using x region_sub [of 288 4096 tf] by auto
  then have "mem_write m tf (mem_read m ptf tf_size) x = m x"
    by (intro mem_write_outside) (simp add: tf_size_def)
  moreover have "tf + tf_offset A0 = slot tf 14" by (simp add: slot_def)
  ultimately show ?thesis
    unfolding copy_tf_def using slot_outside [OF assms(1) _ x, of 14] by simp
qed

section \<open>Copying the descriptors\<close>

text \<open>The references that the descriptors \<open>is\<close> of a table hold to file \<open>f\<close>.\<close>

definition holds_file :: "nat option list \<Rightarrow> nat list \<Rightarrow> nat \<Rightarrow> int" where
  "holds_file fds is f = int (length (filter (\<lambda>i. fds ! i = Some f) is))"

text \<open>What the loop over the descriptors \<open>is\<close> leaves behind: the slot \<open>np\<close> has the table \<open>fds\<close>
  with the parent's entries at \<open>is\<close>, and each file has one more reference per entry.\<close>

definition files_copied :: "nat \<Rightarrow> nat \<Rightarrow> nat list \<Rightarrow> 'a fstate_scheme \<Rightarrow> 'a fstate_scheme \<Rightarrow> nat option list \<Rightarrow> bool" where
  "files_copied me np is s s' fds \<longleftrightarrow>
     length fds = length (p_ofile (procs s ! np)) \<and>
     (\<forall>i. fds ! i = (if i \<in> set is then p_ofile (procs s ! me) ! i else p_ofile (procs s ! np) ! i)) \<and>
     procs s' = (procs s)[np := (procs s ! np)\<lparr>p_ofile := fds\<rparr>] \<and>
     (\<forall>f < length (ftable s). f_ref (ftable s' ! f) = f_ref (ftable s ! f) + holds_file (p_ofile (procs s ! me)) is f) \<and>
     length (ftable s') = length (ftable s) \<and> pmem s' = pmem s \<and> freelist s' = freelist s \<and>
     page_refcnt s' = page_refcnt s \<and> kern_end s' = kern_end s \<and> itable s' = itable s"

lemma files_copiedD:
  assumes "files_copied me np is s s' fds"
  shows "length fds = length (p_ofile (procs s ! np))"
    and "fds ! i = (if i \<in> set is then p_ofile (procs s ! me) ! i else p_ofile (procs s ! np) ! i)"
    and "procs s' = (procs s)[np := (procs s ! np)\<lparr>p_ofile := fds\<rparr>]"
    and "f < length (ftable s) \<Longrightarrow> f_ref (ftable s' ! f) = f_ref (ftable s ! f) + holds_file (p_ofile (procs s ! me)) is f"
    and "length (ftable s') = length (ftable s) \<and> pmem s' = pmem s \<and> freelist s' = freelist s \<and>
     page_refcnt s' = page_refcnt s \<and> kern_end s' = kern_end s \<and> itable s' = itable s"
  using assms unfolding files_copied_def by blast+

lemma fork_files_spec:
  fixes s :: "'a fstate_scheme"
  assumes "me \<noteq> np" and "np < length (procs s)"
    and "\<And>i f. i \<in> set is \<Longrightarrow> p_ofile (procs s ! me) ! i = Some f \<Longrightarrow> f < length (ftable s) \<and> 1 \<le> f_ref (ftable s ! f)"
    and "\<And>i. i \<in> set is \<Longrightarrow> i < length (p_ofile (procs s ! np)) \<and> p_ofile (procs s ! np) ! i = None" and "distinct is"
  shows "\<exists>s' fds. fork_files me np is s = Inr s' \<and> files_copied me np is s s' fds"
  using assms(2-5)
proof (induction "is" arbitrary: s)
  case Nil
  then show ?case
    by (intro exI [of _ s] exI [of _ "p_ofile (procs s ! np)"]) (simp add: files_copied_def holds_file_def)
next
  case (Cons i "is")
  show ?case
  proof (cases "p_ofile (procs s ! me) ! i")
    case None
    have "\<exists>s' fds. fork_files me np is s = Inr s' \<and> files_copied me np is s s' fds"
      using Cons.prems by (intro Cons.IH) auto
    then obtain s' fds where r: "fork_files me np is s = Inr s'" "files_copied me np is s s' fds" by blast
    have "p_ofile (procs s ! np) ! i = None" using Cons.prems(3) by simp
    then have "files_copied me np (i # is) s s' fds" using r(2) None by (simp add: files_copied_def holds_file_def)
    then show ?thesis using r(1) None by auto
  next
    case (Some f)
    have f: "f < length (ftable s)" "1 \<le> f_ref (ftable s ! f)" using Cons.prems(2) [of i f] Some by auto
    define s2 where "s2 = upd_proc np (\<lambda>x. x\<lparr>p_ofile := (p_ofile x)[i := Some f]\<rparr>)
      (upd_file f (\<lambda>x. x\<lparr>f_ref := f_ref x + 1\<rparr>) s)"
    have run: "fork_files me np (i # is) s = fork_files me np is s2"
      using Some f(2) by (simp add: filedup_def s2_def)
    have p2: "procs s2 = (procs s)[np := (procs s ! np)\<lparr>p_ofile := (p_ofile (procs s ! np))[i := Some f]\<rparr>]"
      and t2: "ftable s2 = (ftable s)[f := (ftable s ! f)\<lparr>f_ref := f_ref (ftable s ! f) + 1\<rparr>]"
      and k2: "pmem s2 = pmem s" "freelist s2 = freelist s" "page_refcnt s2 = page_refcnt s" "kern_end s2 = kern_end s"
        "itable s2 = itable s"
      by (simp_all add: s2_def upd_file_def upd_proc_def)
    have me2: "procs s2 ! me = procs s ! me" and np2: "np < length (procs s2)"
      "p_ofile (procs s2 ! np) = (p_ofile (procs s ! np))[i := Some f]"
      using p2 assms(1) Cons.prems(1) by simp_all
    have "\<exists>s' fds. fork_files me np is s2 = Inr s' \<and> files_copied me np is s2 s' fds"
    proof (rule Cons.IH [OF np2(1)])
      show "g < length (ftable s2) \<and> 1 \<le> f_ref (ftable s2 ! g)"
        if "j \<in> set is" "p_ofile (procs s2 ! me) ! j = Some g" for j g
        using that Cons.prems(2) [of j g] me2 t2 f by (cases "g = f") auto
      show "j < length (p_ofile (procs s2 ! np)) \<and> p_ofile (procs s2 ! np) ! j = None" if "j \<in> set is" for j
        using that Cons.prems(3) [of j] Cons.prems(4) np2 by (cases "j = i") auto
    qed (use Cons.prems(4) in simp)
    then obtain s' fds where r: "fork_files me np is s2 = Inr s'" "files_copied me np is s2 s' fds" by blast
    have i: "i \<notin> set is" "i < length (p_ofile (procs s ! np))" using Cons.prems(3,4) by auto
    note R = files_copiedD [OF r(2)]
    have "fds ! j = (if j \<in> set (i # is) then p_ofile (procs s ! me) ! j else p_ofile (procs s ! np) ! j)" for j
      unfolding R(2) me2 np2(2) using i Some by (cases "j = i") simp_all
    moreover have "f_ref (ftable s' ! g) = f_ref (ftable s ! g) + holds_file (p_ofile (procs s ! me)) (i # is) g"
      if "g < length (ftable s)" for g
    proof -
      have "f_ref (ftable s' ! g) = f_ref (ftable s2 ! g) + holds_file (p_ofile (procs s ! me)) is g"
        using R(4) [of g] that t2 me2 by simp
      moreover have "f_ref (ftable s2 ! g) = f_ref (ftable s ! g) + (if g = f then 1 else 0)" unfolding t2 using f(1) by simp
      ultimately show ?thesis using Some by (simp add: holds_file_def)
    qed
    moreover have "length fds = length (p_ofile (procs s ! np))" unfolding R(1) np2(2) by simp
    moreover have "procs s' = (procs s)[np := (procs s ! np)\<lparr>p_ofile := fds\<rparr>]"
      unfolding R(3) p2 using Cons.prems(1) by simp
    moreover have "length (ftable s') = length (ftable s)" using R(5) t2 by simp
    ultimately have "files_copied me np (i # is) s s' fds" unfolding files_copied_def using R(5) k2 by simp
    then show ?thesis unfolding run using r(1) by blast
  qed
qed

section \<open>The child\<close>

text \<open>The memory after a fork: the new address space reads as the old one below the size and nothing
  above, the pages are writable in neither until copied, and everything else is as it was.\<close>

definition forked :: "roles \<Rightarrow> uint64 set \<Rightarrow> uint64 \<Rightarrow> uint64 \<Rightarrow> uint64 \<Rightarrow> memory \<Rightarrow> memory \<Rightarrow> bool" where
  "forked tp held old new sz m m' \<longleftrightarrow>
     (\<forall>va. user_byte m' new va = (if va < PGROUNDUP sz then user_byte m old va else None)) \<and>
     (\<forall>r va. is_root tp r \<longrightarrow> user_byte m' r va = user_byte m r va) \<and>
     (\<forall>va < PGROUNDUP sz. pte_of m' old va AND PTE_W = 0 \<and> pte_of m' new va AND PTE_W = 0 \<and>
        writable (pte_of m' old va) = writable (pte_of m old va) \<and> writable (pte_of m' new va) = writable (pte_of m old va)) \<and>
     (\<forall>x. PGROUNDDOWN x \<in> held \<longrightarrow> m' x = m x)"

lemma held_write:
  assumes inv: "vm_inv tp held s fr" and tf: "tf \<in> held" and out: "\<forall>x. PGROUNDDOWN x \<noteq> tf \<longrightarrow> m' x = pmem s x"
  shows "vm_inv tp held (s\<lparr>pmem := m'\<rparr>) fr"
    and "is_root tp r \<Longrightarrow> va < MAXVA \<Longrightarrow> pte_of m' r va = pte_of (pmem s) r va"
    and "is_root tp r \<Longrightarrow> user_byte m' r va = user_byte (pmem s) r va"
proof -
  note m = out [rule_format]
  have nt: "tf \<notin> dom tp" using tf vm_invD(2) [OF inv] by auto
  have nf: "tf \<notin> set fr" using tf free_unmapped(4) [OF inv, of tf] by auto
  have keep: "m' x = pmem s x" if "PGROUNDDOWN x \<in> dom tp \<union> set fr" for x
    by (rule m) (use that nt nf in auto)
  show inv': "vm_inv tp held (s\<lparr>pmem := m'\<rparr>) fr" by (rule vm_inv_write [OF inv keep])
  have p: "pte_of m' r va = pte_of (pmem s) r va" if "is_root tp r" for r va
    using keep by (intro pte_of_keep [OF inv that]) auto
  then show "is_root tp r \<Longrightarrow> va < MAXVA \<Longrightarrow> pte_of m' r va = pte_of (pmem s) r va" .
  show "user_byte m' r va = user_byte (pmem s) r va" if r: "is_root tp r"
  proof (rule user_byte_frame [OF inv r p [OF r]])
    fix x q assume "(r, PGROUNDDOWN va) \<in> mappings tp (pmem s) q" "leaf_ok tp held s (pte_of (pmem s) r va)" "PGROUNDDOWN x = q"
    then have "PGROUNDDOWN x \<notin> held" by (auto simp: mappings_iff leaf_ok_def)
    then show "m' x = pmem s x" using tf by (intro m) auto
  qed
qed

lemma fork_space:
  fixes s :: "'a pstate_scheme"
  assumes inv: "vm_inv tp held s (tf # p # fr)" and r: "is_root tp old" and sz: "sz \<le> TRAPFRAME"
    and pages: "\<forall>va < PGROUNDUP sz. pte_of (pmem s) old va AND PTE_V \<noteq> 0"
    and np: "first_index (\<lambda>x. p_state x = UNUSED) (procs s) = Some np"
    and room: "2 * unat (PGROUNDUP sz) + 4 * 4096 < 4096 * length fr"
  shows "\<exists>s1 s2 tp' fr'. allocproc K s = Inr (Some np, s1) \<and> uvmcopy old p sz s1 = Inr (0, s2) \<and>
    procs s1 = (procs s)[np := new_proc K (nextpid s) tf p (procs s ! np)] \<and> procs s2 = procs s1 \<and>
    nextpid s2 = nextpid s + 1 \<and> initproc s2 = initproc s \<and> pstate.more s2 = pstate.more s \<and>
    vm_inv tp' (insert tf held) s2 fr' \<and> (\<forall>r. is_root tp' r \<longleftrightarrow> is_root tp r \<or> r = p) \<and> \<not> is_root tp p \<and>
    forked tp held old p sz (pmem s) (pmem s2)"
proof -
  have room1: "4 < length fr" using room by linarith
  obtain s1 tp1 fr1 where a: "allocproc K s = Inr (Some np, s1)" "vm_inv tp1 (insert tf held) s1 fr1"
    "\<forall>r. is_root tp1 r \<longleftrightarrow> is_root tp r \<or> r = p" "\<not> is_root tp p" "length fr \<le> length fr1 + 4"
    "same_view tp held (pmem s) (pmem s1)" "\<forall>va < TRAPFRAME. pte_of (pmem s1) p va = 0"
    "procs s1 = (procs s)[np := new_proc K (nextpid s) tf p (procs s ! np)]" "nextpid s1 = nextpid s + 1"
    "initproc s1 = initproc s" "pstate.more s1 = pstate.more s"
    using allocproc_spec [OF inv room1 np, of K] by blast
  have ne: "old \<noteq> p" using r a(4) by auto
  have rt: "is_root tp1 old" "is_root tp1 p" using r a(3) by auto
  have hi: "PGROUNDUP sz \<le> TRAPFRAME" using PGROUNDUP_user [OF sz] by (simp add: word_le_nat_alt)
  have same: "pte_of (pmem s1) old va = pte_of (pmem s) old va" if "va < PGROUNDUP sz" for va
    using a(6) r that hi unfolding same_view_def by force
  have blank: "user_byte (pmem s1) p va = None" for va
  proof (cases "va < TRAPFRAME")
    case True
    then show ?thesis using a(7) by (simp add: user_byte_def Let_def)
  next
    case False
    then have "va < MAXVA \<Longrightarrow> pte_of (pmem s1) p va AND PTE_U = 0" using vm_invD(7) [OF a(2) rt(2)] by simp
    then show ?thesis by (auto simp: user_byte_def Let_def)
  qed
  have al: "page_aligned 0" by (simp add: page_aligned_def)
  have "4096 * length fr \<le> 4096 * length fr1 + 4 * 4096" using a(5) by simp
  then have big: "\<not> 4096 * length fr1 \<le> 2 * (unat (PGROUNDUP sz) - unat (0 :: uint64))" using room by simp
  have "\<exists>ret s' tp' fr'. uvmcopy_loop old p 0 sz s1 = Inr (ret, s') \<and> vm_inv tp' (insert tf held) s' fr' \<and>
    (\<forall>r. is_root tp' r \<longleftrightarrow> is_root tp1 r) \<and> kern_end s' = kern_end s1 \<and> kmem.more s' = kmem.more s1 \<and>
    (ret = 0 \<and> shared tp1 old p 0 (PGROUNDUP sz) (pmem s1) (pmem s') \<and>
       4096 * length fr1 \<le> 4096 * length fr' + 2 * (unat (PGROUNDUP sz) - unat (0 :: uint64)) \<and>
       (\<forall>x. PGROUNDDOWN x \<in> insert tf held \<longrightarrow> pmem s' x = pmem s1 x) \<or>
     ret = -1 \<and> (\<forall>r va. is_root tp1 r \<longrightarrow> user_byte (pmem s') r va =
       (if r = p \<and> va < PGROUNDUP sz then None else user_byte (pmem s1) r va)) \<and>
       4096 * length fr1 \<le> 2 * (unat (PGROUNDUP sz) - unat (0 :: uint64)))"
  proof (rule uvmcopy_loop_spec [OF a(2) rt ne al sz])
    show "pte_of (pmem s1) old va AND PTE_V \<noteq> 0" if "va < PGROUNDUP sz" for va
      using pages same [OF that] that by simp
    show "pte_of (pmem s1) p va AND PTE_V = 0" if "va < PGROUNDUP sz" for va
      using a(7) that hi by simp
  qed simp_all
  then obtain s2 tp2 fr2 where c: "uvmcopy_loop old p 0 sz s1 = Inr (0, s2)" "vm_inv tp2 (insert tf held) s2 fr2"
    "\<forall>r. is_root tp2 r \<longleftrightarrow> is_root tp1 r" "kmem.more s2 = kmem.more s1"
    "shared tp1 old p 0 (PGROUNDUP sz) (pmem s1) (pmem s2)" "\<forall>x. PGROUNDDOWN x \<in> insert tf held \<longrightarrow> pmem s2 x = pmem s1 x"
    using big by auto
  have ub: "user_byte (pmem s2) r' va = (if r' = p \<and> va < PGROUNDUP sz then user_byte (pmem s1) old va else user_byte (pmem s1) r' va)"
    if "is_root tp1 r'" for r' va using c(5) that by (simp add: shared_def)
  have ub1: "user_byte (pmem s1) r' va = user_byte (pmem s) r' va" if "is_root tp r'" for r' va
    using a(6) that by (simp add: same_view_def)
  have "forked tp held old p sz (pmem s) (pmem s2)"
    unfolding forked_def
  proof (intro conjI allI impI)
    show "user_byte (pmem s2) p va = (if va < PGROUNDUP sz then user_byte (pmem s) old va else None)" for va
      using ub [OF rt(2)] ub1 [OF r] blank by simp
    show "user_byte (pmem s2) r' va = user_byte (pmem s) r' va" if "is_root tp r'" for r' va
      using ub [of r'] ub1 [OF that] that a(3,4) by auto
    show "pmem s2 x = pmem s x" if "PGROUNDDOWN x \<in> held" for x
      using c(6) a(6) that by (simp add: same_view_def)
  qed (use c(5) same in \<open>simp_all add: shared_def\<close>)
  then show ?thesis
    using a c more_pstate [OF c(4)] unfolding uvmcopy_def
    by (intro exI [of _ s1] exI [of _ s2] exI [of _ tp2] exI [of _ fr2]) simp
qed

lemma more_fstate:
  fixes s s' :: "'a fstate_scheme"
  shows "pstate.more s' = pstate.more s \<Longrightarrow> ftable s' = ftable s \<and> itable s' = itable s"
  by (cases s; cases s') simp

lemma upd_proc_files [simp]:
  "ftable (upd_proc i f s) = ftable s" "itable (upd_proc i f s) = itable s"
  by (simp_all add: upd_proc_def)

lemma holds_file_all: "holds_file fds [0..<length fds] f = int (count_list fds (Some f))"
proof -
  have e: "(=) (Some f) = (\<lambda>x. x = Some f)" by auto
  have "count_list fds (Some f) = length (filter (\<lambda>x. x = Some f) (map ((!) fds) [0..<length fds]))"
    by (simp add: map_nth count_list_eq_length_filter e)
  then show ?thesis by (simp add: holds_file_def filter_map o_def)
qed

text \<open>Copying the registers, in a page that the kernel holds, adds nothing for the user to see.\<close>

lemma fork_memory:
  assumes inv: "vm_inv tp held s (tf # p # fr)" and r: "is_root tp old" and sz: "sz \<le> TRAPFRAME" and ptf: "ptf \<in> held"
    and inv2: "vm_inv tp2 (insert tf held) s2 fr2" and roots: "\<forall>r. is_root tp2 r \<longleftrightarrow> is_root tp r \<or> r = p"
    and "\<not> is_root tp p" and fk: "forked tp held old p sz (pmem s) (pmem s2)"
    and s': "pmem s' = copy_tf tf ptf (pmem s2)" "freelist s' = freelist s2" "page_refcnt s' = page_refcnt s2"
      "kern_end s' = kern_end s2"
  shows "load64 (pmem s') (tf + tf_offset k) = (if k = A0 then 0 else load64 (pmem s) (ptf + tf_offset k))"
    and "forked tp held old p sz (pmem s) (pmem s')" and "vm_inv tp2 (insert tf held) s' fr2" and "tf \<notin> held"
proof -
  show tf: "tf \<notin> held" using free_unmapped(4) [OF inv, of tf] by simp
  have al: "page_aligned tf" "page_aligned ptf"
    using vm_invD(3) [OF inv2, of tf] vm_invD(3) [OF inv ptf] by (simp_all add: ram_page_def)
  have out: "\<forall>x. PGROUNDDOWN x \<noteq> tf \<longrightarrow> pmem s' x = pmem s2 x"
    unfolding s'(1) using copy_tf_outside [OF al(1)] by blast
  note W = held_write [OF inv2 insertI1 out]
  show "vm_inv tp2 (insert tf held) s' fr2" by (rule vm_inv_ext [OF _ _ _ _ W(1)]) (simp_all add: s')
  have "load64 (pmem s2) (slot ptf (tf_index k)) = load64 (pmem s) (slot ptf (tf_index k))"
    using tf_slot(2) [of k] al(2) ptf fk by (intro slot_cong) (auto simp: forked_def page_member)
  then show "load64 (pmem s') (tf + tf_offset k) = (if k = A0 then 0 else load64 (pmem s) (ptf + tf_offset k))"
    unfolding s'(1) copy_tf_load [OF al(1)] tf_slot(1) [symmetric] by simp
  have hi: "va < MAXVA" if "va < PGROUNDUP sz" for va
    using that PGROUNDUP_user [OF sz] by (simp add: word_less_nat_alt word_le_nat_alt TRAPFRAME_eq MAXVA_eq)
  have rt: "is_root tp2 old" "is_root tp2 p" and rt2: "is_root tp r \<Longrightarrow> is_root tp2 r" for r using roots r by auto
  show "forked tp held old p sz (pmem s) (pmem s')"
    unfolding forked_def
  proof (intro conjI allI impI)
    show "pmem s' x = pmem s x" if "PGROUNDDOWN x \<in> held" for x
    proof -
      have "PGROUNDDOWN x \<noteq> tf" using that tf by auto
      then show ?thesis using out fk that by (simp add: forked_def)
    qed
  qed (use fk W(3) [OF rt(2)] W(3) [OF rt2] W(2) [OF rt(1) hi] W(2) [OF rt(2) hi] in \<open>simp_all add: forked_def\<close>)
qed

lemma fork_files_nextpid: "fork_files me np is s = Inr s' \<Longrightarrow> nextpid s' = nextpid s"
  by (induction "is" arbitrary: s) (auto simp: rbind_def filedup_def upd_file_def split: option.splits sum.splits if_splits)

definition child :: "symbols \<Rightarrow> nat \<Rightarrow> nat \<Rightarrow> uint64 \<Rightarrow> uint64 \<Rightarrow> 'a pstate_scheme \<Rightarrow> proc" where
  "child K me np tf p s = (new_proc K (nextpid s) tf p (procs s ! np))\<lparr>p_sz := p_sz (procs s ! me),
     p_ofile := p_ofile (procs s ! me), p_cwd := p_cwd (procs s ! me),
     p_name := safestrcpy (p_name (procs s ! np)) (p_name (procs s ! me)) 16, p_parent := Some me, p_state := RUNNABLE\<rparr>"

text \<open>The parent's side of \<open>fork\<close>, from the two calls that may fail to the end.\<close>

lemma fork_run:
  fixes s :: "'a fstate_scheme"
  assumes a: "allocproc K s = Inr (Some np, s1)" "uvmcopy (p_pagetable (procs s ! me)) p (p_sz (procs s ! me)) s1 = Inr (0, s2)"
    "procs s1 = (procs s)[np := new_proc K (nextpid s) tf p (procs s ! np)]" "procs s2 = procs s1"
    "nextpid s2 = nextpid s + 1" "pstate.more s2 = pstate.more s"
    and ne: "me \<noteq> np" and np: "np < length (procs s)" and o: "p_ofile (procs s ! np) = replicate NOFILE None"
    and fl: "length (p_ofile (procs s ! me)) = NOFILE"
      "\<forall>f. Some f \<in> set (p_ofile (procs s ! me)) \<longrightarrow> f < length (ftable s) \<and> 1 \<le> f_ref (ftable s ! f)"
    and cwd: "p_cwd (procs s ! me) = Some cwd" "cwd < length (itable s)"
  shows "\<exists>s'. fork K me s = Inr (nextpid s, s') \<and> procs s' = (procs s)[np := child K me np tf p s] \<and>
    nextpid s' = nextpid s + 1 \<and> pmem s' = copy_tf tf (p_trapframe (procs s ! me)) (pmem s2) \<and>
    freelist s' = freelist s2 \<and> page_refcnt s' = page_refcnt s2 \<and> kern_end s' = kern_end s2 \<and>
    (\<forall>f < length (ftable s). f_ref (ftable s' ! f) =
       f_ref (ftable s ! f) + int (count_list (p_ofile (procs s ! me)) (Some f))) \<and>
    i_ref (itable s' ! cwd) = i_ref (itable s ! cwd) + 1"
proof -
  let ?p = "procs s ! me"
  define m where "m = copy_tf tf (p_trapframe ?p) (pmem s2)"
  define s4 where "s4 = (upd_proc np (\<lambda>x. x\<lparr>p_sz := p_sz ?p\<rparr>) s2)\<lparr>pmem := m\<rparr>"
  have p4: "procs s4 = (procs s)[np := (new_proc K (nextpid s) tf p (procs s ! np))\<lparr>p_sz := p_sz ?p\<rparr>]"
    unfolding s4_def using a(3,4) np by simp
  have t4: "ftable s4 = ftable s" "itable s4 = itable s" "nextpid s4 = nextpid s + 1"
    using more_fstate [OF a(6)] a(5) by (simp_all add: s4_def)
  have k4: "pmem s4 = m" "freelist s4 = freelist s2" "page_refcnt s4 = page_refcnt s2" "kern_end s4 = kern_end s2"
    by (simp_all add: s4_def)
  have me4: "procs s4 ! me = ?p" "p_ofile (procs s4 ! np) = replicate NOFILE None" "np < length (procs s4)"
    using p4 ne np o by (simp_all add: new_proc_def)
  have "\<exists>s' fds. fork_files me np [0..<NOFILE] s4 = Inr s' \<and> files_copied me np [0..<NOFILE] s4 s' fds"
  proof (rule fork_files_spec [OF ne me4(3)])
    show "f < length (ftable s4) \<and> 1 \<le> f_ref (ftable s4 ! f)"
      if "i \<in> set [0..<NOFILE]" "p_ofile (procs s4 ! me) ! i = Some f" for i f
      using that fl unfolding me4 t4 by (metis atLeastLessThan_iff nth_mem set_upt)
  qed (use me4 in simp_all)
  then obtain s5 fds where f: "fork_files me np [0..<NOFILE] s4 = Inr s5" "files_copied me np [0..<NOFILE] s4 s5 fds" by blast
  note F = files_copiedD [OF f(2)]
  have fds: "fds = p_ofile ?p" using F(1,2) me4 fl(1) by (intro nth_equalityI) simp_all
  have me5: "procs s5 ! me = ?p" using F(3) me4 ne by simp
  have c5: "procs s5 = (procs s)[np := (new_proc K (nextpid s) tf p (procs s ! np))\<lparr>p_sz := p_sz ?p, p_ofile := p_ofile ?p\<rparr>]"
    using F(3) p4 np fds by simp
  define s' where "s' = (upd_inode cwd (\<lambda>i. i\<lparr>i_ref := i_ref i + 1\<rparr>) s5)\<lparr>procs := (procs s)[np := child K me np tf p s]\<rparr>"
  have mid: "tf_set tf A0 0 ((upd_proc np (\<lambda>x. x\<lparr>p_sz := p_sz ?p\<rparr>) s2)\<lparr>pmem :=
      mem_write (pmem s2) tf (mem_read (pmem s2) (p_trapframe ?p) tf_size)\<rparr>) = s4"
    by (simp add: tf_set_def s4_def m_def copy_tf_def)
  have p1: "procs s1 ! me = ?p" "p_pagetable (procs s1 ! np) = p" "procs s2 ! me = ?p" "p_trapframe (procs s2 ! np) = tf"
    "np < length (procs s2)" using a(3,4) ne np by (simp_all add: new_proc_def)
  have "fork K me s = rbind (fork_files me np [0..<NOFILE] s4) (\<lambda>s. case p_cwd (procs s ! me) of
      None \<Rightarrow> Inl (Fault ''idup'')
    | Some cwd \<Rightarrow>
        let (ip, s) = idup cwd s;
            s = upd_proc np (\<lambda>x. x\<lparr>p_cwd := Some ip\<rparr>) s;
            s = upd_proc np (\<lambda>x. x\<lparr>p_name := safestrcpy (p_name x) (p_name (procs s ! me)) 16\<rparr>) s;
            pid = p_pid (procs s ! np);
            s = upd_proc np (\<lambda>x. x\<lparr>p_parent := Some me\<rparr>) s;
            s = upd_proc np (\<lambda>x. x\<lparr>p_state := RUNNABLE\<rparr>) s in
        Inr (pid, s))"
    unfolding fork_def a(1) mid [symmetric] using ne p1(5) by (simp add: a(2) p1(1-4) Let_def)
  then have run: "fork K me s = Inr (nextpid s, s')"
    using ne np cwd(1) f(1)
    by (simp add: me5 idup_def upd_proc_def upd_inode_def s'_def c5 child_def new_proc_def)
  have "nextpid s5 = nextpid s4" using fork_files_nextpid [OF f(1)] .
  moreover have "f_ref (ftable s5 ! f) = f_ref (ftable s ! f) + int (count_list (p_ofile ?p) (Some f))"
    if "f < length (ftable s)" for f
    using F(4) [of f] that t4(1) me4(1) holds_file_all [of "p_ofile ?p" f] fl(1) by simp
  ultimately show ?thesis
    using run F(5) k4 t4 cwd(2) m_def by (intro exI [of _ s']) (simp add: s'_def upd_inode_def)
qed

text \<open>A process with two pages and one open file, whose trap frame is a page of its own.\<close>

definition demo_tf :: uint64 where "demo_tf = fst (kalloc demo_user)"
definition demo_kmem3 :: kmem where "demo_kmem3 = snd (kalloc demo_user)"

definition demo_parent :: proc where
  "demo_parent = demo_proc\<lparr>p_sz := 8192, p_trapframe := demo_tf, p_ofile := (replicate NOFILE None)[0 := Some 0],
     p_cwd := Some 0\<rparr>"

definition demo_fstate :: fstate where
  "demo_fstate = \<lparr>pmem = pmem demo_kmem3, freelist = freelist demo_kmem3, page_refcnt = page_refcnt demo_kmem3,
     kern_end = kern_end demo_kmem3, procs = [demo_parent, zero_proc], nextpid = 3, initproc = None, ticks = 0,
     bufs = bufs zero_lstate, disk = disk zero_lstate, disk_writes = [], klog = klog zero_lstate,
     itable = [\<lparr>i_dev = ROOTDEV, i_inum = 1, i_ref = 1, i_lock = initsleeplock [], i_valid = True, i_type = 1, i_major = 0,
       i_minor = 0, i_nlink = 1, i_size = 0, i_addrs = replicate 13 0\<rparr>], fs_sb = zero_sb,
     ftable = [\<lparr>f_type = FD_INODE, f_ref = 1, f_readable = True, f_writable = True, f_pipe = 0, f_ip = 0, f_off = 0,
       f_major = 0\<rparr>], pipes = Map.empty, cons = demo_cons, uart = demo_uart, devsw = []\<rparr>"

lemma demo_fstate_vm:
  obtains tp fr where "vm_inv tp {demo_tf} demo_fstate fr" "is_root tp demo_old" "15 \<le> length fr"
    "\<forall>va < 8192. pte_of (pmem demo_fstate) demo_old va AND PTE_V \<noteq> 0"
    "\<forall>va < 8192. user_byte (pmem demo_fstate) demo_old va = Some 0"
proof -
  obtain tp fr where d: "vm_inv tp {} demo_user fr" "is_root tp demo_old" "16 \<le> length fr"
    "\<forall>va < 8192. pte_of (pmem demo_user) demo_old va AND PTE_V \<noteq> 0 \<and> user_byte (pmem demo_user) demo_old va = Some 0"
    using demo_space by blast
  obtain p ps where fr: "fr = p # ps" using d(3) by (cases fr) auto
  obtain s' where k: "kalloc demo_user = (p, s')" "vm_inv tp {p} s' ps" "\<forall>x. PGROUNDDOWN x \<noteq> p \<longrightarrow> pmem s' x = pmem demo_user x"
    using vm_inv_kalloc [OF d(1) [unfolded fr]] by blast
  have e: "demo_tf = p" "demo_kmem3 = s'" using k(1) by (simp_all add: demo_tf_def demo_kmem3_def)
  have v: "same_view tp {} (pmem demo_user) (pmem s')" by (rule free_page_view [OF d(1) [unfolded fr] k(3)])
  have m: "pmem demo_fstate = pmem s'" by (simp add: demo_fstate_def e)
  have small: "va < TRAPFRAME" if "va < 8192" for va :: uint64
    using that by (simp add: TRAPFRAME_eq word_less_nat_alt)
  show ?thesis
  proof (rule that [of tp ps])
    show "vm_inv tp {demo_tf} demo_fstate ps"
      unfolding e by (rule vm_inv_ext [OF _ _ _ _ k(2)]) (simp_all add: demo_fstate_def e)
  qed (use d fr v small in \<open>simp_all add: m same_view_def\<close>)
qed

section \<open>Properties\<close>

text \<open>C2: \<open>fork\<close> makes a child that is the parent in everything but its identity: it has the same
  size, files, directory and registers (but 0 in \<open>a0\<close>, so that it sees \<open>fork\<close> return 0 where the parent
  sees the child's new number), it reads the same bytes, and it is runnable.  Its pages are shared with
  the parent and writable in neither until copied; every open file has one more reference for each descriptor; no other
  process changes, none reads anything different, and the memory invariant holds with the new
  address space.  It succeeds whenever a slot of the process table is free and the free pages cover the
  trap frame, the page table and two pages for each page shared.\<close>

theorem fork_child:
  fixes s :: "'a fstate_scheme"
  assumes "vm_inv tp held s fr" and "is_root tp (p_pagetable (procs s ! me))" and "p_sz (procs s ! me) \<le> TRAPFRAME"
    and "\<forall>va < PGROUNDUP (p_sz (procs s ! me)). pte_of (pmem s) (p_pagetable (procs s ! me)) va AND PTE_V \<noteq> 0"
    and "p_trapframe (procs s ! me) \<in> held" and "p_state (procs s ! me) \<noteq> UNUSED"
    and "first_index (\<lambda>x. p_state x = UNUSED) (procs s) = Some np" and "p_ofile (procs s ! np) = replicate NOFILE None"
    and "length (p_ofile (procs s ! me)) = NOFILE"
    and "\<forall>f. Some f \<in> set (p_ofile (procs s ! me)) \<longrightarrow> f < length (ftable s) \<and> 1 \<le> f_ref (ftable s ! f)"
    and "p_cwd (procs s ! me) = Some cwd" and "cwd < length (itable s)"
    and "2 * unat (PGROUNDUP (p_sz (procs s ! me))) + 6 * 4096 < 4096 * length fr"
  shows "\<exists>s' tp' fr' c. fork K me s = Inr (nextpid s, s') \<and> procs s' = (procs s)[np := c] \<and>
    p_state c = RUNNABLE \<and> p_pid c = nextpid s \<and> p_parent c = Some me \<and> p_sz c = p_sz (procs s ! me) \<and>
    p_ofile c = p_ofile (procs s ! me) \<and> p_cwd c = p_cwd (procs s ! me) \<and> nextpid s' = nextpid s + 1 \<and>
    (\<forall>r. load64 (pmem s') (p_trapframe c + tf_offset r) =
       (if r = A0 then 0 else load64 (pmem s) (p_trapframe (procs s ! me) + tf_offset r))) \<and>
    forked tp held (p_pagetable (procs s ! me)) (p_pagetable c) (p_sz c) (pmem s) (pmem s') \<and>
    vm_inv tp' (insert (p_trapframe c) held) s' fr' \<and> p_trapframe c \<notin> held \<and>
    (\<forall>r. is_root tp' r \<longleftrightarrow> is_root tp r \<or> r = p_pagetable c) \<and> \<not> is_root tp (p_pagetable c) \<and>
    (\<forall>f < length (ftable s). f_ref (ftable s' ! f) = f_ref (ftable s ! f) + int (count_list (p_ofile c) (Some f))) \<and>
    i_ref (itable s' ! cwd) = i_ref (itable s ! cwd) + 1"
proof -
  let ?p = "procs s ! me"
  obtain tf p fr' where fr: "fr = tf # p # fr'" using assms(13) by (cases fr; cases "tl fr") auto
  note inv = assms(1) [unfolded fr]
  have np: "np < length (procs s)" "p_state (procs s ! np) = UNUSED" using assms(7) by (simp_all add: first_index_Some)
  have ne: "me \<noteq> np" using assms(6) np(2) by auto
  have room: "2 * unat (PGROUNDUP (p_sz ?p)) + 4 * 4096 < 4096 * length fr'" using assms(13) fr by simp
  obtain s1 s2 tp2 fr2 where a: "allocproc K s = Inr (Some np, s1)" "uvmcopy (p_pagetable ?p) p (p_sz ?p) s1 = Inr (0, s2)"
    "procs s1 = (procs s)[np := new_proc K (nextpid s) tf p (procs s ! np)]" "procs s2 = procs s1"
    "nextpid s2 = nextpid s + 1" "pstate.more s2 = pstate.more s" "vm_inv tp2 (insert tf held) s2 fr2"
    "\<forall>r. is_root tp2 r \<longleftrightarrow> is_root tp r \<or> r = p" "\<not> is_root tp p"
    "forked tp held (p_pagetable ?p) p (p_sz ?p) (pmem s) (pmem s2)"
    using fork_space [OF inv assms(2-4,7) room, of K] by blast
  obtain s' where r: "fork K me s = Inr (nextpid s, s')" "procs s' = (procs s)[np := child K me np tf p s]"
    "nextpid s' = nextpid s + 1" "pmem s' = copy_tf tf (p_trapframe ?p) (pmem s2)"
    "freelist s' = freelist s2" "page_refcnt s' = page_refcnt s2" "kern_end s' = kern_end s2"
    "\<forall>f < length (ftable s). f_ref (ftable s' ! f) = f_ref (ftable s ! f) + int (count_list (p_ofile ?p) (Some f))"
    "i_ref (itable s' ! cwd) = i_ref (itable s ! cwd) + 1"
    using fork_run [OF a(1-6) ne np(1) assms(8-12)] by blast
  have c: "p_state (child K me np tf p s) = RUNNABLE" "p_pid (child K me np tf p s) = nextpid s"
    "p_parent (child K me np tf p s) = Some me" "p_sz (child K me np tf p s) = p_sz ?p"
    "p_ofile (child K me np tf p s) = p_ofile ?p" "p_cwd (child K me np tf p s) = p_cwd ?p"
    "p_trapframe (child K me np tf p s) = tf" "p_pagetable (child K me np tf p s) = p"
    by (simp_all add: child_def new_proc_def)
  note M = fork_memory [OF inv assms(2,3,5) a(7-10) r(4-7)]
  show ?thesis
    by (intro exI [of _ s'] exI [of _ tp2] exI [of _ fr2] exI [of _ "child K me np tf p s"])
      (use r c a(8,9) M in simp)
qed

theorem fork_child_witness:
  "\<forall>K. \<exists>s' c. fork K 0 demo_fstate = Inr (3, s') \<and> procs s' = [demo_parent, c] \<and> p_state c = RUNNABLE \<and>
    user_byte (pmem s') (p_pagetable c) 4097 = Some 0 \<and> f_ref (ftable s' ! 0) = 2"
proof (rule allI)
  fix K
  obtain tp fr where d: "vm_inv tp {demo_tf} demo_fstate fr" "is_root tp demo_old" "15 \<le> length fr"
    "\<forall>va < 8192. pte_of (pmem demo_fstate) demo_old va AND PTE_V \<noteq> 0"
    "\<forall>va < 8192. user_byte (pmem demo_fstate) demo_old va = Some 0" by (rule demo_fstate_vm)
  have p: "procs demo_fstate = [demo_parent, zero_proc]" "nextpid demo_fstate = 3" "f_ref (ftable demo_fstate ! 0) = 1"
    "length (ftable demo_fstate) = 1" "length (itable demo_fstate) = 1" by (simp_all add: demo_fstate_def)
  have q: "p_pagetable demo_parent = demo_old" "p_sz demo_parent = 8192" "p_trapframe demo_parent = demo_tf"
    "p_state demo_parent = RUNNING" "p_cwd demo_parent = Some 0" "p_ofile demo_parent = Some 0 # replicate 15 None"
    by (simp_all add: demo_parent_def demo_proc_def NOFILE_def replicate_Suc numeral_eq_Suc)
  have z: "p_state zero_proc = UNUSED" "p_ofile zero_proc = replicate NOFILE None" by (simp_all add: zero_proc_def)
  have up: "PGROUNDUP 8192 = 8192" and small: "(8192 :: uint64) \<le> TRAPFRAME" by (simp_all add: PGROUNDUP_def TRAPFRAME_eq)
  obtain s' c where r: "fork K 0 demo_fstate = Inr (3, s')" "procs s' = [demo_parent, c]" "p_state c = RUNNABLE"
    "forked tp {demo_tf} demo_old (p_pagetable c) 8192 (pmem demo_fstate) (pmem s')"
    "f_ref (ftable s' ! 0) = 1 + int (count_list (Some 0 # replicate 15 None) (Some 0))"
    using fork_child [of tp "{demo_tf}" demo_fstate fr 0 1 0 K] d small
    by (auto simp: p q z up NOFILE_def)
  have "user_byte (pmem s') (p_pagetable c) 4097 = Some 0" using r(4) d(5) up by (simp add: forked_def)
  moreover have "f_ref (ftable s' ! 0) = 2" using r(5) by simp
  ultimately show "\<exists>s' c. fork K 0 demo_fstate = Inr (3, s') \<and> procs s' = [demo_parent, c] \<and> p_state c = RUNNABLE \<and>
    user_byte (pmem s') (p_pagetable c) 4097 = Some 0 \<and> f_ref (ftable s' ! 0) = 2" using r(1-3) by blast
qed

end
