(* ===== verification/Ulib.thy ===== *)
theory Ulib
  imports Printf
begin

text \<open>
  The user library (\<open>user/ulib.c\<close>).  Its functions have the names of the kernel's, so they carry the
  prefix \<open>u\<close> here.  Blocks are blocks of the process's memory; strings are read and written through
  pointers, as in \<open>CString\<close>, or, where the result is a position in the string, given as the list of
  the bytes before the nul.
\<close>

section \<open>Strings\<close>

text \<open>The loops end at a nul; if there is none they do not end, which is \<open>None\<close>.\<close>

partial_function (option) ustrcpy_loop :: "ptr \<Rightarrow> ptr \<Rightarrow> nat \<Rightarrow> ptr option" where
  "ustrcpy_loop s t i = (if t i \<noteq> 0 then ustrcpy_loop (s(i := t i)) t (Suc i) else Some (s(i := t i)))"

definition ustrcpy :: "ptr \<Rightarrow> ptr \<Rightarrow> ptr option" where
  "ustrcpy s t = ustrcpy_loop s t 0"

partial_function (option) ustrcmp_loop :: "ptr \<Rightarrow> ptr \<Rightarrow> nat \<Rightarrow> int option" where
  "ustrcmp_loop p q i =
     (if p i \<noteq> 0 \<and> p i = q i then ustrcmp_loop p q (Suc i) else Some (uint (p i) - uint (q i)))"

definition ustrcmp :: "ptr \<Rightarrow> ptr \<Rightarrow> int option" where
  "ustrcmp p q = ustrcmp_loop p q 0"

partial_function (option) ustrlen_loop :: "ptr \<Rightarrow> nat \<Rightarrow> nat option" where
  "ustrlen_loop s n = (if s n \<noteq> 0 then ustrlen_loop s (Suc n) else Some n)"

definition ustrlen :: "ptr \<Rightarrow> uint32 option" where
  "ustrlen s = map_option of_nat (ustrlen_loop s 0)"

text \<open>
  \<open>strchr\<close> looks at the bytes up to the first nul; its result is an offset.
\<close>

fun strchr :: "bytes \<Rightarrow> uint8 \<Rightarrow> nat option" where
  "strchr [] c = None"
| "strchr (a # s) c =
     (if a = 0 then None else if a = c then Some 0 else map_option Suc (strchr s c))"

lemma strchr_Some:
  "strchr s c = Some i \<Longrightarrow> i < length s \<and> s ! i = c \<and> c \<notin> set (take i s)"
  by (induction s arbitrary: i) (auto split: if_splits)

text \<open>\<open>atoi\<close> stops at the first byte that is not a digit.\<close>

fun atoi_loop :: "uint32 \<Rightarrow> bytes \<Rightarrow> uint32" where
  "atoi_loop n [] = n"
| "atoi_loop n (c # s) =
     (if ch CHR ''0'' \<le> c \<and> c \<le> ch CHR ''9'' then atoi_loop (n * 10 + ucast c - ucast (ch CHR ''0'')) s else n)"

definition atoi :: "bytes \<Rightarrow> uint32" where
  "atoi s = atoi_loop 0 s"

section \<open>Blocks\<close>

fun umemset_loop :: "memory \<Rightarrow> uint64 \<Rightarrow> uint8 \<Rightarrow> nat \<Rightarrow> memory" where
  "umemset_loop m cdst c 0 = m"
| "umemset_loop m cdst c (Suc k) = umemset_loop (m(cdst := c)) (cdst + 1) c k"

definition umemset :: "memory \<Rightarrow> uint64 \<Rightarrow> uint32 \<Rightarrow> uint32 \<Rightarrow> memory" where
  "umemset m dst c n = umemset_loop m dst (ucast c) (unat n)"

text \<open>The counter of \<open>memmove\<close> is an \<open>int\<close>; a negative one copies nothing.\<close>

definition umemmove :: "memory \<Rightarrow> uint64 \<Rightarrow> uint64 \<Rightarrow> int \<Rightarrow> memory" where
  "umemmove m vdst vsrc n =
     (if vdst < vsrc then memmove_up m vdst vsrc (nat n)
      else memmove_down m (vdst + word_of_int n) (vsrc + word_of_int n) (nat n))"

fun umemcmp :: "memory \<Rightarrow> uint64 \<Rightarrow> uint64 \<Rightarrow> nat \<Rightarrow> int" where
  "umemcmp m p1 p2 0 = 0"
| "umemcmp m p1 p2 (Suc n) =
     (if m p1 \<noteq> m p2 then uint (m p1) - uint (m p2) else umemcmp m (p1 + 1) (p2 + 1) n)"

definition umemcpy :: "memory \<Rightarrow> uint64 \<Rightarrow> uint64 \<Rightarrow> uint32 \<Rightarrow> memory" where
  "umemcpy m dst src n = umemmove m dst src (sint n)"

section \<open>Input\<close>

text \<open>
  An open descriptor: the bytes still to come, and the numbers of bytes that the next calls of
  \<open>read\<close> are willing to return.  A call returns at least one byte unless none is wanted or left.
\<close>

type_synonym input = "bytes \<times> nat list"

fun uread :: "nat \<Rightarrow> input \<Rightarrow> bytes \<times> input" where
  "uread n (xs, []) = (take n xs, drop n xs, [])"
| "uread n (xs, k # ks) = (take (min n (Suc k)) xs, drop (min n (Suc k)) xs, ks)"

fun gets_loop :: "nat \<Rightarrow> input \<Rightarrow> bytes \<times> input" where
  "gets_loop 0 fd = ([], fd)"
| "gets_loop (Suc k) fd =
     (case uread 1 fd of
        (c # _, fd) \<Rightarrow>
          if c = 10 \<or> c = 13 then ([c], fd)
          else let (buf, fd) = gets_loop k fd in (c # buf, fd)
      | ([], fd) \<Rightarrow> ([], fd))"

text \<open>\<open>gets\<close> returns the bytes it has put in front of the nul, at most \<open>max - 1\<close>.\<close>

definition gets :: "int \<Rightarrow> input \<Rightarrow> bytes \<times> input" where
  "gets mx fd = gets_loop (nat (mx - 1)) fd"

text \<open>\<open>stat\<close> over the system calls \<open>open\<close>, \<open>fstat\<close> and \<open>close\<close> of the process's world \<open>'s\<close>.\<close>

definition ustat ::
  "(bytes \<Rightarrow> 's \<Rightarrow> int \<times> 's) \<Rightarrow> (int \<Rightarrow> 's \<Rightarrow> int \<times> bytes \<times> 's) \<Rightarrow> (int \<Rightarrow> 's \<Rightarrow> 's) \<Rightarrow> bytes \<Rightarrow> bytes \<Rightarrow> 's \<Rightarrow> int \<times> bytes \<times> 's" where
  "ustat sysopen sysfstat sysclose n st s =
     (let (fd, s) = sysopen n s in
      if fd < 0 then (-1, st, s)
      else
        let (r, st, s) = sysfstat fd s in
        (r, st, sysclose fd s))"

end
