(* ===== verification/Grep.thy ===== *)
theory Grep
  imports Ulib
begin

text \<open>
  The user program \<open>grep\<close> (\<open>user/grep.c\<close>): the matcher of Kernighan and Pike and the loop that
  cuts the input into lines.  A C string is the list of its bytes before the nul, so reading the
  nul is the case of the empty list.  The matcher is proved to decide the language of the
  pattern; the loop is proved to print the matching lines whatever sizes \<open>read\<close> returns.
\<close>

section \<open>The matcher\<close>

fun matchhere :: "bytes \<Rightarrow> bytes \<Rightarrow> bool"
  and matchstar :: "uint8 \<Rightarrow> bytes \<Rightarrow> bytes \<Rightarrow> bool" where
  "matchhere [] text = True"
| "matchhere (c # re) text =
     (if re \<noteq> [] \<and> hd re = ch CHR ''*'' then matchstar c (tl re) text
      else if c = ch CHR ''$'' \<and> re = [] then text = []
      else if text \<noteq> [] \<and> (c = ch CHR ''.'' \<or> c = hd text) then matchhere re (tl text)
      else False)"
| "matchstar c re text =
     (if matchhere re text then True
      else if text \<noteq> [] \<and> (hd text = c \<or> c = ch CHR ''.'') then matchstar c re (tl text)
      else False)"

declare matchhere.simps(2) [simp del] matchstar.simps [simp del]

fun match_loop :: "bytes \<Rightarrow> bytes \<Rightarrow> bool" where
  "match_loop re [] = matchhere re []"
| "match_loop re (c # text) = (if matchhere re (c # text) then True else match_loop re text)"

definition match :: "bytes \<Rightarrow> bytes \<Rightarrow> bool" where
  "match re text =
     (if re \<noteq> [] \<and> hd re = ch CHR ''^'' then matchhere (tl re) text
      else match_loop re text)"

section \<open>The lines of the buffer\<close>

text \<open>
  The inner loop, on the bytes from \<open>p\<close> to the end of the data: the bytes written to
  descriptor 1 and the bytes left after the last newline.
\<close>

function grep_lines :: "bytes \<Rightarrow> bytes \<Rightarrow> bytes \<times> bytes" where
  "grep_lines pattern p =
     (case strchr p 10 of
        None \<Rightarrow> ([], p)
      | Some q \<Rightarrow>
          let (out, rest) = grep_lines pattern (drop (q + 1) p) in
          ((if match pattern (take q p) then take (q + 1) p else []) @ out, rest))"
  by pat_completeness auto
termination
  by (relation "measure (\<lambda>(re, p). length p)") (auto dest!: strchr_Some)

declare grep_lines.simps [simp del]

definition GREP_BUF :: nat where "GREP_BUF = 1024"

text \<open>
  The outer loop; \<open>buf\<close> holds the \<open>m\<close> bytes kept from the reads before.  With \<open>n\<close> bytes asked
  for, \<open>buf[m]\<close> stays inside the array after every read.
\<close>

function grep_loop :: "bytes \<Rightarrow> bytes \<Rightarrow> input \<Rightarrow> bytes" where
  "grep_loop pattern buf fd =
     (let (new, fd') = uread (GREP_BUF - length buf - 1) fd in
      if new = [] then []
      else
        let (out, rest) = grep_lines pattern (buf @ new) in
        out @ grep_loop pattern rest fd')"
  by pat_completeness auto
termination
proof (relation "measure (\<lambda>(re, b, fd). length (fst fd))", goal_cases)
  case (2 pattern buf fd x new fd' xa out rest)
  then show ?case by (cases "(GREP_BUF - length buf - 1, fd)" rule: uread.cases) (auto split: if_splits)
qed simp

declare grep_loop.simps [simp del]

definition grep :: "bytes \<Rightarrow> input \<Rightarrow> bytes" where
  "grep pattern fd = grep_loop pattern [] fd"

text \<open>
  The program: what it writes to descriptors 1 and 2 and its exit status.  \<open>openf\<close> is the file
  system as \<open>open\<close> shows it, \<open>stdin\<close> is descriptor 0.
\<close>

fun grep_files :: "(bytes \<Rightarrow> input option) \<Rightarrow> bytes \<Rightarrow> bytes list \<Rightarrow> bytes \<times> int" where
  "grep_files openf pattern [] = ([], 0)"
| "grep_files openf pattern (f # fs) =
     (case openf f of
        None \<Rightarrow> (str ''grep: cannot open '' @ f @ [10], 1)
      | Some fd \<Rightarrow>
          let (out, status) = grep_files openf pattern fs in
          (grep pattern fd @ out, status))"

definition grep_main ::
  "(bytes \<Rightarrow> input option) \<Rightarrow> input \<Rightarrow> bytes list \<Rightarrow> bytes \<times> bytes \<times> int" where
  "grep_main openf stdin argv =
     (if length argv \<le> 1 then ([], str ''usage: grep pattern [file ...]'' @ [10], 1)
      else
        let pattern = argv ! 1 in
        if length argv \<le> 2 then (grep pattern stdin, [], 0)
        else
          let (out, status) = grep_files openf pattern (drop 2 argv) in
          (out, [], status))"

section \<open>The language of a pattern\<close>

text \<open>
  A pattern is a sequence of bytes, dots and starred ones, perhaps anchored at either end.
  \<open>lang\<close> is the set of strings that its body stands for.
\<close>

datatype atom = Byte uint8 | Dot
datatype item = Once atom | Star atom

fun accepts :: "atom \<Rightarrow> uint8 \<Rightarrow> bool" where
  "accepts (Byte c) a = (a = c)"
| "accepts Dot a = True"

definition atom_of :: "uint8 \<Rightarrow> atom" where
  "atom_of c = (if c = ch CHR ''.'' then Dot else Byte c)"

fun parse_re :: "bytes \<Rightarrow> item list \<times> bool" where
  "parse_re [] = ([], False)"
| "parse_re [c] = (if c = ch CHR ''$'' then ([], True) else ([Once (atom_of c)], False))"
| "parse_re (c # d # re) =
     (if d = ch CHR ''*'' then apfst ((#) (Star (atom_of c))) (parse_re re)
      else apfst ((#) (Once (atom_of c))) (parse_re (d # re)))"

fun lang :: "item list \<Rightarrow> bytes set" where
  "lang [] = {[]}"
| "lang (Once a # xs) = {c # u |c u. accepts a c \<and> u \<in> lang xs}"
| "lang (Star a # xs) = {s @ u |s u. (\<forall>c \<in> set s. accepts a c) \<and> u \<in> lang xs}"

text \<open>A prefix of the text, the whole of it with the end anchor, is in the language.\<close>

definition here :: "item list \<times> bool \<Rightarrow> bytes \<Rightarrow> bool" where
  "here p text \<longleftrightarrow> (\<exists>u v. text = u @ v \<and> u \<in> lang (fst p) \<and> (snd p \<longrightarrow> v = []))"

lemma here_Nil: "here ([], e) text \<longleftrightarrow> (e \<longrightarrow> text = [])"
  by (auto simp: here_def)

lemma here_Once:
  "here (Once a # xs, e) text \<longleftrightarrow> (\<exists>c t. text = c # t \<and> accepts a c \<and> here (xs, e) t)"
proof
  assume "here (Once a # xs, e) text"
  then obtain c u v where "text = (c # u) @ v" "accepts a c" "u \<in> lang xs" "e \<longrightarrow> v = []"
    unfolding here_def fst_conv snd_conv lang.simps by blast
  then show "\<exists>c t. text = c # t \<and> accepts a c \<and> here (xs, e) t"
    unfolding here_def fst_conv snd_conv append_Cons by blast
next
  assume "\<exists>c t. text = c # t \<and> accepts a c \<and> here (xs, e) t"
  then obtain c u v where "text = (c # u) @ v" "accepts a c" "u \<in> lang xs" "e \<longrightarrow> v = []"
    unfolding here_def fst_conv snd_conv by auto
  then show "here (Once a # xs, e) text"
    unfolding here_def fst_conv snd_conv lang.simps by blast
qed

lemma here_Star_split:
  "here (Star a # xs, e) text \<longleftrightarrow> (\<exists>s t. text = s @ t \<and> (\<forall>c \<in> set s. accepts a c) \<and> here (xs, e) t)"
proof
  assume "here (Star a # xs, e) text"
  then obtain s u v where "text = s @ (u @ v)" "\<forall>c \<in> set s. accepts a c" "u \<in> lang xs" "e \<longrightarrow> v = []"
    unfolding here_def fst_conv snd_conv lang.simps append_assoc [symmetric] by blast
  then show "\<exists>s t. text = s @ t \<and> (\<forall>c \<in> set s. accepts a c) \<and> here (xs, e) t"
    unfolding here_def fst_conv snd_conv by blast
next
  assume "\<exists>s t. text = s @ t \<and> (\<forall>c \<in> set s. accepts a c) \<and> here (xs, e) t"
  then obtain s u v where "text = (s @ u) @ v" "\<forall>c \<in> set s. accepts a c" "u \<in> lang xs" "e \<longrightarrow> v = []"
    unfolding here_def fst_conv snd_conv by auto
  then show "here (Star a # xs, e) text"
    unfolding here_def fst_conv snd_conv lang.simps by blast
qed

lemma here_Star:
  "here (Star a # xs, e) text \<longleftrightarrow>
   here (xs, e) text \<or> (\<exists>c t. text = c # t \<and> accepts a c \<and> here (Star a # xs, e) t)"
  (is "?L = ?R")
proof
  assume ?L
  then obtain s t where s: "text = s @ t" "\<forall>c \<in> set s. accepts a c" "here (xs, e) t"
    unfolding here_Star_split by blast
  then show ?R by (cases s) (auto simp: here_Star_split)
next
  assume ?R
  then show ?L
  proof
    assume "here (xs, e) text"
    then have "text = [] @ text \<and> (\<forall>c \<in> set []. accepts a c) \<and> here (xs, e) text" by simp
    then show ?L unfolding here_Star_split by blast
  next
    assume "\<exists>c t. text = c # t \<and> accepts a c \<and> here (Star a # xs, e) t"
    then obtain c s t where "text = (c # s) @ t" "\<forall>d \<in> set (c # s). accepts a d" "here (xs, e) t"
      unfolding here_Star_split by auto
    then show ?L unfolding here_Star_split by blast
  qed
qed

lemma accepts_atom_of: "accepts (atom_of c) a \<longleftrightarrow> c = ch CHR ''.'' \<or> c = a"
  by (auto simp: atom_of_def)

lemma parse_re_Cons:
  "parse_re (c # re) =
     (if re \<noteq> [] \<and> hd re = ch CHR ''*'' then apfst ((#) (Star (atom_of c))) (parse_re (tl re))
      else if c = ch CHR ''$'' \<and> re = [] then ([], True)
      else apfst ((#) (Once (atom_of c))) (parse_re re))"
  by (cases re) auto

lemma here_apfst:
  "here (apfst ((#) x) p) text \<longleftrightarrow> here (x # fst p, snd p) text"
  by (cases p) simp

lemma matchhere_here:
  "matchhere re t \<longleftrightarrow> here (parse_re re) t"
  "matchstar c re t \<longleftrightarrow> here (Star (atom_of c) # fst (parse_re re), snd (parse_re re)) t"
proof (induction re t and c re t rule: matchhere_matchstar.induct)
  case (1 t)
  then show ?case by (simp add: here_Nil)
next
  case (2 c re t)
  show ?case
    using 2
    by (cases t) (auto simp: matchhere.simps(2) parse_re_Cons here_apfst here_Nil here_Once accepts_atom_of)
next
  case (3 c re t)
  have p: "here (fst (parse_re re), snd (parse_re re)) t \<longleftrightarrow> matchhere re t"
    using 3(1) by simp
  show ?case
  proof (cases t)
    case Nil
    then show ?thesis using p
      by (subst here_Star) (simp add: matchstar.simps [of c re])
  next
    case (Cons a t1)
    then show ?thesis using p 3(2)
      by (subst here_Star) (auto simp: matchstar.simps [of c re] accepts_atom_of)
  qed
qed

lemma match_loop_suffix:
  "match_loop re t \<longleftrightarrow> (\<exists>x y. t = x @ y \<and> matchhere re y)"
proof (induction t)
  case (Cons c t)
  then show ?case by (auto simp: Cons_eq_append_conv)
qed simp

text \<open>C30: \<open>grep\<close>'s matcher decides the language of the pattern: a text matches exactly when
some part of it is in the language of the body of the pattern, that part starting at the
beginning under the anchor \<open>^\<close> and reaching the end under the anchor \<open>$\<close>.\<close>

theorem match_decides_language:
  "match re text \<longleftrightarrow>
   (let bol = (re \<noteq> [] \<and> hd re = ch CHR ''^'');
        (body, eol) = parse_re (if bol then tl re else re)
    in \<exists>x u v. text = x @ u @ v \<and> u \<in> lang body \<and> (bol \<longrightarrow> x = []) \<and> (eol \<longrightarrow> v = []))"
proof (cases "re \<noteq> [] \<and> hd re = ch CHR ''^''")
  case True
  then have "match re text \<longleftrightarrow> here (parse_re (tl re)) text"
    by (simp add: match_def matchhere_here)
  then show ?thesis using True by (auto simp: here_def Let_def split: prod.split)
next
  case False
  then have "match re text = match_loop re text" by (auto simp: match_def)
  then have "match re text \<longleftrightarrow> (\<exists>x y. text = x @ y \<and> here (parse_re re) y)"
    by (simp add: match_loop_suffix matchhere_here)
  moreover have "(\<exists>x y. text = x @ y \<and> here (parse_re re) y) \<longleftrightarrow>
    (\<exists>x u v. text = x @ u @ v \<and> u \<in> lang (fst (parse_re re)) \<and> (snd (parse_re re) \<longrightarrow> v = []))"
    unfolding here_def by blast
  moreover have b: "(re \<noteq> [] \<and> hd re = ch CHR ''^'') = False" using False by blast
  ultimately show ?thesis unfolding b by (simp add: split_beta)
qed

theorem match_decides_language_witness:
  "\<exists>x u v. [103, 97, 98, 98 :: uint8] = x @ u @ v \<and> u \<in> lang [Once (Byte 97), Star (Byte 98)] \<and> v = []"
proof -
  have "match [97, 98, 42, 36] [103, 97, 98, 98]"
    by (simp add: match_def matchhere.simps(2) matchstar.simps ch_def)
  then show ?thesis
    using match_decides_language [of "[97, 98, 42, 36]" "[103, 97, 98, 98]"]
    by (simp add: atom_of_def ch_def)
qed

section \<open>The lines of the input\<close>

text \<open>The lines of the input that end in a newline, without it.\<close>

function input_lines :: "bytes \<Rightarrow> bytes list" where
  "input_lines xs =
     (if 10 \<in> set xs then takeWhile (\<lambda>c. c \<noteq> 10) xs # input_lines (tl (dropWhile (\<lambda>c. c \<noteq> 10) xs))
      else [])"
  by pat_completeness auto
termination
proof (relation "measure length", goal_cases)
  case (2 xs)
  then have "dropWhile (\<lambda>c. c \<noteq> 10) xs \<noteq> []" by auto
  then show ?case
    using length_dropWhile_le [of "\<lambda>c. c \<noteq> 10" xs]
    by (cases "dropWhile (\<lambda>c. c \<noteq> 10) xs") auto
qed simp

declare input_lines.simps [simp del]

lemma input_lines_none: "10 \<notin> set xs \<Longrightarrow> input_lines xs = []"
  by (simp add: input_lines.simps)

lemma input_lines_line: "10 \<notin> set l \<Longrightarrow> input_lines (l @ 10 # xs) = l # input_lines xs"
proof -
  assume l: "10 \<notin> set l"
  then have d: "takeWhile (\<lambda>c. c \<noteq> 10) (l @ 10 # xs) = l \<and> dropWhile (\<lambda>c. c \<noteq> 10) (l @ 10 # xs) = 10 # xs"
    by (induction l) auto
  show ?thesis by (subst input_lines.simps) (simp add: d)
qed

lemma strchr_none: "10 \<notin> set xs \<Longrightarrow> strchr xs 10 = None"
  by (induction xs) auto

lemma strchr_line: "10 \<notin> set l \<Longrightarrow> 0 \<notin> set l \<Longrightarrow> strchr (l @ 10 # xs) 10 = Some (length l)"
  by (induction l) auto

lemma grep_lines_none: "10 \<notin> set xs \<Longrightarrow> grep_lines re xs = ([], xs)"
  by (simp add: grep_lines.simps strchr_none)

lemma grep_lines_line:
  "10 \<notin> set l \<Longrightarrow> 0 \<notin> set l \<Longrightarrow>
   grep_lines re (l @ 10 # xs) =
     ((if match re l then l @ [10] else []) @ fst (grep_lines re xs), snd (grep_lines re xs))"
  by (subst grep_lines.simps) (simp add: strchr_line split_beta)

text \<open>Induction over the lines of a list of bytes.\<close>

lemma lines_induct [case_names last_line line]:
  assumes "\<And>xs. 10 \<notin> set xs \<Longrightarrow> P xs"
    and "\<And>l xs. 10 \<notin> set l \<Longrightarrow> P xs \<Longrightarrow> P (l @ (10 :: uint8) # xs)"
  shows "P xs"
proof (induction xs rule: measure_induct_rule [of length])
  case (less xs)
  show ?case
  proof (cases "10 \<in> set xs")
    case True
    then obtain l ys where "xs = l @ 10 # ys" "10 \<notin> set l" by (meson split_list_first)
    then show ?thesis using less assms(2) by simp
  qed (rule assms(1))
qed

lemma grep_lines_spec:
  "0 \<notin> set xs \<Longrightarrow> fst (grep_lines re xs) = concat (map (\<lambda>l. l @ [10]) (filter (match re) (input_lines xs)))"
  by (induction xs rule: lines_induct)
    (simp_all add: grep_lines_none input_lines_none grep_lines_line input_lines_line)

lemma grep_lines_append:
  "0 \<notin> set xs \<Longrightarrow>
   fst (grep_lines re (xs @ ys)) = fst (grep_lines re xs) @ fst (grep_lines re (snd (grep_lines re xs) @ ys))"
  by (induction xs rule: lines_induct)
    (simp_all add: grep_lines_none grep_lines_line)

lemma grep_lines_rest:
  "0 \<notin> set xs \<Longrightarrow>
   (let rest = snd (grep_lines re xs) in
    10 \<notin> set rest \<and> set rest \<subseteq> set xs \<and> length rest \<le> length xs \<and>
    set (input_lines (rest @ ys)) \<subseteq> set (input_lines (xs @ ys)))"
  by (induction xs rule: lines_induct)
    (auto simp: grep_lines_none grep_lines_line input_lines_line Let_def)

lemma uread_split:
  assumes "uread n (xs, ks) = (new, ys, ks')"
  shows "xs = new @ ys" and "length new \<le> n" and "new = [] \<longleftrightarrow> n = 0 \<or> xs = []"
  using assms by (cases ks; auto)+

lemma grep_loop_spec:
  assumes "10 \<notin> set buf" and "length buf < GREP_BUF" and "0 \<notin> set (buf @ fst fd)"
    and "\<forall>l \<in> set (input_lines (buf @ fst fd)). length l + 1 < GREP_BUF"
  shows "grep_loop re buf fd = fst (grep_lines re (buf @ fst fd))"
  using assms
proof (induction re buf fd rule: grep_loop.induct)
  case (1 re buf fd)
  obtain xs ks where fd: "fd = (xs, ks)" by (cases fd)
  obtain new ys ks' where r: "uread (GREP_BUF - Suc (length buf)) (xs, ks) = (new, ys, ks')"
    by (metis prod_cases3)
  obtain out rest where g: "grep_lines re (buf @ new) = (out, rest)" by (cases "grep_lines re (buf @ new)")
  note s = uread_split [OF r]
  have loop: "grep_loop re buf fd = (if new = [] then [] else out @ grep_loop re rest (ys, ks'))"
    by (subst grep_loop.simps) (simp add: fd r g)
  show ?case
  proof (cases "new = []")
    case True
    have "10 \<notin> set (buf @ xs)"
    proof (cases "xs = []")
      case False
      with True s(3) "1.prems"(2) have full: "length buf = GREP_BUF - 1" by linarith
      show ?thesis
      proof
        assume "10 \<in> set (buf @ xs)"
        then obtain l zs where l: "buf @ xs = l @ 10 # zs" "10 \<notin> set l" by (meson split_list_first)
        then have "length l + 1 < GREP_BUF"
          using "1.prems"(4) by (simp add: fd input_lines_line)
        then have "length l < length buf" using full by linarith
        then have "(buf @ xs) ! length l \<in> set buf" by (simp add: nth_append)
        then show False using l "1.prems"(1) by simp
      qed
    qed (use "1.prems"(1) in simp)
    then show ?thesis using True loop by (simp add: fd grep_lines_none)
  next
    case False
    have z: "0 \<notin> set (buf @ new)" using "1.prems"(3) s(1) by (auto simp: fd)
    have rest: "10 \<notin> set rest" "set rest \<subseteq> set (buf @ new)" "length rest \<le> length (buf @ new)"
      "set (input_lines (rest @ ys)) \<subseteq> set (input_lines ((buf @ new) @ ys))"
      using grep_lines_rest [OF z, of re ys] by (simp_all add: g Let_def)
    have app: "(buf @ new) @ ys = buf @ xs" using s(1) by simp
    have c1: "length rest < GREP_BUF" using rest(3) s(2) "1.prems"(2) by simp
    have c2: "0 \<notin> set (rest @ fst (ys, ks'))" using rest(2) z s(1) "1.prems"(3) by (auto simp: fd)
    have c3: "\<forall>l \<in> set (input_lines (rest @ fst (ys, ks'))). length l + 1 < GREP_BUF"
      using rest(4) "1.prems"(4) unfolding app by (auto simp: fd)
    have r': "(new, ys, ks') = uread (GREP_BUF - length buf - 1) fd" using r by (simp add: fd)
    have ih: "grep_loop re rest (ys, ks') = fst (grep_lines re (rest @ ys))"
      using "1.IH" [OF r' refl False g [symmetric] refl rest(1) c1 c2 c3] by simp
    show ?thesis
      using grep_lines_append [OF z, of re ys] False loop ih s(1) by (simp add: fd g)
  qed
qed

text \<open>C31: \<open>grep\<close> writes exactly the matching lines of its input, in order and whole, however the
input is cut up by \<open>read\<close>, when the input has no nul and no line of it with its newline is
longer than the 1023 bytes that the buffer can hold.  A last line without a newline is not
looked at.\<close>

theorem grep_filters_lines:
  assumes "0 \<notin> set xs" and "\<forall>l \<in> set (input_lines xs). length l + 1 < GREP_BUF"
  shows "grep pattern (xs, ks) = concat (map (\<lambda>l. l @ [10]) (filter (match pattern) (input_lines xs)))"
  using assms grep_loop_spec [of "[]" "(xs, ks)" pattern]
  by (simp add: grep_def grep_lines_spec GREP_BUF_def)

theorem grep_filters_lines_witness:
  "grep [98] ([97, 98, 10, 99, 10, 98, 10, 98], [0, 3]) = [97, 98, 10, 98, 10]"
proof -
  have lines: "input_lines [97, 98, 10, 99, 10, 98, 10, 98] = [[97, 98], [99], [98]]"
    by (simp add: input_lines.simps)
  show ?thesis
    using grep_filters_lines [of "[97, 98, 10, 99, 10, 98, 10, 98]" "[98]" "[0, 3]"]
    by (simp add: lines GREP_BUF_def match_def matchhere.simps(2) ch_def)
qed

end
