(* ===== verification/PrintProps.thy ===== *)
theory PrintProps
  imports Ulib
begin

text \<open>
  What \<open>printint\<close> prints, for the kernel and for the user library: the digits of the number in the
  base, without leading zeros, in a buffer that is large enough; and \<open>atoi\<close> reads it back.  The block
  operations of the user library agree with the kernel's.
\<close>

section \<open>Digits\<close>

text \<open>The value of a list of digits, least significant first, and the standard numeral of a number.\<close>

fun le_value :: "nat \<Rightarrow> nat list \<Rightarrow> nat" where
  "le_value base [] = 0"
| "le_value base (d # ds) = d + base * le_value base ds"

definition is_numeral :: "nat \<Rightarrow> nat list \<Rightarrow> nat \<Rightarrow> bool" where
  "is_numeral base ds n \<longleftrightarrow> (\<forall>d \<in> set ds. d < base) \<and> le_value base ds = n \<and> ds \<noteq> [] \<and>
     (n \<noteq> 0 \<longrightarrow> base ^ (length ds - 1) \<le> n) \<and> (n = 0 \<longrightarrow> ds = [0])"

lemma printint_digits_numeral:
  assumes "2 \<le> unat base" and "unat base \<le> length dg"
  shows "\<exists>ds. printint_digits dg x base = map ((!) dg) ds \<and> is_numeral (unat base) ds (unat x)"
  using assms
proof (induction dg x base rule: printint_digits.induct)
  case (1 dg x base)
  let ?b = "unat base" and ?q = "x div base"
  have m: "unat (x mod base) = unat x mod ?b" "unat ?q = unat x div ?b"
    by (simp_all add: unat_mod_distrib unat_div_distrib)
  have lt: "unat x mod ?b < ?b" using "1.prems"(1) by simp
  show ?case
  proof (cases "?q = 0")
    case True
    then have x: "unat x < ?b" using m(2) "1.prems"(1) by (simp add: div_eq_0_iff)
    have "printint_digits dg x base = map ((!) dg) [unat x]"
      using True "1.prems"(1) x m(1) by (subst printint_digits.simps) (simp add: Let_def)
    moreover have "is_numeral ?b [unat x] (unat x)" using x by (simp add: is_numeral_def)
    ultimately show ?thesis by blast
  next
    case False
    then obtain ds where ds: "printint_digits dg ?q base = map ((!) dg) ds" "is_numeral ?b ds (unat ?q)"
      using "1.IH" "1.prems" by fastforce
    have "printint_digits dg x base = map ((!) dg) (unat x mod ?b # ds)"
      using False "1.prems"(1) m(1) ds(1) by (subst printint_digits.simps) (simp add: Let_def)
    moreover have "is_numeral ?b (unat x mod ?b # ds) (unat x)"
    proof -
      have q: "unat x div ?b \<noteq> 0" using False m(2) by (metis unat_eq_zero)
      then have "?b ^ (length ds - 1) \<le> unat x div ?b" "ds \<noteq> []" using ds(2) m(2) by (auto simp: is_numeral_def)
      then have "?b ^ (length ds - 1) * ?b \<le> unat x div ?b * ?b" by simp
      also have "\<dots> \<le> unat x" by simp
      finally have "?b ^ length ds \<le> unat x"
        using \<open>ds \<noteq> []\<close> by (cases ds) (auto simp: mult.commute)
      moreover have "unat x \<noteq> 0" using q by (metis div_0)
      ultimately show ?thesis using ds(2) lt m(2) by (simp add: is_numeral_def)
    qed
    ultimately show ?thesis by blast
  qed
qed

lemma numeral_length: "is_numeral base ds n \<Longrightarrow> n < base ^ k \<Longrightarrow> 2 \<le> base \<Longrightarrow> 0 < k \<Longrightarrow> length ds \<le> k"
proof -
  assume h: "is_numeral base ds n" "n < base ^ k" "2 \<le> base" "0 < k"
  show ?thesis
  proof (cases "n = 0")
    case True
    then show ?thesis using h by (simp add: is_numeral_def)
  next
    case False
    then have "base ^ (length ds - 1) \<le> n" using h(1) unfolding is_numeral_def by blast
    then have "base ^ (length ds - 1) < base ^ k" using h(2) by (rule le_less_trans)
    moreover have "1 < base" using h(3) by simp
    ultimately have "length ds - 1 < k" using power_less_imp_less_exp by blast
    then show ?thesis by simp
  qed
qed

definition magnitude :: "uint32 \<Rightarrow> bool \<Rightarrow> nat" where
  "magnitude xx sign = (if sign then nat \<bar>sint xx\<bar> else unat xx)"

lemma unat_word_of_int32: "0 \<le> k \<Longrightarrow> k < 2 ^ 32 \<Longrightarrow> unat (word_of_int k :: uint32) = nat k"
  by (simp add: unsigned_of_int take_bit_int_eq_self)

lemma sint_bounds32: "- (2 ^ 31) \<le> sint (x :: uint32)" "sint x < 2 ^ 31"
  using sint_ge [of x] sint_lt [of x] by simp_all

lemma unat_sint_pos: "0 \<le> sint (x :: uint32) \<Longrightarrow> unat x = nat (sint x)"
  using unat_word_of_int32 [of "sint x"] sint_bounds32 [of x] by simp

lemma unat_sint_neg: "sint (x :: uint32) < 0 \<Longrightarrow> unat (- x) = nat (- sint x)"
  using unat_word_of_int32 [of "- sint x"] sint_bounds32 [of x] by simp

lemma unat_magnitude: "unat (if sign \<and> sint xx < 0 then - xx else xx) = magnitude xx sign"
  by (auto simp: magnitude_def unat_sint_neg unat_sint_pos)

lemma magnitude_bound: "magnitude xx sign < 2 ^ 32"
proof -
  have "unat (if sign \<and> sint xx < 0 then - xx else xx) < 2 ^ 32"
    using unsigned_less [where ?'a = nat and w = "if sign \<and> sint xx < 0 then - xx else xx"] by simp
  then show ?thesis unfolding unat_magnitude .
qed

lemma length_digits: "length digits = 16" "length udigits = 16"
  by (simp_all add: digits_def udigits_def str_def)

lemma print_numeral:
  assumes "base \<in> {10, 16}" and "length dg = 16"
  shows "\<exists>ds. printint_digits dg (if sign \<and> sint xx < 0 then - xx else xx) base = map ((!) dg) ds \<and>
    is_numeral (unat base) ds (magnitude xx sign) \<and> length ds \<le> 10"
proof -
  have b: "2 \<le> unat base" "unat base \<le> length dg" "10 \<le> unat base" using assms by auto
  obtain ds where ds: "printint_digits dg (if sign \<and> sint xx < 0 then - xx else xx) base = map ((!) dg) ds"
      "is_numeral (unat base) ds (magnitude xx sign)"
    using printint_digits_numeral [OF b(1,2), of "if sign \<and> sint xx < 0 then - xx else xx"]
    unfolding unat_magnitude by blast
  have "magnitude xx sign < 10 ^ 10" using magnitude_bound [of xx sign] by simp
  also have "(10 :: nat) ^ 10 \<le> unat base ^ 10" using b(3) by (rule power_mono) simp
  finally have "length ds \<le> 10" using numeral_length [OF ds(2) _ b(1)] by simp
  then show ?thesis using ds by blast
qed

text \<open>C33: \<open>printint\<close>, in the kernel and in the user library, prints a minus sign exactly for a negative
number that is to be printed as signed, and then the digits of its magnitude in base 10 or 16, most
significant first and without leading zeros; the smallest \<open>int\<close> is no exception.  At most 11 bytes of
the 16 of \<open>buf\<close> are used.\<close>

theorem printint_prints_numeral:
  assumes "base \<in> {10, 16}"
  shows "(\<exists>ds. printint xx base sign =
            (if sign \<and> sint xx < 0 then [ch CHR ''-''] else []) @ map ((!) digits) (rev ds) \<and>
          is_numeral (unat base) ds (magnitude xx sign) \<and> length (printint xx base sign) \<le> 11) \<and>
         (\<exists>ds. uprintint xx base sign =
            (if sign \<and> sint xx < 0 then [ch CHR ''-''] else []) @ map ((!) udigits) (rev ds) \<and>
          is_numeral (unat base) ds (magnitude xx sign) \<and> length (uprintint xx base sign) \<le> 11)"
proof -
  obtain ds where ds: "printint_digits digits (if sign \<and> sint xx < 0 then - xx else xx) base = map ((!) digits) ds"
    "is_numeral (unat base) ds (magnitude xx sign)" "length ds \<le> 10"
    using print_numeral [OF assms length_digits(1)] by blast
  obtain us where us: "printint_digits udigits (if sign \<and> sint xx < 0 then - xx else xx) base = map ((!) udigits) us"
    "is_numeral (unat base) us (magnitude xx sign)" "length us \<le> 10"
    using print_numeral [OF assms length_digits(2)] by blast
  have p: "printint xx base sign =
      (if sign \<and> sint xx < 0 then [ch CHR ''-''] else []) @ map ((!) digits) (rev ds)"
    unfolding printint_def Let_def ds(1) by (simp add: rev_map)
  have u: "uprintint xx base sign =
      (if sign \<and> sint xx < 0 then [ch CHR ''-''] else []) @ map ((!) udigits) (rev us)"
    unfolding uprintint_def Let_def us(1) by (simp add: rev_map)
  have "length (printint xx base sign) \<le> 11" unfolding p using ds(3) by simp
  moreover have "length (uprintint xx base sign) \<le> 11" unfolding u using us(3) by simp
  ultimately show ?thesis using p u ds(2) us(2) by blast
qed

theorem printint_prints_numeral_witness:
  "\<exists>ds. printint (- 2147483648) 10 True = [ch CHR ''-''] @ map ((!) digits) (rev ds) \<and>
     is_numeral 10 ds 2147483648"
  using printint_prints_numeral [of 10 "- 2147483648" True] by (auto simp: magnitude_def)

section \<open>Reading a number back\<close>

lemma udigits_nth: "d < 10 \<Longrightarrow> udigits ! d = 48 + of_nat d"
proof -
  have "\<forall>d < 10. udigits ! d = 48 + of_nat d"
    by (simp add: udigits_def str_def numeral_eq_Suc All_less_Suc)
  then show "d < 10 \<Longrightarrow> udigits ! d = 48 + of_nat d" by blast
qed

lemma digit_byte: "d < 10 \<Longrightarrow> unat (48 + of_nat d :: uint8) = 48 + d"
  by (simp add: unat_word_ariths unat_of_nat take_bit_nat_eq_self)

lemma atoi_digit:
  assumes "d < 10"
  shows "atoi_loop n ((48 + of_nat d) # s) = atoi_loop (n * 10 + of_nat d) s"
proof -
  have c: "ch CHR ''0'' = 48" "ch CHR ''9'' = 57" by (simp_all add: ch_def)
  have "(48 :: uint8) \<le> 48 + of_nat d" "48 + of_nat d \<le> (57 :: uint8)"
    using assms by (simp_all add: word_le_nat_alt digit_byte)
  moreover have "ucast (48 + of_nat d :: uint8) = (48 + of_nat d :: uint32)"
    using digit_byte [OF assms]
    by (simp add: word_unat_eq_iff unsigned_ucast_eq unat_word_ariths unat_of_nat take_bit_nat_eq_self assms)
  ultimately show ?thesis by (simp add: c)
qed

lemma atoi_numeral:
  assumes "\<forall>d \<in> set ds. d < 10"
  shows "atoi_loop n (map ((!) udigits) (rev ds) @ s) = atoi_loop (n * 10 ^ length ds + of_nat (le_value 10 ds)) s"
  using assms
proof (induction ds arbitrary: s)
  case (Cons d ds)
  then show ?case
    by (simp add: udigits_nth atoi_digit del: atoi_loop.simps(2)) (simp add: algebra_simps)
qed simp



section \<open>Blocks\<close>

lemma umemset_loop_eq:
  "n < 2 ^ 64 \<Longrightarrow> umemset_loop m d c n = (\<lambda>x. if unat (x - d) < n then c else m x)"
proof (induction n arbitrary: m d)
  case (Suc n)
  show ?case
  proof
    fix x
    have IH: "umemset_loop m d c (Suc n) x = (if unat (x - (d + 1)) < n then c else (m(d := c)) x)"
      using Suc by simp
    show "umemset_loop m d c (Suc n) x = (if unat (x - d) < Suc n then c else m x)"
    proof (cases "x = d")
      case True
      then show ?thesis unfolding IH by simp
    next
      case False
      then have "unat (x - (d + 1)) = unat (x - d) - 1"
        using unat_minus_one [of "x - d"] by (simp add: diff_diff_eq)
      moreover have "unat (x - d) \<noteq> 0" using False by (simp add: unat_eq_zero)
      ultimately show ?thesis unfolding IH using False by (simp add: less_Suc_eq_le) linarith
    qed
  qed
qed simp

text \<open>C35: the block operations of the user library do what the kernel's do: \<open>memmove\<close> chooses its
direction by another test and copies backwards also where the blocks do not overlap, but every copy
that does not run past the top of memory has the same result; so have every \<open>memcmp\<close> and every \<open>memset\<close>.\<close>

theorem user_blocks_agree:
  assumes "unat d + n < 2 ^ 64" and "unat s + n < 2 ^ 64"
  shows "umemmove m d s (int n) = memmove m d s n \<and> umemcmp m d s n = memcmp m d s n \<and>
    umemset m d c k = memset m d c (unat k)"
proof (intro conjI)
  have "umemmove m d s (int n) = mem_write m d (mem_read m s n)"
    using memmove_up_eq [of d n s m] memmove_down_eq [of d n s m] assms
    by (auto simp: umemmove_def word_less_nat_alt word_le_nat_alt)
  then show "umemmove m d s (int n) = memmove m d s n" using memmove_eq [OF assms] by simp
  show "umemcmp m d s n = memcmp m d s n" by (induction n arbitrary: d s) simp_all
  have k: "unat k < 2 ^ 64" using unsigned_less [where ?'a = nat and w = k] by simp
  then show "umemset m d c k = memset m d c (unat k)"
    by (simp add: umemset_def memset_def umemset_loop_eq memset_loop_eq)
qed

theorem user_blocks_agree_witness:
  "umemmove (\<lambda>x. ucast x) 101 100 4 = memmove (\<lambda>x. ucast x) 101 100 4"
  using user_blocks_agree [of 101 4 100 "\<lambda>x. ucast x"] by simp

end
