(* ===== verification/KallocRace.thy ===== *)
theory KallocRace
  imports Kalloc
begin

text \<open>
  \<open>kfree\<close> (\<open>kernel/kalloc.c\<close>) works on \<open>page_refcnt\<close> without holding \<open>kmem.lock\<close>.  Here it is cut
  at the point between the decrement and the second test, where another hart can run, and two
  harts are interleaved.
\<close>

definition kfree_dec :: "uint64 \<Rightarrow> 'a kmem_scheme \<Rightarrow> 'a kmem_scheme res" where
  "kfree_dec pa s =
     (let i = pa div PGSIZE in
      if PHYSTOP div PGSIZE \<le> i then Inl (Fault ''page_refcnt'')
      else Inr (if 0 < page_refcnt s i
                then s\<lparr>page_refcnt := (page_refcnt s)(i := page_refcnt s i - 1)\<rparr> else s))"

definition kfree_rest :: "uint64 \<Rightarrow> 'a kmem_scheme \<Rightarrow> 'a kmem_scheme res" where
  "kfree_rest pa s =
     (if 0 < page_refcnt s (pa div PGSIZE) then Inr s
      else if pa mod PGSIZE \<noteq> 0 \<or> pa < kern_end s \<or> PHYSTOP \<le> pa then Inl (Panic ''kfree'')
      else
        let s = s\<lparr>pmem := memset (pmem s) pa 1 4096\<rparr>;
            s = s\<lparr>pmem := store64 (pmem s) pa (freelist s)\<rparr> in
        Inr (s\<lparr>freelist := pa\<rparr>))"

text \<open>On one hart the two parts are the whole function.\<close>

lemma kfree_steps: "kfree pa s = rbind (kfree_dec pa s) (kfree_rest pa)"
  by (simp add: kfree_def kfree_dec_def kfree_rest_def Let_def)

text \<open>The harts of a schedule: \<open>False\<close> is a decrement, \<open>True\<close> the rest of the call.\<close>

fun kfree_schedule :: "bool list \<Rightarrow> uint64 \<Rightarrow> 'a kmem_scheme \<Rightarrow> 'a kmem_scheme res" where
  "kfree_schedule [] pa s = Inr s"
| "kfree_schedule (b # bs) pa s =
     rbind (if b then kfree_rest pa s else kfree_dec pa s) (kfree_schedule bs pa)"

lemma kfree_rest_frees:
  assumes "ram_page s pa" and "page_refcnt s (pa div PGSIZE) = 0"
  shows "kfree_rest pa s =
    Inr (s\<lparr>pmem := store64 (memset (pmem s) pa 1 4096) pa (freelist s), freelist := pa\<rparr>)"
  using assms by (auto simp: kfree_rest_def Let_def ram_page_def page_aligned_def)

lemma kalloc_head: "freelist s \<noteq> 0 \<Longrightarrow> fst (kalloc s) = freelist s \<and>
  freelist (snd (kalloc s)) = load64 (pmem s) (freelist s)"
  by (simp add: kalloc_def Let_def)

text \<open>C32: two harts that drop the last two references of a page free it properly when one call
follows the other: the page is on the free list once.  When both decrement the count before
either tests it, both put the page on the list, and the next two calls of \<open>kalloc\<close> hand out the
same page.\<close>

theorem kfree_race_double_free:
  assumes "kmem_inv s fl" and "ram_page s p" and "page_refcnt s (p div PGSIZE) = 2"
  shows "(\<exists>s'. kfree_schedule [False, True, False, True] p s = Inr s' \<and> kmem_inv s' (p # fl)) \<and>
         (\<exists>s'. kfree_schedule [False, False, True, True] p s = Inr s' \<and>
            fst (kalloc s') = p \<and> fst (kalloc (snd (kalloc s'))) = p)"
proof
  have "kfree_times 2 p s = kfree_schedule [False, True, False, True] p s"
    by (simp add: eval_nat_numeral kfree_steps rbind_assoc)
  moreover have "\<exists>s'. kfree_times (Suc 1) p s = Inr s' \<and> kmem_inv s' (p # fl)"
    using kpages.dealloc_n_frees [OF assms(1,2), of 1] assms(3) by (simp only: kfree_times_dealloc_n) auto
  ultimately show "\<exists>s'. kfree_schedule [False, True, False, True] p s = Inr s' \<and> kmem_inv s' (p # fl)"
    by (simp only: Suc_1)
next
  let ?i = "p div PGSIZE"
  have i: "\<not> PHYSTOP div PGSIZE \<le> ?i" using ram_page_index [OF assms(2)] by simp
  have nz: "p \<noteq> 0" using ram_page_nonzero [OF _ assms(2)] assms(1) by (simp add: kmem_inv_def)
  define s2 where "s2 = s\<lparr>page_refcnt := (page_refcnt s)(?i := 0)\<rparr>"
  have dec: "kfree_schedule [False, False, True, True] p s = kfree_schedule [True, True] p s2"
    using i assms(3) by (simp add: kfree_dec_def Let_def s2_def)
  have ram: "ram_page s2 p" using assms(2) by (simp add: s2_def ram_page_def)
  define s3 where "s3 = s2\<lparr>pmem := store64 (memset (pmem s2) p 1 4096) p (freelist s2), freelist := p\<rparr>"
  define s4 where "s4 = s3\<lparr>pmem := store64 (memset (pmem s3) p 1 4096) p (freelist s3), freelist := p\<rparr>"
  have "kfree_rest p s2 = Inr s3" using kfree_rest_frees [OF ram] by (simp add: s3_def s2_def)
  moreover have "ram_page s3 p" "page_refcnt s3 ?i = 0"
    using ram by (simp_all add: s3_def ram_page_def) (simp add: s2_def)
  then have "kfree_rest p s3 = Inr s4" using kfree_rest_frees by (simp add: s4_def)
  moreover have "freelist s4 = p" "load64 (pmem s4) p = p" by (simp_all add: s4_def s3_def)
  moreover from this have "fst (kalloc s4) = p" "fst (kalloc (snd (kalloc s4))) = p"
    using kalloc_head [of s4] kalloc_head [of "snd (kalloc s4)"] nz by auto
  ultimately show "\<exists>s'. kfree_schedule [False, False, True, True] p s = Inr s' \<and>
      fst (kalloc s') = p \<and> fst (kalloc (snd (kalloc s'))) = p"
    unfolding dec by simp
qed

theorem kfree_race_double_free_witness:
  "\<exists>s'. kfree_schedule [False, False, True, True] 0x80100000
          (two_pages\<lparr>page_refcnt := (\<lambda>_. 0)(0x80100 := 2)\<rparr>) = Inr s' \<and>
        fst (kalloc s') = 0x80100000 \<and> fst (kalloc (snd (kalloc s'))) = 0x80100000"
proof -
  let ?s = "two_pages\<lparr>page_refcnt := (\<lambda>_. 0)(0x80100 := 2)\<rparr>"
  have inv: "kmem_inv ?s [0x87fff000, 0x87ffe000]"
    using two_pages_inv by (auto simp: kmem_inv_def ram_page_def)
  have ram: "ram_page ?s 0x80100000"
    by (simp add: ram_page_def two_pages_def page_aligned_def PHYSTOP_eq)
  have "page_refcnt ?s (0x80100000 div PGSIZE) = 2" by simp
  from kfree_race_double_free [OF inv ram this] show ?thesis by blast
qed

end
