(* ===== verification/Spec2Isabelle.thy ===== *)
theory Spec2Isabelle
  imports FsBlocks LogSpace ConsoleProps ForkProps Grep PrintProps KallocRace
begin

text \<open>
  A verification of the xv6 kernel with copy-on-write \<open>fork\<close>.

  \<^bold>\<open>The program.\<close>  xv6 is a small Unix kernel for RISC-V with a user library and a few programs.
  A process owns a page table and a trap frame; it enters the kernel through a trap
  (\<open>kernel/trap.c\<close>), which dispatches system calls (\<open>kernel/syscall.c\<close>, \<open>kernel/sysproc.c\<close>,
  \<open>kernel/sysfile.c\<close>), device interrupts and page faults.  Processes (\<open>kernel/proc.c\<close>) get their pages
  from \<open>kernel/kalloc.c\<close> through \<open>kernel/vm.c\<close>.  In this kernel \<open>fork\<close> shares the pages of the parent,
  marks them copy-on-write, and counts the references of every page in \<open>page_refcnt\<close>; the first store
  to a shared page, by the user (a fault in \<open>usertrap\<close>) or by the kernel (\<open>copyout\<close>), makes a private
  copy.  Files are inodes (\<open>kernel/fs.c\<close>) over a redo log (\<open>kernel/log.c\<close>) over a buffer cache
  (\<open>kernel/bio.c\<close>) over the disk driver (\<open>kernel/virtio_disk.c\<close>), or pipes (\<open>kernel/pipe.c\<close>), or the
  console (\<open>kernel/console.c\<close>) over the serial port (\<open>kernel/uart.c\<close>).

  \<^bold>\<open>How the code is modelled.\<close>  C integers are words of their width.  The state is a chain of
  extensible records that follows the layers of the kernel: \<open>kmem\<close> (memory, free list, counts), \<open>pstate\<close>
  (process table), \<open>bstate\<close> (buffers, disk), \<open>lstate\<close> (log), \<open>istate\<close> (inodes), \<open>fstate\<close> (open files,
  pipes, console, serial port), \<open>mstate\<close> (CPUs, disk driver).  A function of the source is a HOL function
  that takes and returns the state; one that can stop returns a sum, whose left side is a panic with
  its message, a fault (a null pointer or an index outside an array, where C has no defined meaning),
  or going to sleep on a resource.  A loop is a recursive function, split off under the name of its
  function with the suffix \<open>_loop\<close>.  What the code does while it holds a spin lock is one step; where
  it gives the lock up (\<open>sleep\<close>, \<open>sched\<close>, waiting for the disk) the function is split, and its progress
  is part of the result.  The index of the running process is the argument \<open>me\<close>.

  \<^bold>\<open>Theories.\<close>
  \<^item> \<open>Prelude\<close>: words, results, byte memory, fields of on-disk structures.  \<open>Riscv\<close>: the macros of
    \<open>kernel/riscv.h\<close> and \<open>kernel/memlayout.h\<close>.  \<open>CString\<close>: \<open>kernel/string.c\<close>.
  \<^item> \<open>Kalloc\<close>: \<open>kernel/kalloc.c\<close>, its invariant (the links in memory spell out a list of distinct free
    pages of count zero) and its contract, the locale \<open>page_alloc\<close>, interpreted on \<open>kalloc\<close> and \<open>kfree\<close>.
    \<open>KallocRace\<close>: \<open>kfree\<close> on two harts.
  \<^item> \<open>Vm\<close>: \<open>kernel/vm.c\<close>.  \<open>VmTables\<close>: page tables as trees and what walks may change.  \<open>VmSpace\<close>: the
    invariant \<open>vm_inv\<close> (the count of every page is the number of user mappings of it, a page mapped
    writable has count one).  \<open>VmUser\<close>, \<open>VmOps\<close>, \<open>VmCopy\<close>: each operation in terms of \<open>user_byte\<close>, the byte that
    a process reads at an address.  \<open>VmProps\<close>: the properties.
  \<^item> \<open>Spinlock\<close>: \<open>kernel/spinlock.c\<close>, with harts that interleave.  \<open>ProcTable\<close>: \<open>kernel/proc.h\<close> and the process
    table part of \<open>kernel/proc.c\<close>.  \<open>Proc\<close>: the rest of it.  \<open>Trap\<close>, \<open>Syscall\<close>, \<open>Sysfile\<close>, \<open>Exec\<close>: the files of
    these names.  \<open>TrapProps\<close>: the copy-on-write fault.  \<open>Frame\<close>: which parts of the state the memory
    operations leave alone.
  \<^item> \<open>Bio\<close>, \<open>BioInv\<close>: \<open>kernel/sleeplock.c\<close> and \<open>kernel/bio.c\<close>, the ring of buffers as a list, and the contract of
    the cache, the locale \<open>block_cache\<close>.  \<open>Log\<close>, \<open>LogCrash\<close>, \<open>LogAtomic\<close>, \<open>LogSpace\<close>: \<open>kernel/log.c\<close>, the disk
    writes of each of its loops, crash atomicity, and the space reservation.  \<open>Fs\<close>: \<open>kernel/fs.c\<close>.
    \<open>Virtio\<close>: the disk driver.
  \<^item> \<open>Ring\<close>: the contract of a ring buffer, the locale \<open>ring_buffer\<close>, interpreted on the pipe, on the
    transmit buffer of the serial port and on the console input.  \<open>Pipe\<close>, \<open>Uart\<close>, \<open>File\<close>: \<open>kernel/pipe.c\<close>,
    \<open>kernel/uart.c\<close> with \<open>kernel/console.c\<close>, and \<open>kernel/file.c\<close>.  \<open>PipeProps\<close>, \<open>ConsoleProps\<close>: refinement of queues and
    of a line editor, and absence of lost wakeups.
  \<^item> \<open>Printf\<close>: \<open>kernel/printf.c\<close> and \<open>user/printf.c\<close>.  \<open>Ulib\<close>: \<open>user/ulib.c\<close>.
    \<open>PrintProps\<close>: printed numbers, read back by \<open>atoi\<close>.  \<open>Grep\<close>: \<open>user/grep.c\<close>, against the language of the pattern.

  \<^bold>\<open>Fuel and bounds.\<close>  The scans of the buffer ring get \<open>NBUF + 1\<close> rounds, one more than the ring has
  nodes, and \<open>ring_find_eq\<close> shows that they reach the head.  \<open>freewalk\<close> recurses to depth three, the
  height of an Sv39 tree.  The chain walk of the disk driver gets \<open>NUM + 1\<close> rounds for its \<open>NUM\<close>
  descriptors.  The interrupt handler of the serial port gets one round per reading of its status and one
  more.  Every other loop terminates by a measure that is proved where it is defined.

  \<^bold>\<open>Parameters.\<close>  The addresses that the linker assigns (\<open>symbols\<close>), the registers of the disk, the status
  and data readings of the serial port and the pending interrupt are arguments: they belong to the
  linker and to the devices.

  \<^bold>\<open>Not modelled.\<close>  Assembly (\<open>entry.S\<close>, \<open>kernelvec.S\<close>, \<open>trampoline.S\<close>, \<open>initcode.S\<close>) and the boot code that
  only sets control registers (\<open>start.c\<close>, \<open>main.c\<close>, \<open>plic.c\<close>); \<open>kvmmake\<close> and \<open>kvminit\<close>, which build the kernel
  page table once; \<open>ramdisk.c\<close>, which is not compiled; the test programs of \<open>user/\<close>, which exercise the
  kernel; the build scripts.  Memory is sequentially consistent and the TLB is not modelled: after each
  change of a page table that matters the code executes \<open>sfence.vma\<close> before it returns to the user.
\<close>

end
